(* ===== verification/Prelude.thy ===== *)
theory Prelude
  imports Main "HOL-Library.Word"
begin

text \<open>
  What every component of the development shares:
  \<^item> the faults a call can end in (an assertion, a self-deadlock, undefined behaviour, an uncaught
    exception, the exit of the thread) and the result type that carries them;
  \<^item> the closures the program stores in a \<open>std::function\<close> or binds with \<open>std::bind\<close>,
    written out as a datatype, \<open>None\<close> of its option type being the empty function;
  \<^item> the two's-complement reading of 64-bit arithmetic, the bits of the event masks, and generic
    lemmas on lists, results and words.
\<close>

named_theorems model_defs \<open>definitions a component proof unfolds\<close>
named_theorems wf_intros \<open>preservation lemmas of the component invariants\<close>

section \<open>Faults and results\<close>

datatype fault =
    AssertionFailed     \<comment> \<open>an \<open>assert\<close> of the source is false\<close>
  | SelfDeadlock        \<comment> \<open>a thread blocks on a lock it holds itself\<close>
  | OutOfBounds         \<comment> \<open>a vector is indexed outside its size\<close>
  | NullDereference     \<comment> \<open>a null pointer is dereferenced\<close>
  | BadFunctionCall     \<comment> \<open>an empty \<open>std::function\<close> is called\<close>
  | LogicError          \<comment> \<open>\<open>throw std::logic_error\<close>\<close>
  | BadResume           \<comment> \<open>a coroutine that is not suspended at a resumable point is resumed\<close>
  | UseAfterFree        \<comment> \<open>an object is used after its destruction\<close>
  | EmptyOptional       \<comment> \<open>an empty \<open>std::optional\<close> is dereferenced\<close>
  | SignedOverflow      \<comment> \<open>signed arithmetic leaves the range of its type\<close>
  | MissingReturn       \<comment> \<open>a function that returns a value ends without a \<open>return\<close>\<close>
  | PthreadExit         \<comment> \<open>\<open>pthread_exit(NULL)\<close> after a failed context call\<close>

type_synonym 'a result = "fault + 'a"

fun and_then :: "'a result \<Rightarrow> ('a \<Rightarrow> 'b result) \<Rightarrow> 'b result" where
  "and_then (Inl e) f = Inl e"
| "and_then (Inr x) f = f x"

definition assert_that :: "bool \<Rightarrow> 'a result \<Rightarrow> 'a result" where
  "assert_that b r = (if b then r else Inl AssertionFailed)"

lemma and_then_Inr_iff:
  "and_then m f = Inr y \<longleftrightarrow> (\<exists>x. m = Inr x \<and> f x = Inr y)"
  by (cases m) auto

lemma and_then_Inl_iff:
  "and_then m f = Inl e \<longleftrightarrow> m = Inl e \<or> (\<exists>x. m = Inr x \<and> f x = Inl e)"
  by (cases m) auto

lemma and_then_assoc: "and_then (and_then m f) g = and_then m (\<lambda>x. and_then (f x) g)"
  by (cases m) auto

lemma assert_that_True [simp]: "assert_that True r = r"
  by (simp add: assert_that_def)

lemma assert_that_False [simp]: "assert_that False r = Inl AssertionFailed"
  by (simp add: assert_that_def)

lemma assert_that_Inr_iff: "assert_that b r = Inr x \<longleftrightarrow> b \<and> r = Inr x"
  by (simp add: assert_that_def)

lemmas result_simps = and_then_Inr_iff and_then_Inl_iff assert_that_Inr_iff

section \<open>Closures\<close>

text \<open>
  A \<open>std::function<void()>\<close> of the program is one of: a function the user passes in; the function
  \<open>OnTimer\<close> bound to a weak pointer and a function (\<open>addConditionTimer\<close>); the lambda of the sleep
  hooks, which schedules a fiber again; \<open>Scheduler::run\<close> and \<open>Scheduler::idle\<close> bound to the
  scheduler. \<open>None\<close> stands for the empty function wherever a \<open>closure option\<close> is stored.
\<close>

datatype closure =
    UserFn nat
  | BoundOnTimer nat "closure option"
  | RescheduleFiber nat
  | BoundRun
  | BoundIdle

section \<open>Machine arithmetic\<close>

text \<open>
  A signed 64-bit value is an \<open>int\<close>; \<open>i64\<close> writes the wrap-around out. It is the identity on the
  range of the type, which is what the exactness theorems rest on.
\<close>

definition i64 :: "int \<Rightarrow> int" where
  "i64 x = signed_take_bit 63 x"

definition i32 :: "int \<Rightarrow> int" where
  "i32 x = signed_take_bit 31 x"

lemma i64_id [simp]: "- (2 ^ 63) \<le> x \<Longrightarrow> x < 2 ^ 63 \<Longrightarrow> i64 x = x"
  by (simp add: i64_def signed_take_bit_int_eq_self)

lemma i64_id_num: "- 9223372036854775808 \<le> x \<Longrightarrow> x < 9223372036854775808 \<Longrightarrow> i64 x = x"
  by (rule i64_id) simp_all

lemma i64_range: "- (2 ^ 63) \<le> i64 x \<and> i64 x < 2 ^ 63"
  using signed_take_bit_int_greater_eq_minus_exp [of 63 x] signed_take_bit_int_less_exp [of 63 x]
  by (simp add: i64_def)

lemma i32_id [simp]: "- (2 ^ 31) \<le> x \<Longrightarrow> x < 2 ^ 31 \<Longrightarrow> i32 x = x"
  by (simp add: i32_def signed_take_bit_int_eq_self)

text \<open>\<open>~0ull\<close>, the value \<open>getNextTimer\<close> returns for an empty timer set.\<close>

abbreviation no_timeout :: "64 word" where
  "no_timeout \<equiv> - 1"

section \<open>Lists\<close>

definition erase_at :: "nat \<Rightarrow> 'a list \<Rightarrow> 'a list" where
  "erase_at i xs = take i xs @ drop (Suc i) xs"

lemma erase_at_0 [simp]: "erase_at 0 (x # xs) = xs"
  by (simp add: erase_at_def)

lemma erase_at_Suc [simp]: "erase_at (Suc i) (x # xs) = x # erase_at i xs"
  by (simp add: erase_at_def)

lemma erase_at_Nil [simp]: "erase_at i [] = []"
  by (simp add: erase_at_def)

lemma set_erase_at_subset: "set (erase_at i xs) \<subseteq> set xs"
  by (auto simp: erase_at_def dest: in_set_takeD in_set_dropD)

lemma length_erase_at: "i < length xs \<Longrightarrow> length (erase_at i xs) = length xs - 1"
  by (simp add: erase_at_def)

lemma set_erase_at_distinct:
  "distinct xs \<Longrightarrow> i < length xs \<Longrightarrow> set (erase_at i xs) = set xs - {xs ! i}"
proof (induction xs arbitrary: i)
  case Nil
  then show ?case by simp
next
  case (Cons x xs)
  then show ?case by (cases i) auto
qed

lemma sorted_wrt_erase_at: "sorted_wrt P xs \<Longrightarrow> sorted_wrt P (erase_at i xs)"
proof (induction xs arbitrary: i)
  case Nil
  then show ?case by simp
next
  case (Cons x xs)
  then show ?case
    using set_erase_at_subset [of "i - 1" xs] by (cases i) auto
qed

lemma distinct_erase_at: "distinct xs \<Longrightarrow> distinct (erase_at i xs)"
proof (induction xs arbitrary: i)
  case Nil
  then show ?case by simp
next
  case (Cons x xs)
  then show ?case
    using set_erase_at_subset [of "i - 1" xs] by (cases i) auto
qed

end
