(* ===== verification/Ordered_Set.thy ===== *)
theory Ordered_Set
  imports Prelude
begin

text \<open>
  The part of \<open>std::set<T, Compare>\<close> the program uses, on the list of the elements in iteration
  order: an iterator is a position (the length is \<open>end()\<close>), and two elements are the same key when
  neither compares below the other, which is how the container itself decides. The locale
  \<open>strict_weak_order\<close> is the contract a \<open>Compare\<close> has to satisfy; \<open>keyed_order\<close> is the special case
  of a comparator that compares one key of its arguments.
\<close>

section \<open>Operations\<close>

text \<open>\<open>lower_bound\<close>: the first position whose element is not below \<open>x\<close>.\<close>

primrec lower_bound :: "('a \<Rightarrow> 'a \<Rightarrow> bool) \<Rightarrow> 'a \<Rightarrow> 'a list \<Rightarrow> nat" where
  "lower_bound lt x [] = 0"
| "lower_bound lt x (y # ys) = (if lt y x then Suc (lower_bound lt x ys) else 0)"

text \<open>\<open>find\<close>: the position of an element equivalent to \<open>x\<close>, \<open>None\<close> for \<open>end()\<close>.\<close>

definition oset_find :: "('a \<Rightarrow> 'a \<Rightarrow> bool) \<Rightarrow> 'a \<Rightarrow> 'a list \<Rightarrow> nat option" where
  "oset_find lt x xs =
     (let i = lower_bound lt x xs
      in if i < length xs \<and> \<not> lt x (xs ! i) then Some i else None)"

text \<open>
  \<open>insert\<close>: nothing is inserted when an equivalent element is present, and the iterator returned
  points to that element; otherwise \<open>x\<close> goes to its lower bound, where the iterator points.
\<close>

definition oset_insert :: "('a \<Rightarrow> 'a \<Rightarrow> bool) \<Rightarrow> 'a \<Rightarrow> 'a list \<Rightarrow> nat \<times> 'a list" where
  "oset_insert lt x xs =
     (let i = lower_bound lt x xs
      in if i < length xs \<and> \<not> lt x (xs ! i) then (i, xs)
         else (i, take i xs @ x # drop i xs))"

lemma oset_find_Nil [simp]: "oset_find lt x [] = None"
  by (simp add: oset_find_def)

lemma oset_find_Cons [simp]:
  "oset_find lt x (y # ys) =
     (if lt y x then map_option Suc (oset_find lt x ys) else if lt x y then None else Some 0)"
  by (simp add: oset_find_def Let_def)

lemma oset_insert_Nil [simp]: "oset_insert lt x [] = (0, [x])"
  by (simp add: oset_insert_def)

lemma oset_insert_Cons [simp]:
  "oset_insert lt x (y # ys) =
     (if lt y x then (Suc (fst (oset_insert lt x ys)), y # snd (oset_insert lt x ys))
      else if lt x y then (0, x # y # ys) else (0, y # ys))"
  by (simp add: oset_insert_def Let_def)

lemma oset_find_length: "oset_find lt x xs = Some i \<Longrightarrow> i < length xs"
  by (auto simp: oset_find_def Let_def split: if_splits)

lemma oset_insert_cong:
  "(\<And>y. y \<in> set xs \<Longrightarrow> lt y x = lt' y x \<and> lt x y = lt' x y) \<Longrightarrow>
   oset_insert lt x xs = oset_insert lt' x xs"
  by (induction xs) auto

lemma oset_find_cong:
  "(\<And>y. y \<in> set xs \<Longrightarrow> lt y x = lt' y x \<and> lt x y = lt' x y) \<Longrightarrow>
   oset_find lt x xs = oset_find lt' x xs"
  by (induction xs) auto

lemma sorted_wrt_cong:
  "(\<And>x y. x \<in> set xs \<Longrightarrow> y \<in> set xs \<Longrightarrow> P x y = Q x y) \<Longrightarrow> sorted_wrt P xs = sorted_wrt Q xs"
  by (induction xs) auto

lemma set_oset_insert_subset: "set (snd (oset_insert lt x xs)) \<subseteq> insert x (set xs)"
  by (induction xs) auto

lemma set_subset_oset_insert: "set xs \<subseteq> set (snd (oset_insert lt x xs))"
  by (induction xs) auto

lemma oset_insert_nonempty [simp]: "snd (oset_insert lt x xs) \<noteq> []"
  by (cases xs) auto

section \<open>The contract of a comparator\<close>

locale strict_weak_order =
  fixes lt :: "'a \<Rightarrow> 'a \<Rightarrow> bool"
  assumes lt_irrefl: "\<not> lt x x"
    and lt_trans: "lt x y \<Longrightarrow> lt y z \<Longrightarrow> lt x z"
    and equiv_trans:
      "\<not> lt x y \<Longrightarrow> \<not> lt y x \<Longrightarrow> \<not> lt y z \<Longrightarrow> \<not> lt z y \<Longrightarrow> \<not> lt x z \<and> \<not> lt z x"
begin

lemma lt_asym: "lt x y \<Longrightarrow> \<not> lt y x"
  using lt_irrefl lt_trans by blast

lemma lt_equiv_right: "lt x y \<Longrightarrow> \<not> lt y z \<Longrightarrow> \<not> lt z y \<Longrightarrow> lt x z"
  using equiv_trans [of x z y] lt_trans [of z x y] by blast

lemma lt_equiv_left: "lt y x \<Longrightarrow> \<not> lt y z \<Longrightarrow> \<not> lt z y \<Longrightarrow> lt z x"
  using equiv_trans [of x z y] lt_trans [of y x z] by blast

lemma sorted_insert: "sorted_wrt lt xs \<Longrightarrow> sorted_wrt lt (snd (oset_insert lt x xs))"
proof (induction xs)
  case Nil
  then show ?case by simp
next
  case (Cons y ys)
  then show ?case
    using set_oset_insert_subset [of lt x ys] lt_trans [of x y] by (auto 0 3)
qed

lemma sorted_distinct: "sorted_wrt lt xs \<Longrightarrow> distinct xs"
  by (induction xs) (auto simp: lt_irrefl)

lemma find_equiv: "oset_find lt x xs = Some i \<Longrightarrow> \<not> lt (xs ! i) x \<and> \<not> lt x (xs ! i)"
  by (induction xs arbitrary: i) (auto split: if_splits)

lemma find_None_iff:
  "sorted_wrt lt xs \<Longrightarrow> oset_find lt x xs = None \<longleftrightarrow> (\<forall>y \<in> set xs. lt x y \<or> lt y x)"
proof (induction xs)
  case Nil
  then show ?case by simp
next
  case (Cons y ys)
  have "lt x y \<Longrightarrow> z \<in> set ys \<Longrightarrow> lt x z" for z
    using Cons.prems lt_trans [of x y z] by simp
  with Cons lt_asym [of x y] show ?case by auto
qed

lemma find_member:
  assumes "sorted_wrt lt xs" and "x \<in> set xs"
  obtains i where "oset_find lt x xs = Some i" and "xs ! i = x"
proof -
  have "\<exists>i. oset_find lt x xs = Some i \<and> xs ! i = x"
    using assms by (induction xs) (auto simp: lt_irrefl)
  then show thesis using that by blast
qed

lemma insert_fresh:
  "sorted_wrt lt xs \<Longrightarrow> oset_find lt x xs = None \<Longrightarrow>
   set (snd (oset_insert lt x xs)) = insert x (set xs)"
  by (induction xs) (auto split: if_splits)

lemma insert_present:
  "sorted_wrt lt xs \<Longrightarrow> oset_find lt x xs = Some i \<Longrightarrow> oset_insert lt x xs = (i, xs)"
  by (induction xs arbitrary: i) (auto split: if_splits)

lemma insert_front_iff:
  "fst (oset_insert lt x xs) = 0 \<longleftrightarrow> (case xs of [] \<Rightarrow> True | y # _ \<Rightarrow> \<not> lt y x)"
  by (cases xs) auto

end

text \<open>A comparator that reads one key of each argument.\<close>

locale keyed_order =
  fixes key :: "'a \<Rightarrow> 'k::linorder"
begin

lemma find_key: "oset_find (\<lambda>x y. key x < key y) x xs = Some i \<Longrightarrow> key (xs ! i) = key x"
  by (induction xs arbitrary: i) (auto split: if_splits)

lemma sorted_keys:
  "sorted_wrt (\<lambda>x y. key x < key y) xs \<longleftrightarrow> sorted_wrt (<) (map key xs)"
  by (simp add: sorted_wrt_map)

lemma sorted_key_inj:
  "sorted_wrt (\<lambda>x y. key x < key y) xs \<Longrightarrow> inj_on key (set xs)"
proof (induction xs)
  case Nil
  then show ?case by simp
next
  case (Cons x xs)
  then have "key x \<notin> key ` set xs" by (force simp: less_le)
  with Cons show ?case by auto
qed

lemma find_None_key:
  "sorted_wrt (\<lambda>x y. key x < key y) xs \<Longrightarrow>
   oset_find (\<lambda>x y. key x < key y) x xs = None \<longleftrightarrow> key x \<notin> key ` set xs"
proof (induction xs)
  case Nil
  then show ?case by simp
next
  case (Cons y ys)
  then show ?case by (cases "key x" "key y" rule: linorder_cases) force+
qed

lemma set_erase_found:
  "sorted_wrt (\<lambda>x y. key x < key y) xs \<Longrightarrow> oset_find (\<lambda>x y. key x < key y) x xs = Some i \<Longrightarrow>
   set (erase_at i xs) = {y \<in> set xs. key y \<noteq> key x}"
proof (induction xs arbitrary: i)
  case Nil
  then show ?case by simp
next
  case (Cons y ys)
  then have above: "\<And>z. z \<in> set ys \<Longrightarrow> key z \<noteq> key y"
    by (auto simp: less_le)
  show ?case
  proof (cases "key x" "key y" rule: linorder_cases)
    case less
    with Cons.prems show ?thesis by (simp add: less_not_sym)
  next
    case equal
    with Cons.prems above show ?thesis by auto
  next
    case greater
    with Cons.prems obtain j where "i = Suc j"
      and "oset_find (\<lambda>x y. key x < key y) x ys = Some j" by auto
    with Cons greater show ?thesis by auto
  qed
qed

lemma set_insert_key:
  "sorted_wrt (\<lambda>x y. key x < key y) xs \<Longrightarrow>
   set (snd (oset_insert (\<lambda>x y. key x < key y) x xs)) =
     (if key x \<in> key ` set xs then set xs else insert x (set xs))"
proof (induction xs)
  case Nil
  then show ?case by simp
next
  case (Cons y ys)
  then show ?case
    by (cases "key x" "key y" rule: linorder_cases) (auto simp: less_le)
qed

end

sublocale keyed_order \<subseteq> strict_weak_order "\<lambda>x y. key x < key y"
  by unfold_locales auto

end
