(* ===== verification/Timer.thy ===== *)
theory Timer
  imports Ordered_Set
begin

text \<open>
  Model of \<open>src/timer/timer.h\<close> and \<open>src/timer/timer.cc\<close>. Timer objects live in a store (the
  manager's field \<open>heap\<close>) because the set of the manager and the caller share them through
  \<open>shared_ptr\<close>: a pointer is a \<open>nat\<close>, \<open>fresh\<close> the next one to be allocated. The field \<open>m_timers\<close> is
  the \<open>std::set\<close> ordered by \<open>Timer::Comparator\<close>, as the list of its pointers in iteration order.
  A clock reading (\<open>std::chrono::system_clock::now()\<close>) is an argument of the operation that takes
  it, in nanoseconds. Each operation that holds \<open>m_mutex\<close> throughout is one definition; the two
  halves of \<open>Timer::reset\<close>, between which the lock is free, are separate ones.
\<close>

section \<open>Data\<close>

type_synonym time = int

record timer =
  m_recurring :: bool
  m_ms :: "64 word"
  m_next :: time
  tm_cb :: "closure option"

record timer_manager =
  heap :: "nat \<Rightarrow> timer"
  fresh :: nat
  m_timers :: "nat list"
  m_tickled :: bool
  m_previouseTime :: time

text \<open>
  \<open>tp + std::chrono::milliseconds(ms)\<close>: the \<open>uint64_t\<close> becomes a signed 64-bit count of
  milliseconds, which is converted to nanoseconds and added, all in 64 bits (the overflow, undefined
  in C++, is the two's-complement wrap-around the compiled code performs).
\<close>

definition ms_to_ns :: "64 word \<Rightarrow> int" where
  "ms_to_ns ms = i64 (sint ms * 1000000)"

definition add_ms :: "time \<Rightarrow> 64 word \<Rightarrow> time" where
  "add_ms tp ms = i64 (tp + ms_to_ns ms)"

definition sub_ms :: "time \<Rightarrow> 64 word \<Rightarrow> time" where
  "sub_ms tp ms = i64 (tp - ms_to_ns ms)"

text \<open>\<open>duration_cast<milliseconds>\<close> of a difference of time points: truncation towards zero.\<close>

definition to_ms :: "int \<Rightarrow> int" where
  "to_ms d = sgn d * (\<bar>d\<bar> div 1000000)"

text \<open>\<open>Timer::Comparator\<close>: the deadlines, and nothing else, are compared.\<close>

definition timer_less :: "(nat \<Rightarrow> timer) \<Rightarrow> nat \<Rightarrow> nat \<Rightarrow> bool" where
  "timer_less h l r \<longleftrightarrow> m_next (h l) < m_next (h r)"

section \<open>Timer\<close>

text \<open>The constructor of \<open>Timer\<close>.\<close>

definition new_timer :: "time \<Rightarrow> 64 word \<Rightarrow> closure option \<Rightarrow> bool \<Rightarrow> timer" where
  "new_timer now ms cb recurring =
     \<lparr>m_recurring = recurring, m_ms = ms, m_next = add_ms now ms, tm_cb = cb\<rparr>"

definition cancel :: "nat \<Rightarrow> timer_manager \<Rightarrow> bool \<times> timer_manager" where
  "cancel t M =
     (if tm_cb (heap M t) = None then (False, M)
      else
        let M1 = M\<lparr>heap := (heap M)(t := (heap M t)\<lparr>tm_cb := None\<rparr>)\<rparr>
        in case oset_find (timer_less (heap M1)) t (m_timers M1) of
             None \<Rightarrow> (True, M1)
           | Some i \<Rightarrow> (True, M1\<lparr>m_timers := erase_at i (m_timers M1)\<rparr>))"

definition refresh :: "time \<Rightarrow> nat \<Rightarrow> timer_manager \<Rightarrow> bool \<times> timer_manager" where
  "refresh now t M =
     (if tm_cb (heap M t) = None then (False, M)
      else case oset_find (timer_less (heap M)) t (m_timers M) of
             None \<Rightarrow> (False, M)
           | Some i \<Rightarrow>
               let xs = erase_at i (m_timers M);
                   h = (heap M)(t := (heap M t)\<lparr>m_next := add_ms now (m_ms (heap M t))\<rparr>)
               in (True, M\<lparr>heap := h, m_timers := snd (oset_insert (timer_less h) t xs)\<rparr>))"

text \<open>
  The protected \<open>addTimer(shared_ptr<Timer>)\<close>: the first component is \<open>at_front\<close>, that is whether
  \<open>onTimerInsertedAtFront()\<close> is called after the lock is released.
\<close>

definition addTimer_ptr :: "nat \<Rightarrow> timer_manager \<Rightarrow> bool \<times> timer_manager" where
  "addTimer_ptr t M =
     (let (it, xs) = oset_insert (timer_less (heap M)) t (m_timers M);
          at_front = (it = 0 \<and> \<not> m_tickled M)
      in (at_front,
          M\<lparr>m_timers := xs, m_tickled := (if at_front then True else m_tickled M)\<rparr>))"

text \<open>
  \<open>Timer::reset\<close>. \<open>reset_erase\<close> is the block under the lock; \<open>reset_rearm\<close> is what follows it:
  the fields of the timer are written with no lock held, then the timer is added again.
\<close>

definition reset_erase :: "nat \<Rightarrow> timer_manager \<Rightarrow> bool \<times> timer_manager" where
  "reset_erase t M =
     (if tm_cb (heap M t) = None then (False, M)
      else case oset_find (timer_less (heap M)) t (m_timers M) of
             None \<Rightarrow> (False, M)
           | Some i \<Rightarrow> (True, M\<lparr>m_timers := erase_at i (m_timers M)\<rparr>))"

definition reset_rearm ::
  "64 word \<Rightarrow> bool \<Rightarrow> time \<Rightarrow> nat \<Rightarrow> timer_manager \<Rightarrow> bool \<times> timer_manager" where
  "reset_rearm ms from_now now t M =
     (let start = (if from_now then now else sub_ms (m_next (heap M t)) (m_ms (heap M t)));
          tm = (heap M t)\<lparr>m_ms := ms, m_next := add_ms start ms\<rparr>
      in addTimer_ptr t (M\<lparr>heap := (heap M)(t := tm)\<rparr>))"

text \<open>
  The whole call: the returned boolean, whether \<open>onTimerInsertedAtFront()\<close> was called, the state.
\<close>

definition reset_timer ::
  "64 word \<Rightarrow> bool \<Rightarrow> time \<Rightarrow> nat \<Rightarrow> timer_manager \<Rightarrow> bool \<times> bool \<times> timer_manager" where
  "reset_timer ms from_now now t M =
     (if ms = m_ms (heap M t) \<and> \<not> from_now then (True, False, M)
      else case reset_erase t M of
             (False, M1) \<Rightarrow> (False, False, M1)
           | (True, M1) \<Rightarrow> (True, reset_rearm ms from_now now t M1))"

section \<open>TimerManager\<close>

definition new_manager :: "time \<Rightarrow> timer_manager" where
  "new_manager now =
     \<lparr>heap = (\<lambda>_. \<lparr>m_recurring = False, m_ms = 0, m_next = 0, tm_cb = None\<rparr>), fresh = 0,
      m_timers = [], m_tickled = False, m_previouseTime = now\<rparr>"

text \<open>The public \<open>addTimer\<close>: allocate, insert, return the pointer.\<close>

definition addTimer ::
  "time \<Rightarrow> 64 word \<Rightarrow> closure option \<Rightarrow> bool \<Rightarrow> timer_manager \<Rightarrow> nat \<times> bool \<times> timer_manager" where
  "addTimer now ms cb recurring M =
     (let t = fresh M;
          M1 = M\<lparr>heap := (heap M)(t := new_timer now ms cb recurring), fresh := Suc t\<rparr>
      in (t, addTimer_ptr t M1))"

definition addConditionTimer ::
  "time \<Rightarrow> 64 word \<Rightarrow> closure option \<Rightarrow> nat \<Rightarrow> bool \<Rightarrow> timer_manager \<Rightarrow>
   nat \<times> bool \<times> timer_manager" where
  "addConditionTimer now ms cb weak_cond recurring M =
     addTimer now ms (Some (BoundOnTimer weak_cond cb)) recurring M"

text \<open>
  Calling a closure: \<open>OnTimer\<close> locks its weak pointer (\<open>alive\<close> tells which objects still exist) and
  calls the bound function only when that succeeds. The result is the function finally run.
\<close>

fun call_closure :: "(nat \<Rightarrow> bool) \<Rightarrow> closure option \<Rightarrow> closure option result" where
  "call_closure alive None = Inl BadFunctionCall"
| "call_closure alive (Some (BoundOnTimer w cb)) =
     (if alive w then call_closure alive cb else Inr None)"
| "call_closure alive (Some c) = Inr (Some c)"

definition getNextTimer :: "time \<Rightarrow> timer_manager \<Rightarrow> 64 word \<times> timer_manager" where
  "getNextTimer now M =
     (let M1 = M\<lparr>m_tickled := False\<rparr>
      in case m_timers M1 of
           [] \<Rightarrow> (no_timeout, M1)
         | t # _ \<Rightarrow>
             let time = m_next (heap M1 t)
             in if time \<le> now then (0, M1)
                else (word_of_int (to_ms (i64 (time - now))), M1))"

definition hasTimer :: "timer_manager \<Rightarrow> bool" where
  "hasTimer M \<longleftrightarrow> m_timers M \<noteq> []"

definition detectClockRollover :: "time \<Rightarrow> timer_manager \<Rightarrow> bool \<times> timer_manager" where
  "detectClockRollover now M =
     (now < sub_ms (m_previouseTime M) (60 * 60 * 1000), M\<lparr>m_previouseTime := now\<rparr>)"

text \<open>One iteration of the loop of \<open>listExpiredCb\<close>, on the first timer of the set.\<close>

definition expire_first ::
  "time \<Rightarrow> nat \<Rightarrow> timer_manager \<Rightarrow> closure option \<times> timer_manager" where
  "expire_first now t M =
     (let xs = tl (m_timers M); tm = heap M t
      in (tm_cb tm,
          if m_recurring tm then
            let h = (heap M)(t := tm\<lparr>m_next := add_ms now (m_ms tm)\<rparr>)
            in M\<lparr>heap := h, m_timers := snd (oset_insert (timer_less h) t xs)\<rparr>
          else M\<lparr>heap := (heap M)(t := tm\<lparr>tm_cb := None\<rparr>), m_timers := xs\<rparr>))"

text \<open>
  The loop itself. It need not end (a rollover with a recurring timer in the set, a recurring timer
  of period 0), so its result is an option: \<open>None\<close> is the loop that never returns.
\<close>

partial_function (option) expire_loop ::
  "bool \<Rightarrow> time \<Rightarrow> closure option list \<Rightarrow> timer_manager \<Rightarrow>
   (closure option list \<times> timer_manager) option" where
  "expire_loop rollover now cbs M =
     (case m_timers M of
        [] \<Rightarrow> Some (cbs, M)
      | t # _ \<Rightarrow>
          if rollover \<or> m_next (heap M t) \<le> now
          then expire_loop rollover now (cbs @ [fst (expire_first now t M)])
                 (snd (expire_first now t M))
          else Some (cbs, M))"

text \<open>
  \<open>listExpiredCb\<close>: \<open>now\<close> is its own clock reading, \<open>now2\<close> the one \<open>detectClockRollover\<close> takes.
\<close>

definition listExpiredCb ::
  "time \<Rightarrow> time \<Rightarrow> closure option list \<Rightarrow> timer_manager \<Rightarrow>
   (closure option list \<times> timer_manager) option" where
  "listExpiredCb now now2 cbs M =
     (case detectClockRollover now2 M of (rollover, M1) \<Rightarrow> expire_loop rollover now cbs M1)"

section \<open>The set as a container ordered by deadline\<close>

lemma timer_less_key: "timer_less h = (\<lambda>x y. m_next (h x) < m_next (h y))"
  by (intro ext) (simp add: timer_less_def)

interpretation timer_set: keyed_order "\<lambda>t. m_next (h t)" for h :: "nat \<Rightarrow> timer" .

interpretation timer_order: strict_weak_order "timer_less h" for h
  unfolding timer_less_key by (rule timer_set.strict_weak_order_axioms)

lemmas timer_find_key = timer_set.find_key [folded timer_less_key]
lemmas timer_sorted_keys = timer_set.sorted_keys [folded timer_less_key]
lemmas timer_sorted_key_inj = timer_set.sorted_key_inj [folded timer_less_key]
lemmas timer_find_None_key = timer_set.find_None_key [folded timer_less_key]
lemmas timer_set_erase_found = timer_set.set_erase_found [folded timer_less_key]
lemmas timer_set_insert_key = timer_set.set_insert_key [folded timer_less_key]

lemma timer_less_upd_cb [simp]:
  "timer_less (h(t := (h t)\<lparr>tm_cb := c\<rparr>)) = timer_less h"
  by (intro ext) (simp add: timer_less_def)

lemma sorted_timers_upd:
  "t \<notin> set xs \<Longrightarrow> sorted_wrt (timer_less (h(t := tm))) xs = sorted_wrt (timer_less h) xs"
  by (rule sorted_wrt_cong) (auto simp: timer_less_def)

section \<open>Well-formed managers\<close>

text \<open>
  The set is strictly ordered by deadline (so no two timers in it have the same one) and holds
  allocated timers; \<open>tm_live\<close> adds that each of them still has its callback.
\<close>

definition tm_wf :: "timer_manager \<Rightarrow> bool" where
  "tm_wf M \<longleftrightarrow> sorted_wrt (timer_less (heap M)) (m_timers M) \<and> (\<forall>t \<in> set (m_timers M). t < fresh M)"

definition tm_live :: "timer_manager \<Rightarrow> bool" where
  "tm_live M \<longleftrightarrow> (\<forall>t \<in> set (m_timers M). tm_cb (heap M t) \<noteq> None)"

lemma tm_wf_distinct: "tm_wf M \<Longrightarrow> distinct (m_timers M)"
  by (auto simp: tm_wf_def intro: timer_order.sorted_distinct)

lemma tm_wf_inj:
  "tm_wf M \<Longrightarrow> t \<in> set (m_timers M) \<Longrightarrow> u \<in> set (m_timers M) \<Longrightarrow>
   m_next (heap M t) = m_next (heap M u) \<Longrightarrow> t = u"
  using timer_sorted_key_inj [of "heap M" "m_timers M"] by (auto simp: tm_wf_def inj_on_def)

lemma tm_wf_new_manager [simp]: "tm_wf (new_manager now)"
  by (simp add: tm_wf_def new_manager_def)

text \<open>What erasing the element found for \<open>t\<close> leaves: everything with another deadline.\<close>

lemma tm_wf_erased:
  assumes "tm_wf M" and "oset_find (timer_less (heap M)) t (m_timers M) = Some i"
  shows "set (erase_at i (m_timers M)) =
           {u \<in> set (m_timers M). m_next (heap M u) \<noteq> m_next (heap M t)}"
    and "sorted_wrt (timer_less (heap M)) (erase_at i (m_timers M))"
    and "t \<notin> set (erase_at i (m_timers M))"
  using assms timer_set_erase_found [of "heap M" "m_timers M" t i]
  by (auto simp: tm_wf_def sorted_wrt_erase_at)

lemma tm_wf_not_found:
  "tm_wf M \<Longrightarrow> oset_find (timer_less (heap M)) t (m_timers M) = None \<longleftrightarrow>
   (\<forall>u \<in> set (m_timers M). m_next (heap M u) \<noteq> m_next (heap M t))"
  using timer_find_None_key [of "heap M" "m_timers M" t] unfolding tm_wf_def image_iff by metis

text \<open>Inserting a timer that is not in the set, whatever its record was set to before.\<close>

lemma tm_wf_insert:
  assumes "tm_wf M" and "t < n" and "fresh M \<le> n" and "t \<notin> set xs"
    and "sorted_wrt (timer_less (heap M)) xs" and "set xs \<subseteq> set (m_timers M)"
  shows "tm_wf (M\<lparr>heap := (heap M)(t := tm), fresh := n, m_timers :=
                  snd (oset_insert (timer_less ((heap M)(t := tm))) t xs)\<rparr>)"
  using assms set_oset_insert_subset [of "timer_less ((heap M)(t := tm))" t xs]
  by (fastforce simp: tm_wf_def sorted_timers_upd intro: timer_order.sorted_insert)

lemma tm_wf_cancel [wf_intros]: "tm_wf M \<Longrightarrow> tm_wf (snd (cancel t M))"
  using set_erase_at_subset [of _ "m_timers M"]
  by (auto simp: tm_wf_def cancel_def Let_def sorted_wrt_erase_at split: option.splits)

lemma tm_wf_refresh [wf_intros]:
  assumes "tm_wf M" and "t < fresh M"
  shows "tm_wf (snd (refresh now t M))"
proof (cases "tm_cb (heap M t) = None \<or> oset_find (timer_less (heap M)) t (m_timers M) = None")
  case True
  with assms show ?thesis by (auto simp: refresh_def)
next
  case False
  then obtain i where i: "oset_find (timer_less (heap M)) t (m_timers M) = Some i" by auto
  note e = tm_wf_erased [OF assms(1) i]
  show ?thesis
    using False i tm_wf_insert [OF assms(1,2) order.refl e(3) e(2),
        of "(heap M t)\<lparr>m_next := add_ms now (m_ms (heap M t))\<rparr>"]
      set_erase_at_subset [of i "m_timers M"]
    by (auto simp: refresh_def Let_def)
qed

lemma tm_wf_addTimer_ptr [wf_intros]:
  "tm_wf M \<Longrightarrow> t < fresh M \<Longrightarrow> tm_wf (snd (addTimer_ptr t M))"
  using set_oset_insert_subset [of "timer_less (heap M)" t "m_timers M"]
  by (fastforce simp: addTimer_ptr_def tm_wf_def Let_def split: prod.splits
      dest: timer_order.sorted_insert [of "heap M" "m_timers M" t])

lemma tm_wf_alloc:
  "tm_wf M \<Longrightarrow> tm_wf (M\<lparr>heap := (heap M)(fresh M := tm), fresh := Suc (fresh M)\<rparr>)"
  by (subgoal_tac "fresh M \<notin> set (m_timers M)") (auto simp: tm_wf_def sorted_timers_upd)

lemma tm_wf_addTimer [wf_intros]:
  "tm_wf M \<Longrightarrow> tm_wf (snd (snd (addTimer now ms cb recurring M)))"
  by (simp add: addTimer_def Let_def tm_wf_addTimer_ptr tm_wf_alloc)

lemma tm_wf_reset_erase [wf_intros]: "tm_wf M \<Longrightarrow> tm_wf (snd (reset_erase t M))"
  using set_erase_at_subset [of _ "m_timers M"]
  by (auto simp: tm_wf_def reset_erase_def sorted_wrt_erase_at split: option.splits)

lemma reset_erase_not_in:
  "tm_wf M \<Longrightarrow> reset_erase t M = (True, M') \<Longrightarrow> t \<notin> set (m_timers M') \<and> fresh M' = fresh M"
  using tm_wf_erased(3) [of M t] by (auto simp: reset_erase_def split: if_splits option.splits)

text \<open>
  The second half of \<open>reset\<close> writes the deadline of the timer: it keeps the order only when the
  timer is not in the set at that moment.
\<close>

lemma tm_wf_reset_rearm [wf_intros]:
  assumes "tm_wf M" and "t < fresh M" and "t \<notin> set (m_timers M)"
  shows "tm_wf (snd (reset_rearm ms from_now now t M))"
proof -
  have "tm_wf (M\<lparr>heap := (heap M)(t := tm)\<rparr>)" for tm
    using assms by (simp add: tm_wf_def sorted_timers_upd)
  then show ?thesis
    using assms by (simp add: reset_rearm_def Let_def tm_wf_addTimer_ptr)
qed

lemma tm_wf_reset_timer [wf_intros]:
  assumes "tm_wf M" and "t < fresh M"
  shows "tm_wf (snd (snd (reset_timer ms from_now now t M)))"
proof (cases "reset_erase t M")
  case (Pair ok M1)
  then have "tm_wf M1" using tm_wf_reset_erase [OF assms(1), of t] by simp
  with Pair assms reset_erase_not_in [OF assms(1), of t M1] show ?thesis
    by (cases ok) (auto simp: reset_timer_def intro: tm_wf_reset_rearm)
qed

lemma tm_wf_getNextTimer [wf_intros]: "tm_wf M \<Longrightarrow> tm_wf (snd (getNextTimer now M))"
  by (auto simp: getNextTimer_def tm_wf_def Let_def split: list.splits)

lemma tm_wf_detectClockRollover [wf_intros]:
  "tm_wf M \<Longrightarrow> tm_wf (snd (detectClockRollover now M))"
  by (simp add: detectClockRollover_def tm_wf_def)

lemma tm_wf_expire_first [wf_intros]:
  assumes "tm_wf M" and "m_timers M = t # ts"
  shows "tm_wf (snd (expire_first now t M))"
proof -
  have t: "t < fresh M" "t \<notin> set ts" "sorted_wrt (timer_less (heap M)) ts"
    using assms tm_wf_distinct [OF assms(1)] by (auto simp: tm_wf_def)
  show ?thesis
  proof (cases "m_recurring (heap M t)")
    case True
    then show ?thesis
      using assms(2) tm_wf_insert [OF assms(1) t(1) order.refl t(2,3),
          of "(heap M t)\<lparr>m_next := add_ms now (m_ms (heap M t))\<rparr>"]
      by (auto simp: expire_first_def Let_def)
  next
    case False
    with assms t show ?thesis by (simp add: expire_first_def Let_def tm_wf_def)
  qed
qed

end
