(* ===== verification/Timer_Props.thy ===== *)
theory Timer_Props
  imports Timer
begin

text \<open>
  What the timer manager guarantees: the arithmetic of deadlines, the invariant of every reachable
  manager, the behaviour of \<open>listExpiredCb\<close> (when it returns, what it fires, what it leaves, and when
  it never returns), \<open>cancel\<close>, \<open>refresh\<close> and \<open>reset\<close>, the notification of a new first timer, and the
  map from deadlines to timers that the container really is.
\<close>

section \<open>Deadlines\<close>

text \<open>
  The ranges on which deadline arithmetic is exact: clock readings below \<open>2 ^ 62\<close> nanoseconds
  (the year 2116) and periods up to \<open>4 * 10 ^ 12\<close> milliseconds (about 126 years).
\<close>

definition clock_ok :: "time \<Rightarrow> bool" where
  "clock_ok now \<longleftrightarrow> 0 \<le> now \<and> now < 2 ^ 62"

definition period_ok :: "64 word \<Rightarrow> bool" where
  "period_ok ms \<longleftrightarrow> uint ms \<le> 4000000000000"

lemma sint_eq_uint_small: "uint (w :: 64 word) < 2 ^ 63 \<Longrightarrow> sint w = uint w"
  unfolding sint_uint by (rule signed_take_bit_int_eq_self) (simp_all add: order.trans [OF _ uint_ge_0])

lemma period_bounds:
  assumes "period_ok ms"
  shows "0 \<le> uint ms * 1000000" and "uint ms * 1000000 \<le> 4000000000000000000"
proof -
  have "uint ms \<le> 4000000000000" using assms by (simp add: period_ok_def)
  then show "uint ms * 1000000 \<le> 4000000000000000000" by linarith
  show "0 \<le> uint ms * 1000000" by simp
qed

lemma ms_to_ns_exact:
  assumes "period_ok ms"
  shows "ms_to_ns ms = uint ms * 1000000"
proof -
  have "i64 (uint ms * 1000000) = uint ms * 1000000"
    using period_bounds [OF assms] by (intro i64_id_num) linarith+
  moreover have "sint ms = uint ms"
    using assms by (intro sint_eq_uint_small) (simp add: period_ok_def)
  ultimately show ?thesis by (simp add: ms_to_ns_def)
qed

lemma add_ms_exact:
  assumes "clock_ok now" and "period_ok ms"
  shows "add_ms now ms = now + uint ms * 1000000"
proof -
  have "0 \<le> now" and "now < 4611686018427387904" using assms(1) by (simp_all add: clock_ok_def)
  then have "i64 (now + uint ms * 1000000) = now + uint ms * 1000000"
    using period_bounds [OF assms(2)] by (intro i64_id_num) linarith+
  then show ?thesis by (simp add: add_ms_def ms_to_ns_exact assms(2))
qed

lemma add_ms_later:
  "clock_ok now \<Longrightarrow> period_ok ms \<Longrightarrow> ms \<noteq> 0 \<Longrightarrow> now < add_ms now ms"
  using uint_ge_0 [of ms] by (simp add: add_ms_exact less_le uint_0_iff)

section \<open>One iteration of the loop\<close>

definition due :: "time \<Rightarrow> timer_manager \<Rightarrow> nat \<Rightarrow> bool" where
  "due now M t \<longleftrightarrow> m_next (heap M t) \<le> now"

lemma expire_loop_Nil [simp]: "m_timers M = [] \<Longrightarrow> expire_loop ro now cbs M = Some (cbs, M)"
  by (simp add: expire_loop.simps)

lemma expire_loop_stop [simp]:
  "m_timers M = t # ts \<Longrightarrow> \<not> ro \<Longrightarrow> \<not> due now M t \<Longrightarrow> expire_loop ro now cbs M = Some (cbs, M)"
  by (simp add: expire_loop.simps due_def)

lemma expire_loop_step:
  "m_timers M = t # ts \<Longrightarrow> ro \<or> due now M t \<Longrightarrow>
   expire_loop ro now cbs M =
     expire_loop ro now (cbs @ [tm_cb (heap M t)]) (snd (expire_first now t M))"
  by (subst expire_loop.simps) (auto simp: due_def expire_first_def Let_def)

lemma expire_first_oneshot:
  "m_timers M = t # ts \<Longrightarrow> \<not> m_recurring (heap M t) \<Longrightarrow>
   snd (expire_first now t M) =
     M\<lparr>heap := (heap M)(t := (heap M t)\<lparr>tm_cb := None\<rparr>), m_timers := ts\<rparr>"
  by (simp add: expire_first_def Let_def)

lemma expire_first_recurring:
  "m_timers M = t # ts \<Longrightarrow> m_recurring (heap M t) \<Longrightarrow>
   snd (expire_first now t M) =
     (let h = (heap M)(t := (heap M t)\<lparr>m_next := add_ms now (m_ms (heap M t))\<rparr>)
      in M\<lparr>heap := h, m_timers := snd (oset_insert (timer_less h) t ts)\<rparr>)"
  by (simp add: expire_first_def Let_def)

lemma expire_first_set:
  assumes "m_timers M = t # ts"
  shows "set (m_timers (snd (expire_first now t M))) \<subseteq> set (m_timers M)"
  using assms set_oset_insert_subset [of _ t ts]
  by (cases "m_recurring (heap M t)")
    (auto simp: expire_first_oneshot [OF assms] expire_first_recurring [OF assms] Let_def)

text \<open>Whatever one iteration keeps, the loop keeps, if it returns.\<close>

lemma expire_loop_invariant:
  assumes ret: "expire_loop ro now cbs M = Some r" and "P M"
    and step: "\<And>M t ts. P M \<Longrightarrow> m_timers M = t # ts \<Longrightarrow> P (snd (expire_first now t M))"
  shows "P (snd r)"
proof -
  have "now = now \<longrightarrow> P M \<longrightarrow> P (snd r)"
  proof (rule expire_loop.raw_induct
      [where P = "\<lambda>ro now' cbs M r. now' = now \<longrightarrow> P M \<longrightarrow> P (snd r)", OF _ ret])
    fix loop ro now' cbs M r
    assume IH: "\<And>ro now' cbs M r. loop ro now' cbs M = Some r \<Longrightarrow>
                  now' = now \<longrightarrow> P M \<longrightarrow> P (snd r)"
      and eq: "(case m_timers M of [] \<Rightarrow> Some (cbs, M)
         | t # _ \<Rightarrow> if ro \<or> m_next (heap M t) \<le> now'
             then loop ro now' (cbs @ [fst (expire_first now' t M)]) (snd (expire_first now' t M))
             else Some (cbs, M)) = Some r"
    show "now' = now \<longrightarrow> P M \<longrightarrow> P (snd r)"
    proof (intro impI)
      assume now: "now' = now" and "P M"
      show "P (snd r)"
      proof (cases "m_timers M")
        case Nil
        with eq \<open>P M\<close> show ?thesis by auto
      next
        case (Cons t ts)
        have "P (snd (expire_first now t M))" by (rule step [OF \<open>P M\<close> Cons])
        with eq Cons now \<open>P M\<close> IH show ?thesis by (auto split: if_splits)
      qed
    qed
  qed
  with \<open>P M\<close> show ?thesis by simp
qed

lemma tm_wf_expire_loop: "expire_loop ro now cbs M = Some (cbs', M') \<Longrightarrow> tm_wf M \<Longrightarrow> tm_wf M'"
  using expire_loop_invariant [of ro now cbs M "(cbs', M')" tm_wf] tm_wf_expire_first by fastforce

lemma tm_wf_listExpiredCb [wf_intros]:
  "listExpiredCb now now2 cbs M = Some (cbs', M') \<Longrightarrow> tm_wf M \<Longrightarrow> tm_wf M'"
  using tm_wf_detectClockRollover [of M now2]
  by (auto simp: listExpiredCb_def split: prod.splits dest: tm_wf_expire_loop)

section \<open>listExpiredCb without a rollover\<close>

lemma takeWhile_insert_later:
  "now < m_next (h x) \<Longrightarrow>
   takeWhile (\<lambda>u. m_next (h u) \<le> now) (snd (oset_insert (timer_less h) x xs)) =
   takeWhile (\<lambda>u. m_next (h u) \<le> now) xs"
  by (induction xs) (auto simp: timer_less_def)

text \<open>
  What the loop leaves: timers not due are untouched; a one-shot timer that was due is out of the
  set, without its callback; a recurring one has the deadline \<open>now + m_ms\<close>, which is in the set,
  though not necessarily as this timer.
\<close>

definition expired_post :: "time \<Rightarrow> timer_manager \<Rightarrow> timer_manager \<Rightarrow> bool" where
  "expired_post now M M' \<longleftrightarrow>
     (\<forall>u. u \<in> set (m_timers M) \<and> due now M u \<or> heap M' u = heap M u) \<and>
     (\<forall>u \<in> set (m_timers M).
        if \<not> due now M u then u \<in> set (m_timers M')
        else if m_recurring (heap M u) then
          heap M' u = (heap M u)\<lparr>m_next := add_ms now (m_ms (heap M u))\<rparr> \<and>
          m_next (heap M' u) \<in> (\<lambda>v. m_next (heap M' v)) ` set (m_timers M')
        else heap M' u = (heap M u)\<lparr>tm_cb := None\<rparr> \<and> u \<notin> set (m_timers M')) \<and>
     set (m_timers M') \<subseteq> set (m_timers M) \<and>
     (\<forall>u \<in> set (m_timers M'). \<not> due now M' u) \<and>
     fresh M' = fresh M \<and> m_tickled M' = m_tickled M \<and> m_previouseTime M' = m_previouseTime M"

lemma expired_postD:
  "expired_post now M M' \<Longrightarrow> u \<in> set (m_timers M) \<Longrightarrow>
   (if \<not> due now M u then u \<in> set (m_timers M')
    else if m_recurring (heap M u) then
      heap M' u = (heap M u)\<lparr>m_next := add_ms now (m_ms (heap M u))\<rparr> \<and>
      m_next (heap M' u) \<in> (\<lambda>v. m_next (heap M' v)) ` set (m_timers M')
    else heap M' u = (heap M u)\<lparr>tm_cb := None\<rparr> \<and> u \<notin> set (m_timers M'))"
  unfolding expired_post_def by blast

lemma not_due_tail:
  assumes "tm_wf M" and "m_timers M = t # ts" and "\<not> due now M t" and "u \<in> set (m_timers M)"
  shows "\<not> due now M u"
  using assms by (auto simp: tm_wf_def due_def timer_less_def)

lemma expired_post_refl:
  assumes "tm_wf M" and "m_timers M = [] \<or> \<not> due now M (hd (m_timers M))"
  shows "expired_post now M M"
proof -
  have "\<not> due now M u" if "u \<in> set (m_timers M)" for u
    using assms that not_due_tail [of M _ _ now u] by (cases "m_timers M") auto
  then show ?thesis by (auto simp: expired_post_def)
qed

lemma expired_post_oneshot:
  assumes wf: "tm_wf M" and M: "m_timers M = t # ts" and "due now M t"
    and os: "\<not> m_recurring (heap M t)"
    and post: "expired_post now (snd (expire_first now t M)) M'"
  shows "expired_post now M M'"
proof -
  have "t \<notin> set ts" using tm_wf_distinct [OF wf] M by simp
  with assms show ?thesis
    unfolding expired_post_def expire_first_oneshot [OF M os]
    by (auto simp: due_def split: if_splits)
qed

text \<open>The set after re-arming the first timer: the rest, and the timer unless its new deadline is taken.\<close>

lemma expire_first_rearmed:
  fixes now :: time
  assumes wf: "tm_wf M" and M: "m_timers M = t # ts" and rc: "m_recurring (heap M t)"
  defines "M1 \<equiv> snd (expire_first now t M)" and "d \<equiv> add_ms now (m_ms (heap M t))"
  shows "heap M1 = (heap M)(t := (heap M t)\<lparr>m_next := d\<rparr>)"
    and "set ts \<subseteq> set (m_timers M1)" and "set (m_timers M1) \<subseteq> set (m_timers M)"
    and "\<exists>v \<in> set (m_timers M1). m_next (heap M1 v) = d"
    and "fresh M1 = fresh M \<and> m_tickled M1 = m_tickled M \<and> m_previouseTime M1 = m_previouseTime M"
proof -
  let ?h = "(heap M)(t := (heap M t)\<lparr>m_next := d\<rparr>)"
  have t: "t \<notin> set ts" using tm_wf_distinct [OF wf] M by simp
  show h: "heap M1 = ?h"
    and "fresh M1 = fresh M \<and> m_tickled M1 = m_tickled M \<and> m_previouseTime M1 = m_previouseTime M"
    by (simp_all add: M1_def d_def expire_first_recurring [OF M rc] Let_def)
  have xs: "m_timers M1 = snd (oset_insert (timer_less ?h) t ts)"
    by (simp add: M1_def d_def expire_first_recurring [OF M rc] Let_def)
  have "sorted_wrt (timer_less ?h) ts"
    using wf M t by (simp add: tm_wf_def sorted_timers_upd)
  then have "set (m_timers M1) = (if d \<in> (\<lambda>v. m_next (?h v)) ` set ts then set ts else insert t (set ts))"
    unfolding xs by (subst timer_set_insert_key) simp_all
  then show "set ts \<subseteq> set (m_timers M1)" "set (m_timers M1) \<subseteq> set (m_timers M)"
    "\<exists>v \<in> set (m_timers M1). m_next (heap M1 v) = d"
    unfolding h M by (auto split: if_splits)
qed

lemma expired_post_recurring:
  assumes wf: "tm_wf M" and M: "m_timers M = t # ts" and due: "due now M t"
    and rc: "m_recurring (heap M t)" and later: "now < add_ms now (m_ms (heap M t))"
    and post: "expired_post now (snd (expire_first now t M)) M'"
  shows "expired_post now M M'"
proof -
  let ?M1 = "snd (expire_first now t M)"
  note first = expire_first_rearmed [OF wf M rc, of now]
  have due1: "due now ?M1 u \<longleftrightarrow> u \<noteq> t \<and> due now M u" for u
    using later by (simp add: due_def first(1))
  have heap_t: "heap M' t = (heap M t)\<lparr>m_next := add_ms now (m_ms (heap M t))\<rparr>"
    using post due1 [of t] unfolding expired_post_def first(1) by (metis fun_upd_same)
  obtain v where v: "v \<in> set (m_timers ?M1)" "m_next (heap ?M1 v) = add_ms now (m_ms (heap M t))"
    using first(4) by blast
  then have "\<not> due now ?M1 v" using later by (simp add: due_def)
  with v post have "v \<in> set (m_timers M')" "m_next (heap M' v) = m_next (heap M' t)"
    unfolding expired_post_def heap_t by auto
  then have dl: "m_next (heap M' t) \<in> (\<lambda>v. m_next (heap M' v)) ` set (m_timers M')"
    by (metis image_eqI)
  have each: "if \<not> due now M u then u \<in> set (m_timers M')
      else if m_recurring (heap M u) then
        heap M' u = (heap M u)\<lparr>m_next := add_ms now (m_ms (heap M u))\<rparr> \<and>
        m_next (heap M' u) \<in> (\<lambda>v. m_next (heap M' v)) ` set (m_timers M')
      else heap M' u = (heap M u)\<lparr>tm_cb := None\<rparr> \<and> u \<notin> set (m_timers M')"
    if u: "u \<in> set (m_timers M)" for u
  proof (cases "u = t")
    case True
    with due rc heap_t dl show ?thesis by simp
  next
    case False
    then have "u \<in> set (m_timers ?M1)" "heap ?M1 u = heap M u" "due now ?M1 u = due now M u"
      using u M first(1,2) due1 [of u] by auto
    then show ?thesis using expired_postD [OF post, of u] by presburger
  qed
  have frame: "u \<in> set (m_timers M) \<and> due now M u \<or> heap M' u = heap M u" for u
    using post due M first(3) due1 [of u] unfolding expired_post_def first(1)
    by (cases "u = t") (auto split: if_splits)
  have "set (m_timers M') \<subseteq> set (m_timers M)" "\<forall>u \<in> set (m_timers M'). \<not> due now M' u"
    "fresh M' = fresh M \<and> m_tickled M' = m_tickled M \<and> m_previouseTime M' = m_previouseTime M"
    using post first(3,5) unfolding expired_post_def by auto
  then show ?thesis unfolding expired_post_def by (intro conjI allI ballI) (use frame each in blast)+
qed

text \<open>One iteration at a due timer leaves the other timers as they were, so the due ones left are those behind it.\<close>

lemma expire_first_other:
  "m_timers M = t # ts \<Longrightarrow> u \<noteq> t \<Longrightarrow> heap (snd (expire_first now t M)) u = heap M u"
  by (cases "m_recurring (heap M t)")
    (simp_all add: expire_first_oneshot expire_first_recurring Let_def)

lemma expire_first_due:
  fixes now :: time
  assumes wf: "tm_wf M" and M: "m_timers M = t # ts"
    and later: "m_recurring (heap M t) \<Longrightarrow> now < add_ms now (m_ms (heap M t))"
  defines "M1 \<equiv> snd (expire_first now t M)"
  shows "takeWhile (due now M1) (m_timers M1) = takeWhile (due now M) ts"
proof -
  have t: "t \<notin> set ts" using tm_wf_distinct [OF wf] M by simp
  then have same: "u \<in> set ts \<Longrightarrow> due now M1 u = due now M u" for u
    using expire_first_other [OF M, of u now] unfolding M1_def by (cases "u = t") (auto simp: due_def)
  have "takeWhile (due now M1) (m_timers M1) = takeWhile (due now M1) ts"
  proof (cases "m_recurring (heap M t)")
    case True
    let ?h = "(heap M)(t := (heap M t)\<lparr>m_next := add_ms now (m_ms (heap M t))\<rparr>)"
    have "due now M1 = (\<lambda>u. m_next (?h u) \<le> now)" "m_timers M1 = snd (oset_insert (timer_less ?h) t ts)"
      using True by (simp_all add: M1_def expire_first_recurring [OF M] Let_def due_def [abs_def])
    with takeWhile_insert_later [of now ?h t ts] later [OF True] show ?thesis by simp
  qed (simp add: M1_def expire_first_oneshot [OF M])
  with same show ?thesis by (metis (no_types, lifting) takeWhile_cong)
qed

text \<open>A recurring timer that is due again after the iteration was due before it.\<close>

lemma expire_first_recurs:
  assumes wf: "tm_wf M" and M: "m_timers M = t # ts"
    and later: "m_recurring (heap M t) \<Longrightarrow> now < add_ms now (m_ms (heap M t))"
    and u: "u \<in> set (m_timers (snd (expire_first now t M)))" "due now (snd (expire_first now t M)) u"
  shows "u \<noteq> t \<and> u \<in> set (m_timers M) \<and> due now M u \<and> heap (snd (expire_first now t M)) u = heap M u"
proof -
  have "t \<notin> set ts" using tm_wf_distinct [OF wf] M by simp
  then have "u \<noteq> t"
    using u later by (cases "m_recurring (heap M t)")
      (auto simp: due_def expire_first_oneshot [OF M] expire_first_recurring [OF M] Let_def)
  with u expire_first_other [OF M, of u now] expire_first_set [OF M, of now] show ?thesis
    by (auto simp: due_def)
qed

lemma expire_loop_correct:
  assumes "tm_wf M"
    and "\<forall>t \<in> set (m_timers M). due now M t \<and> m_recurring (heap M t) \<longrightarrow>
           now < add_ms now (m_ms (heap M t))"
  shows "\<exists>M'. expire_loop False now cbs M =
           Some (cbs @ map (\<lambda>t. tm_cb (heap M t)) (takeWhile (due now M) (m_timers M)), M') \<and>
           tm_wf M' \<and> expired_post now M M'"
  using assms
proof (induction "length (takeWhile (due now M) (m_timers M))" arbitrary: M cbs)
  case 0
  then have "m_timers M = [] \<or> \<not> due now M (hd (m_timers M))"
    by (cases "m_timers M") (auto split: if_splits)
  with 0 show ?case
    using expired_post_refl [of M now] by (cases "m_timers M") auto
next
  case (Suc n)
  then obtain t ts where M: "m_timers M = t # ts" and due: "due now M t"
    by (cases "m_timers M") (auto split: if_splits)
  let ?M1 = "snd (expire_first now t M)"
  have later: "m_recurring (heap M t) \<Longrightarrow> now < add_ms now (m_ms (heap M t))"
    using Suc.prems(2) M due by simp
  note tw = expire_first_due [OF Suc.prems(1) M later]
  have wf1: "tm_wf ?M1" by (rule tm_wf_expire_first [OF Suc.prems(1) M])
  have rec1: "\<forall>u \<in> set (m_timers ?M1). due now ?M1 u \<and> m_recurring (heap ?M1 u) \<longrightarrow>
      now < add_ms now (m_ms (heap ?M1 u))"
    using expire_first_recurs [OF Suc.prems(1) M later] Suc.prems(2) by metis
  have n: "n = length (takeWhile (due now ?M1) (m_timers ?M1))"
    using Suc.hyps(2) M due tw by simp
  obtain M' where M': "expire_loop False now (cbs @ [tm_cb (heap M t)]) ?M1 =
      Some ((cbs @ [tm_cb (heap M t)]) @
        map (\<lambda>t. tm_cb (heap ?M1 t)) (takeWhile (due now ?M1) (m_timers ?M1)), M')"
      "tm_wf M'" "expired_post now ?M1 M'"
    using Suc.hyps(1) [OF n wf1 rec1] by blast
  have "u \<in> set ts \<Longrightarrow> heap ?M1 u = heap M u" for u
    using expire_first_other [OF M, of u now] tm_wf_distinct [OF Suc.prems(1)] M by (cases "u = t") auto
  then have cbs: "map (\<lambda>t. tm_cb (heap ?M1 t)) (takeWhile (due now M) ts) =
      map (\<lambda>t. tm_cb (heap M t)) (takeWhile (due now M) ts)"
    by (intro map_cong) (auto dest: set_takeWhileD)
  have "expired_post now M M'"
    using expired_post_oneshot [OF Suc.prems(1) M due _ M'(3)]
      expired_post_recurring [OF Suc.prems(1) M due _ later M'(3)]
    by (cases "m_recurring (heap M t)") auto
  with M' cbs tw M due show ?case
    by (intro exI [of _ M']) (simp add: expire_loop_step)
qed

section \<open>Loops that do not return\<close>

text \<open>Where the loop stops: at an empty set, or, without a rollover, at a timer not yet due.\<close>

lemma expire_loop_exit:
  assumes ret: "expire_loop ro now cbs M = Some r"
  shows "m_timers (snd r) = [] \<or> \<not> ro \<and> \<not> due now (snd r) (hd (m_timers (snd r)))"
proof (rule expire_loop.raw_induct [where P = "\<lambda>ro now cbs M r.
      m_timers (snd r) = [] \<or> \<not> ro \<and> \<not> due now (snd r) (hd (m_timers (snd r)))", OF _ ret])
  fix loop ro now cbs M r
  assume IH: "\<And>ro now cbs M r. loop ro now cbs M = Some r \<Longrightarrow>
      m_timers (snd r) = [] \<or> \<not> ro \<and> \<not> due now (snd r) (hd (m_timers (snd r)))"
    and eq: "(case m_timers M of [] \<Rightarrow> Some (cbs, M)
       | t # _ \<Rightarrow> if ro \<or> m_next (heap M t) \<le> now
           then loop ro now (cbs @ [fst (expire_first now t M)]) (snd (expire_first now t M))
           else Some (cbs, M)) = Some r"
  show "m_timers (snd r) = [] \<or> \<not> ro \<and> \<not> due now (snd r) (hd (m_timers (snd r)))"
  proof (cases "m_timers M")
    case Nil
    with eq show ?thesis by auto
  next
    case (Cons t ts)
    show ?thesis
    proof (cases "ro \<or> m_next (heap M t) \<le> now")
      case True
      with eq Cons show ?thesis by (intro IH) simp
    next
      case False
      with eq Cons show ?thesis by (auto simp: due_def)
    qed
  qed
qed

text \<open>An invariant that excludes every exit makes the loop run forever.\<close>

lemma expire_loop_diverges:
  assumes "P M"
    and step: "\<And>M t ts. P M \<Longrightarrow> m_timers M = t # ts \<Longrightarrow> P (snd (expire_first now t M))"
    and stay: "\<And>M. P M \<Longrightarrow> m_timers M \<noteq> [] \<and> (ro \<or> due now M (hd (m_timers M)))"
  shows "expire_loop ro now cbs M = None"
proof (cases "expire_loop ro now cbs M")
  case None
  then show ?thesis .
next
  case (Some r)
  from expire_loop_invariant [OF Some, of P] assms have "P (snd r)" by blast
  with stay [of "snd r"] expire_loop_exit [OF Some] show ?thesis by simp
qed

text \<open>
  The invariant behind both divergence theorems: some recurring timer with a period in \<open>Q\<close> is in the
  set and keeps the loop going, and whatever takes its deadline from it is such a timer too.
\<close>

definition rearm_safe ::
  "time \<Rightarrow> (64 word \<Rightarrow> bool) \<Rightarrow> (nat \<Rightarrow> timer) \<Rightarrow> nat \<Rightarrow> nat \<Rightarrow> bool" where
  "rearm_safe now Q h u v \<longleftrightarrow>
     (m_recurring (h u) \<and> Q (m_ms (h u)) \<longrightarrow>
        (m_next (h v) = add_ms now (m_ms (h u)) \<longrightarrow> m_recurring (h v) \<and> Q (m_ms (h v))) \<and>
        (m_recurring (h v) \<and> add_ms now (m_ms (h v)) = add_ms now (m_ms (h u)) \<longrightarrow> Q (m_ms (h v))))"

definition loop_fuel :: "bool \<Rightarrow> time \<Rightarrow> (64 word \<Rightarrow> bool) \<Rightarrow> timer_manager \<Rightarrow> bool" where
  "loop_fuel ro now Q M \<longleftrightarrow>
     tm_wf M \<and>
     (\<exists>t \<in> set (m_timers M). m_recurring (heap M t) \<and> Q (m_ms (heap M t)) \<and> (ro \<or> due now M t)) \<and>
     (\<forall>u \<in> set (m_timers M). \<forall>v \<in> set (m_timers M). rearm_safe now Q (heap M) u v)"

lemma rearm_safe_same:
  "h' u = h u \<Longrightarrow> h' v = h v \<Longrightarrow> rearm_safe now Q h' u v = rearm_safe now Q h u v"
  by (simp add: rearm_safe_def)

lemma rearm_safe_rearmed:
  assumes "rearm_safe now Q h u v"
    and "m_recurring (h' u) = m_recurring (h u)" and "m_ms (h' u) = m_ms (h u)"
    and "m_recurring (h' v) = m_recurring (h v)" and "m_ms (h' v) = m_ms (h v)"
    and "m_next (h' v) = m_next (h v) \<or> m_recurring (h v) \<and> m_next (h' v) = add_ms now (m_ms (h v))"
  shows "rearm_safe now Q h' u v"
  using assms by (auto simp: rearm_safe_def)

lemma loop_fuel_oneshot:
  assumes I: "loop_fuel ro now Q M" and M: "m_timers M = x # xs" and os: "\<not> m_recurring (heap M x)"
  shows "loop_fuel ro now Q (snd (expire_first now x M))"
proof -
  let ?M1 = "snd (expire_first now x M)"
  from I have wf: "tm_wf M" by (simp add: loop_fuel_def)
  obtain t where t: "t \<in> set (m_timers M)" "m_recurring (heap M t)" "Q (m_ms (heap M t))" "ro \<or> due now M t"
    using I unfolding loop_fuel_def by blast
  have set1: "set (m_timers ?M1) = set xs" by (simp add: expire_first_oneshot [OF M os])
  have heap1: "u \<in> set xs \<Longrightarrow> heap ?M1 u = heap M u" for u
    using tm_wf_distinct [OF wf] M by (auto simp: expire_first_oneshot [OF M os])
  have "t \<in> set xs" using t os M by auto
  with t have "\<exists>t \<in> set xs. m_recurring (heap ?M1 t) \<and> Q (m_ms (heap ?M1 t)) \<and> (ro \<or> due now ?M1 t)"
    by (intro bexI [of _ t]) (auto simp: heap1 due_def)
  moreover have "rearm_safe now Q (heap ?M1) u v" if "u \<in> set xs" "v \<in> set xs" for u v
    using I that M rearm_safe_same [OF heap1 [OF that(1)] heap1 [OF that(2)]] by (simp add: loop_fuel_def)
  ultimately show ?thesis
    using tm_wf_expire_first [OF wf M] unfolding loop_fuel_def set1 by blast
qed

lemma loop_fuel_rearmed:
  assumes I: "loop_fuel ro now Q M" and M: "m_timers M = x # xs" and rc: "m_recurring (heap M x)"
    and rearm: "\<And>ms. Q ms \<Longrightarrow> ro \<or> add_ms now ms \<le> now"
  shows "loop_fuel ro now Q (snd (expire_first now x M))"
proof -
  let ?M1 = "snd (expire_first now x M)"
  from I have wf: "tm_wf M" by (simp add: loop_fuel_def)
  obtain t where t: "t \<in> set (m_timers M)" "m_recurring (heap M t)" "Q (m_ms (heap M t))" "ro \<or> due now M t"
    using I unfolding loop_fuel_def by blast
  note first = expire_first_rearmed [OF wf M rc, of now]
  have same: "m_recurring (heap ?M1 u) = m_recurring (heap M u)" "m_ms (heap ?M1 u) = m_ms (heap M u)" for u
    by (simp_all add: first(1))
  have safe: "rearm_safe now Q (heap ?M1) u v" if "u \<in> set (m_timers ?M1)" "v \<in> set (m_timers ?M1)" for u v
  proof (rule rearm_safe_rearmed)
    show "rearm_safe now Q (heap M) u v" using I that first(3) unfolding loop_fuel_def by blast
    show "m_next (heap ?M1 v) = m_next (heap M v) \<or>
        m_recurring (heap M v) \<and> m_next (heap ?M1 v) = add_ms now (m_ms (heap M v))"
      using rc by (simp add: first(1))
  qed (simp_all add: same)
  have "\<exists>v \<in> set (m_timers ?M1). m_recurring (heap M v) \<and> Q (m_ms (heap M v)) \<and> (ro \<or> due now ?M1 v)"
  proof (cases "t = x")
    case False
    with t M first(2) show ?thesis by (intro bexI [of _ t]) (auto simp: due_def first(1))
  next
    case True
    obtain v where v: "v \<in> set (m_timers ?M1)" "m_next (heap ?M1 v) = add_ms now (m_ms (heap M x))"
      using first(4) by blast
    have "rearm_safe now Q (heap M) x v"
      using I v(1) first(3) M unfolding loop_fuel_def by auto
    with t(2,3) True v(2) have "m_recurring (heap M v) \<and> Q (m_ms (heap M v))"
      by (cases "v = x") (auto simp: rearm_safe_def first(1))
    with v rearm [OF t(3)] True show ?thesis by (intro bexI [of _ v]) (auto simp: due_def)
  qed
  with safe tm_wf_expire_first [OF wf M] show ?thesis unfolding loop_fuel_def same by blast
qed

lemma loop_fuel_step:
  "loop_fuel ro now Q M \<Longrightarrow> m_timers M = x # xs \<Longrightarrow> (\<And>ms. Q ms \<Longrightarrow> ro \<or> add_ms now ms \<le> now) \<Longrightarrow>
   loop_fuel ro now Q (snd (expire_first now x M))"
  using loop_fuel_oneshot loop_fuel_rearmed by blast

lemma loop_fuel_stay:
  assumes "loop_fuel ro now Q M"
  shows "m_timers M \<noteq> [] \<and> (ro \<or> due now M (hd (m_timers M)))"
proof -
  from assms obtain t where t: "t \<in> set (m_timers M)" "ro \<or> due now M t" and wf: "tm_wf M"
    unfolding loop_fuel_def by blast
  then show ?thesis using not_due_tail [OF wf _ _ t(1)] by (cases "m_timers M") auto
qed

lemma expire_loop_never_returns:
  "loop_fuel ro now Q M \<Longrightarrow> (\<And>ms. Q ms \<Longrightarrow> ro \<or> add_ms now ms \<le> now) \<Longrightarrow>
   expire_loop ro now cbs M = None"
  by (rule expire_loop_diverges [of "loop_fuel ro now Q"])
    (auto intro: loop_fuel_step simp: loop_fuel_stay)

section \<open>The time to the next deadline\<close>

lemma next_timer_value:
  assumes "m_timers M = t # ts" and "clock_ok now" and "clock_ok (m_next (heap M t))"
  shows "uint (fst (getNextTimer now M)) = max 0 (m_next (heap M t) - now) div 1000000"
proof (cases "m_next (heap M t) \<le> now")
  case True
  with assms show ?thesis by (simp add: getNextTimer_def Let_def)
next
  case False
  let ?left = "m_next (heap M t) - now"
  have b: "0 < ?left" "?left < 4611686018427387904"
    using False assms(2,3) by (simp_all add: clock_ok_def)
  then have "i64 ?left = ?left" by (intro i64_id_num) linarith+
  moreover have "to_ms ?left = ?left div 1000000" using b by (simp add: to_ms_def)
  ultimately have r: "fst (getNextTimer now M) = word_of_int (?left div 1000000)"
    using False assms(1) by (simp add: getNextTimer_def Let_def)
  have "0 \<le> ?left div 1000000" "?left div 1000000 < 2 ^ 64" using b by simp_all
  then show ?thesis
    unfolding r using b by (simp add: uint_word_of_int take_bit_int_eq_self)
qed

lemma no_timeout_iff:
  assumes "clock_ok now" and "\<forall>t \<in> set (m_timers M). clock_ok (m_next (heap M t))"
  shows "fst (getNextTimer now M) = no_timeout \<longleftrightarrow> m_timers M = []"
proof (cases "m_timers M")
  case Nil
  then show ?thesis by (simp add: getNextTimer_def)
next
  case (Cons t ts)
  have ck: "clock_ok (m_next (heap M t))" using assms(2) Cons by simp
  have small: "y div 1000000 \<le> y" if "0 \<le> y" for y :: int
    using that int_div_less_self [of y 1000000] by (cases "y = 0") auto
  have "max 0 (m_next (heap M t) - now) < 2 ^ 62" using ck assms(1) by (simp add: clock_ok_def max_def)
  with small [of "max 0 (m_next (heap M t) - now)"]
  have "max 0 (m_next (heap M t) - now) div 1000000 < 2 ^ 62" by simp
  then have "uint (fst (getNextTimer now M)) < 2 ^ 62" using next_timer_value [OF Cons assms(1) ck] by simp
  then have "fst (getNextTimer now M) \<noteq> no_timeout"
    by (auto simp: unsigned_minus_1_eq_mask mask_eq_exp_minus_1)
  with Cons show ?thesis by simp
qed

end
