(* ===== verification/Timer_Spec.thy ===== *)
theory Timer_Spec
  imports Timer_Props
begin

text \<open>
  The contract of the timer manager: the map from deadlines to timers it implements, the managers a
  program can reach, and the properties of \<open>src/timer/timer.cc\<close> stated over them.
\<close>

section \<open>The deadline map\<close>

definition dmap :: "(nat \<Rightarrow> timer) \<Rightarrow> nat list \<Rightarrow> time \<rightharpoonup> nat" where
  "dmap h xs d = find (\<lambda>t. m_next (h t) = d) xs"

definition deadline_map :: "timer_manager \<Rightarrow> time \<rightharpoonup> nat" where
  "deadline_map M = dmap (heap M) (m_timers M)"

text \<open>The abstract operation behind every insertion: nothing is overwritten.\<close>

definition put_absent :: "(time \<rightharpoonup> nat) \<Rightarrow> time \<Rightarrow> nat \<Rightarrow> time \<rightharpoonup> nat" where
  "put_absent m d t = (if m d = None then m(d \<mapsto> t) else m)"

lemma option_map_eqI: "(\<And>d t. m d = Some t \<longleftrightarrow> m' d = Some t) \<Longrightarrow> m = m'"
  by (rule ext) (metis option.exhaust)

lemma dmap_Some_iff:
  assumes "sorted_wrt (timer_less h) xs"
  shows "dmap h xs d = Some t \<longleftrightarrow> t \<in> set xs \<and> m_next (h t) = d"
  using assms by (induction xs) (auto simp: dmap_def timer_less_def)

lemma dmap_None_iff: "dmap h xs d = None \<longleftrightarrow> d \<notin> (\<lambda>t. m_next (h t)) ` set xs"
  by (auto simp: dmap_def find_None_iff)

lemma dmap_upd [simp]: "t \<notin> set xs \<Longrightarrow> dmap (h(t := tm)) xs = dmap h xs"
  by (induction xs) (auto simp: dmap_def fun_eq_iff)

lemma dmap_upd_cb [simp]: "dmap (h(t := (h t)\<lparr>tm_cb := c\<rparr>)) xs = dmap h xs"
  by (induction xs) (auto simp: dmap_def fun_eq_iff)

lemma dmap_erase:
  assumes "sorted_wrt (timer_less h) xs" and "oset_find (timer_less h) t xs = Some i"
  shows "dmap h (erase_at i xs) = (dmap h xs)(m_next (h t) := None)"
proof (rule option_map_eqI)
  fix d u
  show "dmap h (erase_at i xs) d = Some u \<longleftrightarrow> ((dmap h xs)(m_next (h t) := None)) d = Some u"
    using assms timer_set_erase_found [OF assms]
    by (auto simp: dmap_Some_iff sorted_wrt_erase_at)
qed

lemma dmap_not_found:
  assumes "sorted_wrt (timer_less h) xs" and "oset_find (timer_less h) t xs = None"
  shows "dmap h xs (m_next (h t)) = None"
  using assms timer_find_None_key [of h xs t] by (simp add: dmap_None_iff)

lemma dmap_insert:
  assumes "sorted_wrt (timer_less h) xs"
  shows "dmap h (snd (oset_insert (timer_less h) t xs)) = put_absent (dmap h xs) (m_next (h t)) t"
proof (rule option_map_eqI)
  fix d u
  show "dmap h (snd (oset_insert (timer_less h) t xs)) d = Some u \<longleftrightarrow>
      put_absent (dmap h xs) (m_next (h t)) t d = Some u"
    using assms timer_order.sorted_insert [OF assms, of t] timer_set_insert_key [OF assms, of t]
    by (auto simp: dmap_Some_iff put_absent_def dmap_None_iff) (metis image_eqI)
qed

lemma deadline_map_Some_iff:
  "tm_wf M \<Longrightarrow> deadline_map M d = Some t \<longleftrightarrow> t \<in> set (m_timers M) \<and> m_next (heap M t) = d"
  by (simp add: deadline_map_def tm_wf_def dmap_Some_iff)

lemma deadline_map_addTimer_ptr:
  "tm_wf M \<Longrightarrow> deadline_map (snd (addTimer_ptr t M)) =
     put_absent (deadline_map M) (m_next (heap M t)) t"
  by (simp add: addTimer_ptr_def deadline_map_def Let_def tm_wf_def dmap_insert split: prod.split)
    (metis dmap_insert snd_conv)

text \<open>Inserting under a deadline the set holds already, and what cancelling a timer removes.\<close>

lemma addTimer_ptr_present:
  assumes "tm_wf M" and "u \<in> set (m_timers M)" and "m_next (heap M u) = m_next (heap M t)"
  shows "m_timers (snd (addTimer_ptr t M)) = m_timers M"
proof -
  have "oset_find (timer_less (heap M)) t (m_timers M) \<noteq> None"
    using tm_wf_not_found [OF assms(1)] assms(2,3) by blast
  then obtain i where "oset_find (timer_less (heap M)) t (m_timers M) = Some i" by auto
  with assms(1) have "oset_insert (timer_less (heap M)) t (m_timers M) = (i, m_timers M)"
    by (intro timer_order.insert_present) (simp_all add: tm_wf_def)
  then show ?thesis by (simp add: addTimer_ptr_def Let_def)
qed

lemma heap_addTimer_ptr [simp]: "heap (snd (addTimer_ptr t M)) = heap M"
  by (simp add: addTimer_ptr_def Let_def split: prod.split)

lemma heap_cancel:
  "heap (snd (cancel t M)) = (heap M)(t := (heap M t)\<lparr>tm_cb := None\<rparr>)"
  by (auto simp: cancel_def Let_def fun_eq_iff split: option.splits)

lemma cancel_deadline:
  assumes "tm_wf M" and "tm_cb (heap M t) \<noteq> None"
    and "m_next (heap M u) = m_next (heap M t)"
  shows "u \<notin> set (m_timers (snd (cancel t M)))"
  using assms tm_wf_erased(1) [OF assms(1)] tm_wf_not_found [OF assms(1)]
  by (auto simp: cancel_def Let_def split: option.splits)

section \<open>Reachable managers\<close>




lemma listExpiredCb_correct_aux:
  assumes "tm_wf M" and "clock_ok now"
    and "\<not> fst (detectClockRollover now2 M)"
    and "\<forall>t \<in> set (m_timers M). m_recurring (heap M t) \<longrightarrow>
           m_ms (heap M t) \<noteq> 0 \<and> period_ok (m_ms (heap M t))"
  shows "\<exists>M'. listExpiredCb now now2 cbs M =
           Some (cbs @ map (\<lambda>t. tm_cb (heap M t)) (takeWhile (due now M) (m_timers M)), M') \<and>
           tm_wf M' \<and> expired_post now (M\<lparr>m_previouseTime := now2\<rparr>) M'"
proof -
  let ?M1 = "M\<lparr>m_previouseTime := now2\<rparr>"
  have "tm_wf ?M1" using assms(1) by (simp add: tm_wf_def)
  moreover have "\<forall>t \<in> set (m_timers ?M1). due now ?M1 t \<and> m_recurring (heap ?M1 t) \<longrightarrow>
      now < add_ms now (m_ms (heap ?M1 t))"
    using assms(2,4) by (simp add: add_ms_later)
  moreover have "due now ?M1 = due now M" by (simp add: due_def fun_eq_iff)
  ultimately show ?thesis
    using expire_loop_correct [of ?M1 now cbs] assms(3)
    by (simp add: listExpiredCb_def detectClockRollover_def)
qed

text \<open>
  C16. \<open>listExpiredCb\<close> without a clock rollover: when every recurring timer of the set has a non-zero
  period of sane length, the call returns; it appends exactly the callbacks of the timers that were
  due, in order of deadline, and leaves the set as \<open>expired_post\<close> says (no due timer remains, timers
  not due are untouched, one-shot timers are disarmed, recurring ones have the deadline \<open>now + m_ms\<close>).
\<close>

theorem listExpiredCb_correct:
  assumes "tm_wf M" and "clock_ok now"
    and "\<not> fst (detectClockRollover now2 M)"
    and "\<forall>t \<in> set (m_timers M). m_recurring (heap M t) \<longrightarrow>
           m_ms (heap M t) \<noteq> 0 \<and> period_ok (m_ms (heap M t))"
  shows "\<exists>M'. listExpiredCb now now2 cbs M =
           Some (cbs @ map (\<lambda>t. tm_cb (heap M t)) (takeWhile (due now M) (m_timers M)), M') \<and>
           tm_wf M' \<and> expired_post now (M\<lparr>m_previouseTime := now2\<rparr>) M'"
  using assms by (rule listExpiredCb_correct_aux)

definition M_demo :: timer_manager where
  "M_demo = snd (snd (addTimer 0 7 (Some (UserFn 2)) False
              (snd (snd (addTimer 0 5 (Some (UserFn 1)) True (new_manager 0))))))"

lemma M_demo_wf: "tm_wf M_demo"
  by (simp add: M_demo_def tm_wf_addTimer)

lemma M_demo_fields:
  "m_timers M_demo = [0, 1]" "m_ms (heap M_demo 0) = 5" "m_recurring (heap M_demo 0)"
  "\<not> m_recurring (heap M_demo 1)" "m_next (heap M_demo 0) = 5000000"
  "m_next (heap M_demo 1) = 7000000" "m_previouseTime M_demo = 0"
  "tm_cb (heap M_demo 0) = Some (UserFn 1)" "tm_cb (heap M_demo 1) = Some (UserFn 2)"
  "fresh M_demo = 2"
  by code_simp+

lemma listExpiredCb_correct_witness:
  "\<exists>M'. listExpiredCb 6000000 6000000 [] M_demo = Some ([Some (UserFn 1)], M') \<and>
     tm_wf M' \<and> expired_post 6000000 (M_demo\<lparr>m_previouseTime := 6000000\<rparr>) M'"
proof -
  have "takeWhile (due 6000000 M_demo) (m_timers M_demo) = [0]"
    by (simp add: M_demo_fields due_def del: One_nat_def)
  moreover have "\<not> fst (detectClockRollover 6000000 M_demo)"
    by code_simp
  ultimately show ?thesis
    using listExpiredCb_correct [OF M_demo_wf, of 6000000 6000000 "[]"]
    by (simp add: M_demo_fields clock_ok_def period_ok_def del: One_nat_def)
qed

section \<open>When listExpiredCb does not behave so\<close>

text \<open>
  A clock rollover with one-shot timers only: every timer of the set fires, in order of deadline,
  due or not, and the set is empty afterwards.
\<close>

lemma rollover_fires_all:
  assumes "tm_wf M" and "fst (detectClockRollover now2 M)"
    and "\<forall>t \<in> set (m_timers M). \<not> m_recurring (heap M t)"
  shows "\<exists>M'. listExpiredCb now now2 cbs M =
           Some (cbs @ map (\<lambda>t. tm_cb (heap M t)) (m_timers M), M') \<and> m_timers M' = []"
proof -
  have loop: "\<exists>M'. expire_loop True now cbs M =
      Some (cbs @ map (\<lambda>t. tm_cb (heap M t)) (m_timers M), M') \<and> m_timers M' = []"
    if "distinct (m_timers M)" "\<forall>t \<in> set (m_timers M). \<not> m_recurring (heap M t)" for M cbs
    using that
  proof (induction "m_timers M" arbitrary: M cbs)
    case Nil
    then show ?case by simp
  next
    case (Cons t ts)
    let ?M1 = "M\<lparr>heap := (heap M)(t := (heap M t)\<lparr>tm_cb := None\<rparr>), m_timers := ts\<rparr>"
    have M: "m_timers M = t # ts" using Cons.hyps(2) by simp
    have cbs: "map (\<lambda>u. tm_cb (heap ?M1 u)) ts = map (\<lambda>u. tm_cb (heap M u)) ts"
      using Cons.prems(1) M by auto
    have "ts = m_timers ?M1" "distinct (m_timers ?M1)"
      "\<forall>u \<in> set (m_timers ?M1). \<not> m_recurring (heap ?M1 u)"
      using Cons.prems M by auto
    from Cons.hyps(1) [OF this, of "cbs @ [tm_cb (heap M t)]"] obtain M'
      where M': "expire_loop True now (cbs @ [tm_cb (heap M t)]) ?M1 =
        Some ((cbs @ [tm_cb (heap M t)]) @ map (\<lambda>u. tm_cb (heap ?M1 u)) ts, M')" "m_timers M' = []"
      by (auto simp del: fun_upd_apply)
    have "expire_loop True now cbs M = expire_loop True now (cbs @ [tm_cb (heap M t)]) ?M1"
      using Cons.prems(2) M by (simp add: expire_loop_step expire_first_oneshot)
    with M' M show ?case unfolding cbs by (simp del: fun_upd_apply)
  qed
  show ?thesis
    using loop [of "M\<lparr>m_previouseTime := now2\<rparr>" cbs] assms tm_wf_distinct [OF assms(1)]
    by (simp add: listExpiredCb_def detectClockRollover_def)
qed

definition M_once :: timer_manager where
  "M_once = snd (snd (addTimer 5000000000000 7 (Some (UserFn 2)) False
              (snd (snd (addTimer 5000000000000 5 (Some (UserFn 1)) False
                 (new_manager 5000000000000))))))"

lemma rollover_fires_all_witness:
  "\<exists>M'. listExpiredCb 0 0 [] M_once = Some ([Some (UserFn 1), Some (UserFn 2)], M') \<and>
     m_timers M' = []"
proof -
  have "tm_wf M_once" by (simp add: M_once_def tm_wf_addTimer)
  moreover have "fst (detectClockRollover 0 M_once)" by code_simp
  moreover have ts: "m_timers M_once = [0, 1]" by code_simp
  moreover have "\<not> m_recurring (heap M_once 0)" "\<not> m_recurring (heap M_once 1)"
    "tm_cb (heap M_once 0) = Some (UserFn 1)" "tm_cb (heap M_once 1) = Some (UserFn 2)"
    by code_simp+
  ultimately show ?thesis
    using rollover_fires_all [of M_once 0 0 "[]"] by (simp del: One_nat_def)
qed

text \<open>
  A clock rollover with a recurring timer in the set: \<open>listExpiredCb\<close> never returns (it holds
  \<open>m_mutex\<close> for writing all the while). The only escape is a one-shot timer whose deadline equals
  the new deadline of a recurring one, which the container then merges; the hypothesis excludes it.
\<close>

lemma rollover_recurring_diverges:
  assumes "tm_wf M" and "fst (detectClockRollover now2 M)"
    and "t \<in> set (m_timers M)" and "m_recurring (heap M t)"
    and "\<forall>u \<in> set (m_timers M). \<forall>v \<in> set (m_timers M).
           m_recurring (heap M u) \<and> \<not> m_recurring (heap M v) \<longrightarrow>
           m_next (heap M v) \<noteq> add_ms now (m_ms (heap M u))"
  shows "listExpiredCb now now2 cbs M = None"
proof -
  let ?M1 = "M\<lparr>m_previouseTime := now2\<rparr>"
  have "tm_wf ?M1" using assms(1) by (simp add: tm_wf_def)
  then have "loop_fuel True now (\<lambda>_. True) ?M1"
    using assms(3-5) unfolding loop_fuel_def rearm_safe_def by auto
  then have "expire_loop True now cbs ?M1 = None" by (rule expire_loop_never_returns) simp
  then show ?thesis using assms(2) by (simp add: listExpiredCb_def detectClockRollover_def)
qed

definition M_daily :: timer_manager where
  "M_daily = snd (snd (addTimer 5000000000000 5 (Some (UserFn 1)) True
                (new_manager 5000000000000)))"

lemma rollover_recurring_diverges_witness: "listExpiredCb 0 0 [] M_daily = None"
proof -
  have "tm_wf M_daily" by (simp add: M_daily_def tm_wf_addTimer)
  moreover have "fst (detectClockRollover 0 M_daily)" by code_simp
  moreover have "m_timers M_daily = [0]" "m_recurring (heap M_daily 0)" by code_simp+
  ultimately show ?thesis using rollover_recurring_diverges [of M_daily 0 0 0 "[]"] by simp
qed

text \<open>
  A due recurring timer of period 0 makes \<open>listExpiredCb\<close> loop forever as well, without any
  rollover: it is re-armed at \<open>now\<close>, which is due. (No other timer of the set may expire at \<open>now\<close>
  itself, and the other recurring periods are sane.)
\<close>

lemma zero_period_diverges:
  assumes "tm_wf M" and "clock_ok now" and "\<not> fst (detectClockRollover now2 M)"
    and "t \<in> set (m_timers M)" and "m_recurring (heap M t)" and "m_ms (heap M t) = 0"
    and "due now M t"
    and "\<forall>u \<in> set (m_timers M). u \<noteq> t \<longrightarrow> m_next (heap M u) \<noteq> now \<and>
           (m_recurring (heap M u) \<longrightarrow> period_ok (m_ms (heap M u)))"
  shows "listExpiredCb now now2 cbs M = None"
proof -
  let ?M1 = "M\<lparr>m_previouseTime := now2\<rparr>"
  have zero: "add_ms now 0 = now" using assms(2) by (simp add: add_ms_exact period_ok_def)
  have nz: "add_ms now ms = now \<longleftrightarrow> ms = 0" if "period_ok ms" for ms
    using add_ms_later [OF assms(2) that] zero by (metis less_irrefl)
  have safe: "rearm_safe now (\<lambda>ms. ms = 0) (heap M) u v"
    if "u \<in> set (m_timers M)" "v \<in> set (m_timers M)" for u v
    using that assms(5,6,8) zero nz by (cases "v = t") (auto simp: rearm_safe_def)
  have "tm_wf ?M1" using assms(1) by (simp add: tm_wf_def)
  with safe have "loop_fuel False now (\<lambda>ms. ms = 0) ?M1"
    using assms(4-7) unfolding loop_fuel_def by (auto simp: due_def)
  then have "expire_loop False now cbs ?M1 = None"
    by (rule expire_loop_never_returns) (simp add: zero)
  then show ?thesis using assms(3) by (simp add: listExpiredCb_def detectClockRollover_def)
qed

definition M_zero :: timer_manager where
  "M_zero = snd (snd (addTimer 5 0 (Some (UserFn 1)) True (new_manager 5)))"

lemma zero_period_diverges_witness: "listExpiredCb 6 6 [] M_zero = None"
proof -
  have "tm_wf M_zero" by (simp add: M_zero_def tm_wf_addTimer)
  moreover have "\<not> fst (detectClockRollover 6 M_zero)" by code_simp
  moreover have "m_timers M_zero = [0]" "m_recurring (heap M_zero 0)" "m_ms (heap M_zero 0) = 0"
    "m_next (heap M_zero 0) = 5"
    by code_simp+
  ultimately show ?thesis
    using zero_period_diverges [of M_zero 6 6 0 "[]"] by (simp add: clock_ok_def due_def)
qed

section \<open>The operations against the deadline map\<close>

text \<open>
  C18. \<open>addTimer\<close> refines put-if-absent on the deadline map: the new timer becomes the one for its
  deadline only when no timer of the set has that deadline; timers allocated before are untouched,
  and \<open>onTimerInsertedAtFront\<close> is called exactly when no call is outstanding since the last
  \<open>getNextTimer\<close> and no timer expires earlier.
\<close>

theorem addTimer_refines:
  assumes "tm_wf M" and "addTimer now ms cb recurring M = (t, fired, M')"
  shows "t = fresh M \<and> heap M' t = new_timer now ms cb recurring \<and>
         (\<forall>u < fresh M. heap M' u = heap M u) \<and>
         deadline_map M' = put_absent (deadline_map M) (add_ms now ms) t \<and>
         (fired \<longleftrightarrow> \<not> m_tickled M \<and> (\<forall>u \<in> set (m_timers M). add_ms now ms \<le> m_next (heap M u))) \<and>
         m_tickled M' = (m_tickled M \<or> fired)"
proof -
  let ?M1 = "M\<lparr>heap := (heap M)(fresh M := new_timer now ms cb recurring), fresh := Suc (fresh M)\<rparr>"
  have wf1: "tm_wf ?M1" by (rule tm_wf_alloc [OF assms(1)])
  have fr: "fresh M \<notin> set (m_timers M)" using assms(1) by (auto simp: tm_wf_def)
  have r: "t = fresh M" "addTimer_ptr (fresh M) ?M1 = (fired, M')"
    using assms(2) by (auto simp: addTimer_def Let_def)
  have "deadline_map ?M1 = deadline_map M"
    using fr by (simp add: deadline_map_def)
  then have dm: "deadline_map M' = put_absent (deadline_map M) (add_ms now ms) (fresh M)"
    using deadline_map_addTimer_ptr [OF wf1, of "fresh M"] r(2) by (simp add: new_timer_def)
  have front: "fst (oset_insert (timer_less (heap ?M1)) (fresh M) (m_timers M)) = 0 \<longleftrightarrow>
      (\<forall>u \<in> set (m_timers M). add_ms now ms \<le> m_next (heap M u))"
  proof (cases "m_timers M")
    case (Cons x xs)
    then have x: "x \<noteq> fresh M" and le: "u \<in> set xs \<Longrightarrow> m_next (heap M x) < m_next (heap M u)" for u
      using fr assms(1) by (auto simp: tm_wf_def timer_less_def)
    have "fst (oset_insert (timer_less (heap ?M1)) (fresh M) (m_timers M)) = 0 \<longleftrightarrow>
        add_ms now ms \<le> m_next (heap M x)"
      using x Cons by (simp add: timer_less_def new_timer_def not_less)
    with Cons le show ?thesis by (force simp: less_imp_le)
  qed simp
  have "heap M' = heap ?M1" and "fired \<longleftrightarrow> fst (oset_insert (timer_less (heap ?M1)) (fresh M)
      (m_timers M)) = 0 \<and> \<not> m_tickled M" and "m_tickled M' = (m_tickled M \<or> fired)"
    using r(2) by (auto simp: addTimer_ptr_def Let_def split: prod.splits)
  with r(1) dm front show ?thesis by auto
qed

lemma addTimer_refines_witness:
  "\<exists>M'. addTimer 1 4 (Some (UserFn 3)) False M_demo = (2, False, M') \<and>
     deadline_map M' = put_absent (deadline_map M_demo) 4000001 2"
proof -
  obtain t fired M' where r: "addTimer 1 4 (Some (UserFn 3)) False M_demo = (t, fired, M')"
    using prod_cases3 by blast
  have "add_ms 1 4 = 4000001" by code_simp
  moreover have "m_tickled M_demo" by code_simp
  ultimately show ?thesis
    using addTimer_refines [OF M_demo_wf r] r M_demo_fields(10) by simp
qed

text \<open>
  Two timers with one deadline: the second one returned by \<open>addTimer\<close> is never in the set, so it
  never fires; and cancelling it takes the first one out of the set, whose callback stays armed but
  is never run either.
\<close>

lemma same_deadline_timers:
  assumes "tm_wf M" and "u \<in> set (m_timers M)" and "m_next (heap M u) = add_ms now ms"
    and "cb \<noteq> None" and "addTimer now ms cb recurring M = (t, fired, M')"
  shows "m_timers M' = m_timers M \<and> t \<notin> set (m_timers M') \<and>
         fst (cancel t M') \<and> u \<notin> set (m_timers (snd (cancel t M'))) \<and>
         tm_cb (heap (snd (cancel t M')) u) = tm_cb (heap M u)"
proof -
  let ?M1 = "M\<lparr>heap := (heap M)(fresh M := new_timer now ms cb recurring), fresh := Suc (fresh M)\<rparr>"
  have wf1: "tm_wf ?M1" by (rule tm_wf_alloc [OF assms(1)])
  have fr: "fresh M \<notin> set (m_timers M)" using assms(1) by (auto simp: tm_wf_def)
  with assms(2) have ut: "u \<noteq> fresh M" by auto
  have r: "t = fresh M" "M' = snd (addTimer_ptr (fresh M) ?M1)"
    using assms(5) by (auto simp: addTimer_def Let_def)
  have ts: "m_timers M' = m_timers M"
    using addTimer_ptr_present [OF wf1, of u "fresh M"] assms(2,3) ut r(2) by (simp add: new_timer_def)
  have h: "heap M' = heap ?M1" by (simp add: r(2))
  have wf': "tm_wf M'" using tm_wf_addTimer_ptr [OF wf1, of "fresh M"] r(2) by simp
  have "u \<notin> set (m_timers (snd (cancel t M')))"
    using cancel_deadline [OF wf', of t u] assms(3,4) r(1) h ut by (simp add: new_timer_def)
  moreover have "fst (cancel t M')"
    using assms(4) r(1) h by (auto simp: cancel_def Let_def new_timer_def split: option.splits)
  moreover have "tm_cb (heap (snd (cancel t M')) u) = tm_cb (heap M u)"
    using ut r(1) h by (simp add: heap_cancel)
  ultimately show ?thesis using ts r(1) fr by simp
qed

lemma same_deadline_timers_witness:
  "\<exists>M'. addTimer 0 7 (Some (UserFn 9)) False M_demo = (2, False, M') \<and>
     m_timers M' = [0, 1] \<and> 1 \<notin> set (m_timers (snd (cancel 2 M')))"
proof -
  obtain t fired M' where r: "addTimer 0 7 (Some (UserFn 9)) False M_demo = (t, fired, M')"
    using prod_cases3 by blast
  have "add_ms 0 7 = 7000000" by code_simp
  then have "m_timers M' = [0, 1] \<and> 1 \<notin> set (m_timers (snd (cancel t M')))"
    using same_deadline_timers [OF M_demo_wf _ _ _ r, of 1] M_demo_fields
    by (simp del: One_nat_def)
  moreover have "fst (addTimer 0 7 (Some (UserFn 9)) False M_demo) = 2 \<and>
      \<not> fst (snd (addTimer 0 7 (Some (UserFn 9)) False M_demo))" by code_simp
  ultimately show ?thesis using r by simp
qed

text \<open>
  C19. \<open>Timer::cancel\<close>: on a timer without callback it returns false and changes nothing; otherwise it
  returns true, disarms the timer (so a second call returns false), and removes the timer's deadline
  from the map, whichever timer holds it. No other timer object is touched.
\<close>

theorem cancel_refines:
  assumes "tm_wf M"
  shows "if tm_cb (heap M t) = None then cancel t M = (False, M)
         else fst (cancel t M) \<and>
              deadline_map (snd (cancel t M)) = (deadline_map M)(m_next (heap M t) := None) \<and>
              heap (snd (cancel t M)) = (heap M)(t := (heap M t)\<lparr>tm_cb := None\<rparr>) \<and>
              t \<notin> set (m_timers (snd (cancel t M))) \<and>
              cancel t (snd (cancel t M)) = (False, snd (cancel t M))"
proof (cases "tm_cb (heap M t) = None")
  case True
  then show ?thesis by (simp add: cancel_def)
next
  case False
  have "deadline_map (snd (cancel t M)) = (deadline_map M)(m_next (heap M t) := None)"
  proof (cases "oset_find (timer_less (heap M)) t (m_timers M)")
    case None
    with False assms show ?thesis
      using dmap_not_found [of "heap M" "m_timers M" t]
      by (simp add: cancel_def Let_def deadline_map_def tm_wf_def fun_upd_idem)
  next
    case (Some i)
    with False assms show ?thesis
      by (auto simp: cancel_def Let_def deadline_map_def tm_wf_def dmap_erase)
  qed
  moreover have "fst (cancel t M)"
    using False by (auto simp: cancel_def Let_def split: option.splits)
  moreover have "cancel t (snd (cancel t M)) = (False, snd (cancel t M))"
    by (subst (1) cancel_def) (simp add: heap_cancel)
  ultimately show ?thesis
    using False cancel_deadline [OF assms False, of t] by (auto simp: heap_cancel)
qed

lemma cancel_refines_witness:
  "fst (cancel 0 M_demo) \<and> deadline_map (snd (cancel 0 M_demo)) =
     (deadline_map M_demo)(5000000 := None)"
  using cancel_refines [OF M_demo_wf, of 0] by (simp add: M_demo_fields)

text \<open>
  C20. \<open>Timer::refresh\<close> on a timer of the set moves it to the deadline \<open>now + m_ms\<close>, unless another
  timer has that deadline already; when the clock has not gone back since the timer was armed at
  \<open>t0\<close>, that deadline is no earlier than the old one. On a timer that is disarmed, or whose deadline
  is not in the set, it returns false and changes nothing.
\<close>

theorem refresh_refines:
  assumes "tm_wf M" and "clock_ok t0" and "clock_ok now" and "t0 \<le> now"
    and "period_ok (m_ms (heap M t))" and "m_next (heap M t) = add_ms t0 (m_ms (heap M t))"
  shows "if tm_cb (heap M t) = None \<or> deadline_map M (m_next (heap M t)) = None
         then refresh now t M = (False, M)
         else let d = add_ms now (m_ms (heap M t)) in
              fst (refresh now t M) \<and> m_next (heap M t) \<le> d \<and>
              deadline_map (snd (refresh now t M)) =
                put_absent ((deadline_map M)(m_next (heap M t) := None)) d t \<and>
              heap (snd (refresh now t M)) = (heap M)(t := (heap M t)\<lparr>m_next := d\<rparr>)"
proof (cases "tm_cb (heap M t) = None")
  case True
  then show ?thesis by (simp add: refresh_def)
next
  case False
  have srt: "sorted_wrt (timer_less (heap M)) (m_timers M)" using assms(1) by (simp add: tm_wf_def)
  show ?thesis
  proof (cases "oset_find (timer_less (heap M)) t (m_timers M)")
    case None
    with False show ?thesis
      using dmap_not_found [OF srt None] by (simp add: refresh_def deadline_map_def)
  next
    case (Some i)
    let ?d = "add_ms now (m_ms (heap M t))"
    let ?h = "(heap M)(t := (heap M t)\<lparr>m_next := ?d\<rparr>)"
    let ?xs = "erase_at i (m_timers M)"
    have found: "deadline_map M (m_next (heap M t)) \<noteq> None"
      using timer_find_None_key [OF srt, of t] Some by (simp add: deadline_map_def dmap_None_iff)
    have later: "m_next (heap M t) \<le> ?d" using assms(2-6) by (simp add: add_ms_exact)
    note e = tm_wf_erased [OF assms(1) Some]
    have "dmap ?h (snd (oset_insert (timer_less ?h) t ?xs)) =
        put_absent (dmap ?h ?xs) (m_next (?h t)) t"
      by (rule dmap_insert) (simp add: sorted_timers_upd e)
    then have "deadline_map (snd (refresh now t M)) =
        put_absent ((deadline_map M)(m_next (heap M t) := None)) ?d t"
      using False Some e(3) dmap_erase [OF srt Some] by (auto simp: refresh_def Let_def deadline_map_def)
    with False Some found later show ?thesis by (auto simp: refresh_def Let_def)
  qed
qed

lemma refresh_refines_witness:
  "fst (refresh 4000000 0 M_demo) \<and>
   deadline_map (snd (refresh 4000000 0 M_demo)) =
     put_absent ((deadline_map M_demo)(5000000 := None)) 9000000 0"
proof -
  have "deadline_map M_demo 5000000 = Some 0"
    using deadline_map_Some_iff [OF M_demo_wf] by (simp add: M_demo_fields)
  moreover have "add_ms 0 5 = 5000000" "add_ms 4000000 5 = 9000000" by code_simp+
  ultimately show ?thesis
    using refresh_refines [OF M_demo_wf, of 0 4000000 0]
    by (simp add: M_demo_fields clock_ok_def period_ok_def Let_def)
qed

section \<open>Timeouts and notifications\<close>

text \<open>
  \<open>getNextTimer\<close>: \<open>~0ull\<close> for an empty set, 0 when the earliest deadline has passed, otherwise
  the time left until it, in milliseconds rounded down (so up to a millisecond early, never late).
  In every case the notification flag is cleared and nothing else changes.
\<close>

lemma getNextTimer_exact:
  assumes "tm_wf M" and "clock_ok now" and "\<forall>t \<in> set (m_timers M). clock_ok (m_next (heap M t))"
  shows "snd (getNextTimer now M) = M\<lparr>m_tickled := False\<rparr> \<and>
         (if m_timers M = [] then fst (getNextTimer now M) = no_timeout
          else let left = Min ((\<lambda>t. m_next (heap M t)) ` set (m_timers M)) - now in
               if left \<le> 0 then fst (getNextTimer now M) = 0
               else uint (fst (getNextTimer now M)) * 1000000 \<le> left \<and>
                    left < (uint (fst (getNextTimer now M)) + 1) * 1000000)"
proof (cases "m_timers M")
  case Nil
  then show ?thesis by (simp add: getNextTimer_def)
next
  case (Cons t ts)
  let ?next = "m_next (heap M t)"
  have min: "Min ((\<lambda>t. m_next (heap M t)) ` set (m_timers M)) = ?next"
    using assms(1) Cons by (intro Min_eqI) (auto simp: tm_wf_def timer_less_def less_imp_le)
  have ck: "clock_ok ?next" using assms(3) Cons by simp
  have val: "uint (fst (getNextTimer now M)) = max 0 (?next - now) div 1000000"
    by (rule next_timer_value [OF Cons assms(2) ck])
  have "snd (getNextTimer now M) = M\<lparr>m_tickled := False\<rparr>"
    using Cons by (simp add: getNextTimer_def Let_def)
  moreover have "?next \<le> now \<Longrightarrow> fst (getNextTimer now M) = 0"
    using Cons by (simp add: getNextTimer_def Let_def)
  moreover have "x div 1000000 * 1000000 \<le> x \<and> x < (x div 1000000 + 1) * 1000000" for x :: int
    by presburger
  ultimately show ?thesis using val Cons min by (simp only: Let_def) simp
qed

lemma getNextTimer_exact_witness:
  "uint (fst (getNextTimer 1 M_demo)) * 1000000 \<le> 4999999 \<and>
   4999999 < (uint (fst (getNextTimer 1 M_demo)) + 1) * 1000000"
  using getNextTimer_exact [OF M_demo_wf, of 1]
  by (simp add: M_demo_fields clock_ok_def Let_def del: One_nat_def)

text \<open>
  C21. \<open>Timer::reset\<close> (run without interruption between its two halves): asked for the period the
  timer has, not counted from now, it returns true and does nothing, even to a cancelled timer;
  otherwise it fails without effect on a disarmed timer or one whose deadline is not in the set, and
  else sets the period, moves the timer to its start (\<open>now\<close>, or the start of the running period)
  plus the new period, unless another timer has that deadline, and returns true.
\<close>

theorem reset_refines:
  assumes "tm_wf M" and "t < fresh M"
  shows "if ms = m_ms (heap M t) \<and> \<not> from_now then reset_timer ms from_now now t M = (True, False, M)
         else if tm_cb (heap M t) = None \<or> deadline_map M (m_next (heap M t)) = None
         then reset_timer ms from_now now t M = (False, False, M)
         else let d = add_ms (if from_now then now else sub_ms (m_next (heap M t)) (m_ms (heap M t))) ms;
                  M' = snd (snd (reset_timer ms from_now now t M))
              in fst (reset_timer ms from_now now t M) \<and>
                 heap M' = (heap M)(t := (heap M t)\<lparr>m_ms := ms, m_next := d\<rparr>) \<and>
                 deadline_map M' = put_absent ((deadline_map M)(m_next (heap M t) := None)) d t"
proof -
  have srt: "sorted_wrt (timer_less (heap M)) (m_timers M)" using assms(1) by (simp add: tm_wf_def)
  have found: "oset_find (timer_less (heap M)) t (m_timers M) = None \<longleftrightarrow>
      deadline_map M (m_next (heap M t)) = None"
    using timer_find_None_key [OF srt, of t] by (simp add: deadline_map_def dmap_None_iff)
  show ?thesis
  proof (cases "ms = m_ms (heap M t) \<and> \<not> from_now \<or> tm_cb (heap M t) = None \<or>
      oset_find (timer_less (heap M)) t (m_timers M) = None")
    case True
    with found show ?thesis by (auto simp: reset_timer_def reset_erase_def)
  next
    case False
    then obtain i where Some: "oset_find (timer_less (heap M)) t (m_timers M) = Some i" by auto
    let ?d = "add_ms (if from_now then now else sub_ms (m_next (heap M t)) (m_ms (heap M t))) ms"
    let ?tm = "(heap M t)\<lparr>m_ms := ms, m_next := ?d\<rparr>"
    let ?M1 = "M\<lparr>m_timers := erase_at i (m_timers M), heap := (heap M)(t := ?tm)\<rparr>"
    note e = tm_wf_erased [OF assms(1) Some]
    have "tm_wf ?M1"
      using assms(1) e(2,3) set_erase_at_subset [of i "m_timers M"]
      by (auto simp: tm_wf_def sorted_timers_upd)
    note dm = deadline_map_addTimer_ptr [OF this, of t]
    have r: "reset_timer ms from_now now t M = (True, addTimer_ptr t ?M1)"
      using False Some by (auto simp: reset_timer_def reset_erase_def reset_rearm_def Let_def)
    have "deadline_map ?M1 = (deadline_map M)(m_next (heap M t) := None)"
      using e(3) dmap_erase [OF srt Some] by (simp add: deadline_map_def)
    with dm have "deadline_map (snd (addTimer_ptr t ?M1)) =
        put_absent ((deadline_map M)(m_next (heap M t) := None)) ?d t" by simp
    with False found r show ?thesis by (auto simp: Let_def)
  qed
qed

lemma reset_refines_witness:
  "fst (reset_timer 9 True 1 0 M_demo) \<and> m_ms (heap (snd (snd (reset_timer 9 True 1 0 M_demo))) 0) = 9"
proof -
  have "deadline_map M_demo 5000000 = Some 0"
    using deadline_map_Some_iff [OF M_demo_wf] by (simp add: M_demo_fields)
  then show ?thesis
    using reset_refines [OF M_demo_wf, of 0 9 True 1] by (simp add: M_demo_fields Let_def)
qed

text \<open>A burst of \<open>addTimer\<close> calls; the list says which of them called \<open>onTimerInsertedAtFront\<close>.\<close>

fun add_burst ::
  "(time \<times> 64 word \<times> closure option \<times> bool) list \<Rightarrow> timer_manager \<Rightarrow> bool list \<times> timer_manager" where
  "add_burst [] M = ([], M)"
| "add_burst ((now, ms, cb, recurring) # xs) M =
     (let (_, fired, M1) = addTimer now ms cb recurring M;
          (fs, M2) = add_burst xs M1
      in (fired # fs, M2))"

lemma addTimer_tickled:
  "addTimer now ms cb recurring M = (t, fired, M') \<Longrightarrow>
   (fired \<longrightarrow> \<not> m_tickled M) \<and> m_tickled M' = (m_tickled M \<or> fired)"
  by (auto simp: addTimer_def addTimer_ptr_def Let_def split: prod.splits)

lemma add_burst_tickled: "m_tickled M \<Longrightarrow> True \<notin> set (fst (add_burst xs M))"
proof (induction xs arbitrary: M)
  case (Cons x xs)
  obtain now ms cb recurring where x: "x = (now, ms, cb, recurring)" by (cases x) auto
  obtain t fired M1 where r: "addTimer now ms cb recurring M = (t, fired, M1)"
    using prod_cases3 by blast
  with addTimer_tickled [OF r] Cons.prems have "\<not> fired \<and> m_tickled M1" by simp
  with r Cons.IH [of M1] show ?case by (simp add: x case_prod_beta)
qed simp

text \<open>
  Between two calls of \<open>getNextTimer\<close>, however many timers are added, \<open>onTimerInsertedAtFront\<close>
  is called at most once (as the comment on \<open>m_tickled\<close> promises).
\<close>

lemma at_most_one_notification:
  "length (filter (\<lambda>fired. fired) (fst (add_burst xs (snd (getNextTimer now M))))) \<le> 1"
proof -
  have "length (filter (\<lambda>fired. fired) (fst (add_burst xs M))) \<le> 1" for M
  proof (induction xs arbitrary: M)
    case (Cons x xs)
    obtain now ms cb recurring where x: "x = (now, ms, cb, recurring)" by (cases x) auto
    obtain t fired M1 where r: "addTimer now ms cb recurring M = (t, fired, M1)"
      using prod_cases3 by blast
    show ?case
    proof (cases fired)
      case True
      with addTimer_tickled [OF r] have "True \<notin> set (fst (add_burst xs M1))"
        by (intro add_burst_tickled) simp
      then have "filter (\<lambda>fired. fired) (fst (add_burst xs M1)) = []"
        by (auto simp: filter_empty_conv)
      with True r show ?thesis by (simp add: x case_prod_beta)
    next
      case False
      with r Cons [of M1] show ?thesis by (simp add: x case_prod_beta)
    qed
  qed simp
  then show ?thesis .
qed

section \<open>Timers the manager loses\<close>

text \<open>
  Two recurring timers of one period that are due in the same call of \<open>listExpiredCb\<close>: both fire,
  both are given the deadline \<open>now + m_ms\<close>, and at most one of them is still in the set, so the other
  never fires again although it was never cancelled.
\<close>

lemma recurring_timers_collide:
  assumes "tm_wf M" and "clock_ok now" and "\<not> fst (detectClockRollover now2 M)"
    and "\<forall>t \<in> set (m_timers M). m_recurring (heap M t) \<longrightarrow>
           m_ms (heap M t) \<noteq> 0 \<and> period_ok (m_ms (heap M t))"
    and "t \<in> set (m_timers M)" and "u \<in> set (m_timers M)" and "t \<noteq> u"
    and "due now M t" and "due now M u" and "m_recurring (heap M t)" and "m_recurring (heap M u)"
    and "m_ms (heap M t) = m_ms (heap M u)"
  shows "\<exists>cbs' M'. listExpiredCb now now2 cbs M = Some (cbs', M') \<and>
           tm_cb (heap M' t) = tm_cb (heap M t) \<and> tm_cb (heap M' u) = tm_cb (heap M u) \<and>
           \<not> (t \<in> set (m_timers M') \<and> u \<in> set (m_timers M'))"
proof -
  obtain cbs' M' where M': "listExpiredCb now now2 cbs M = Some (cbs', M')" "tm_wf M'"
      "expired_post now (M\<lparr>m_previouseTime := now2\<rparr>) M'"
    using listExpiredCb_correct_aux [OF assms(1-4)] by blast
  have "heap M' v = (heap M v)\<lparr>m_next := add_ms now (m_ms (heap M v))\<rparr>"
    if "v \<in> {t, u}" for v
    using expired_postD [OF M'(3), of v] that assms(5-11) by (auto simp: due_def)
  with M' assms(7,12) tm_wf_inj [OF M'(2), of t u] show ?thesis by auto
qed

definition M_twins :: timer_manager where
  "M_twins = snd (snd (addTimer 2 5 (Some (UserFn 2)) True
               (snd (snd (addTimer 0 5 (Some (UserFn 1)) True (new_manager 0))))))"

lemma recurring_timers_collide_witness:
  "\<exists>cbs' M'. listExpiredCb 6000000 6000000 [] M_twins = Some (cbs', M') \<and>
     tm_cb (heap M' 0) = Some (UserFn 1) \<and> tm_cb (heap M' 1) = Some (UserFn 2) \<and>
     \<not> (0 \<in> set (m_timers M') \<and> 1 \<in> set (m_timers M'))"
proof -
  have "tm_wf M_twins" by (simp add: M_twins_def tm_wf_addTimer)
  moreover have "\<not> fst (detectClockRollover 6000000 M_twins)" by code_simp
  moreover have "m_timers M_twins = [0, 1]" "m_recurring (heap M_twins 0)"
    "m_recurring (heap M_twins 1)" "m_ms (heap M_twins 0) = 5" "m_ms (heap M_twins 1) = 5"
    "m_next (heap M_twins 0) = 5000000" "m_next (heap M_twins 1) = 5000002"
    "tm_cb (heap M_twins 0) = Some (UserFn 1)" "tm_cb (heap M_twins 1) = Some (UserFn 2)"
    by code_simp+
  ultimately show ?thesis
    using recurring_timers_collide [of M_twins 6000000 6000000 0 1 "[]"]
    by (simp add: clock_ok_def period_ok_def due_def del: One_nat_def)
qed

lemma add_ms_huge:
  assumes "clock_ok now" and "2 ^ 64 - 4000000000000 \<le> uint ms"
  shows "add_ms now ms = now + (uint ms - 2 ^ 64) * 1000000"
proof -
  have u: "uint ms < 18446744073709551616" using uint_lt2p [of ms] by simp
  have "(uint ms + 2 ^ 63) mod 2 ^ 64 = (uint ms + 2 ^ 63 - 2 ^ 64) mod 2 ^ 64"
    by (rule minus_mod_self2 [symmetric])
  also have "\<dots> = uint ms + 2 ^ 63 - 2 ^ 64"
    using assms(2) u by (intro mod_pos_pos_trivial) simp_all
  finally have sint: "sint ms = uint ms - 2 ^ 64"
    by (simp add: sint_uint signed_take_bit_eq_take_bit_shift take_bit_eq_mod)
  then have s: "-4000000000000 \<le> sint ms" "sint ms < 0" using assms(2) u by simp_all
  then have "i64 (sint ms * 1000000) = sint ms * 1000000"
    by (intro i64_id_num) linarith+
  moreover have "i64 (now + sint ms * 1000000) = now + sint ms * 1000000"
    using s assms(1) unfolding clock_ok_def by (intro i64_id_num; simp)
  ultimately show ?thesis by (simp add: add_ms_def ms_to_ns_def sint)
qed

text \<open>
  A period in the top of the \<open>uint64_t\<close> range is read as a negative number of milliseconds: the
  new timer is due the moment it is added instead of (practically) never.
\<close>

lemma huge_period_due_at_once:
  assumes "clock_ok now" and "2 ^ 64 - 4000000000000 \<le> uint ms"
    and "addTimer now ms cb recurring M = (t, fired, M')"
  shows "due now M' t \<and> m_next (heap M' t) < now"
proof -
  have "uint ms < 2 ^ 64" using uint_lt2p [of ms] by simp
  then have "add_ms now ms < now" using add_ms_huge [OF assms(1,2)] by simp
  moreover have "heap M' t = new_timer now ms cb recurring"
    using assms(3) by (auto simp: addTimer_def addTimer_ptr_def Let_def split: prod.splits)
  ultimately show ?thesis by (simp add: due_def new_timer_def)
qed

lemma huge_period_due_at_once_witness:
  "due 5 (snd (snd (addTimer 5 (- 1) (Some (UserFn 1)) False (new_manager 0)))) 0"
proof -
  obtain t fired M' where r: "addTimer 5 (- 1) (Some (UserFn 1)) False (new_manager 0) = (t, fired, M')"
    using prod_cases3 by blast
  have "t = 0" using r by (simp add: addTimer_def new_manager_def Let_def)
  moreover have "uint (- 1 :: 64 word) = 18446744073709551615"
    by (simp add: unsigned_minus_1_eq_mask mask_eq_exp_minus_1)
  ultimately show ?thesis
    using huge_period_due_at_once [OF _ _ r] r by (simp add: clock_ok_def)
qed

text \<open>
  A conditional timer: calling what \<open>addConditionTimer\<close> stored runs the user's function when the
  guarded object still exists at that moment, and does nothing when it does not.
\<close>

lemma condition_timer_guarded:
  "addConditionTimer now ms (Some (UserFn f)) w recurring M = (t, fired, M') \<Longrightarrow>
   call_closure alive (tm_cb (heap M' t)) = Inr (if alive w then Some (UserFn f) else None)"
  by (auto simp: addConditionTimer_def addTimer_def addTimer_ptr_def new_timer_def Let_def
      split: prod.splits)

lemma condition_timer_guarded_witness:
  "call_closure (\<lambda>w. w = 1) (tm_cb (heap
     (snd (snd (addConditionTimer 0 5 (Some (UserFn 4)) 1 False (new_manager 0)))) 0)) =
   Inr (Some (UserFn 4))"
proof -
  obtain t fired M' where
    r: "addConditionTimer 0 5 (Some (UserFn 4)) 1 False (new_manager 0) = (t, fired, M')"
    using prod_cases3 by blast
  have "t = 0" using r by (simp add: addConditionTimer_def addTimer_def new_manager_def Let_def)
  then show ?thesis using condition_timer_guarded [OF r, of "\<lambda>w. w = 1"] r by simp
qed

end
