(* ===== verification/Fiber.thy ===== *)
theory Fiber
  imports Prelude
begin

text \<open>
  Model of \<open>src/fiber/fiber.h\<close> and \<open>src/fiber/fiber.cc\<close>. Fiber objects live in a store, a pointer
  being a \<open>nat\<close>; the thread-local pointers are a record per thread. The machine state the
  \<open>ucontext\<close> calls switch is which stack each thread executes on: its own (\<open>Native\<close>) or that of a
  fiber. A saved context is a suspended stack, or the start of \<open>MainFunc\<close> on a fresh one. The
  results of \<open>malloc\<close>, \<open>getcontext\<close> and \<open>swapcontext\<close> are arguments (\<open>True\<close> for a call that
  returns 0); so is the indeterminate value of a member the source leaves uninitialised.
\<close>

section \<open>Data\<close>

datatype fiber_state = READY | RUNNING | TERM_state

datatype flow = Native nat | OnStack nat

datatype ucontext = Unset | StartOf nat | Suspended flow

record fiber =
  fb_id :: "64 word"
  m_state :: fiber_state
  m_ctx :: ucontext
  m_stacksize :: "32 word"
  m_stack :: "nat option"
  fb_cb :: "closure option"
  m_runInScheduler :: bool

record fiber_tls =
  t_fiber :: "nat option"
  t_thread_fiber :: "nat option"
  t_scheduler_fiber :: "nat option"

record fiber_world =
  fibers :: "nat \<Rightarrow> fiber"
  next_fiber :: nat
  s_fiber_id :: "64 word"
  s_fiber_count :: "64 word"
  blocks :: "nat list"
  tls :: "nat \<Rightarrow> fiber_tls"
  flow_of :: "nat \<Rightarrow> flow"

definition no_fiber :: fiber where
  "no_fiber = \<lparr>fb_id = 0, m_state = READY, m_ctx = Unset, m_stacksize = 0, m_stack = None,
     fb_cb = None, m_runInScheduler = False\<rparr>"

definition init_world :: fiber_world where
  "init_world = \<lparr>fibers = (\<lambda>_. no_fiber), next_fiber = 0, s_fiber_id = 0, s_fiber_count = 0,
     blocks = [], tls = (\<lambda>_. \<lparr>t_fiber = None, t_thread_fiber = None, t_scheduler_fiber = None\<rparr>),
     flow_of = Native\<rparr>"

definition upd_fiber :: "nat \<Rightarrow> (fiber \<Rightarrow> fiber) \<Rightarrow> fiber_world \<Rightarrow> fiber_world" where
  "upd_fiber f g W = W\<lparr>fibers := (fibers W)(f := g (fibers W f))\<rparr>"

definition upd_tls :: "nat \<Rightarrow> (fiber_tls \<Rightarrow> fiber_tls) \<Rightarrow> fiber_world \<Rightarrow> fiber_world" where
  "upd_tls th g W = W\<lparr>tls := (tls W)(th := g (tls W th))\<rparr>"

lemma upd_fiber_simps [simp]:
  "fibers (upd_fiber f g W) = (fibers W)(f := g (fibers W f))"
  "next_fiber (upd_fiber f g W) = next_fiber W" "s_fiber_id (upd_fiber f g W) = s_fiber_id W"
  "s_fiber_count (upd_fiber f g W) = s_fiber_count W" "blocks (upd_fiber f g W) = blocks W"
  "tls (upd_fiber f g W) = tls W" "flow_of (upd_fiber f g W) = flow_of W"
  by (simp_all add: upd_fiber_def)

lemma upd_tls_simps [simp]:
  "tls (upd_tls th h W) = (tls W)(th := h (tls W th))"
  "next_fiber (upd_tls th h W) = next_fiber W" "s_fiber_id (upd_tls th h W) = s_fiber_id W"
  "s_fiber_count (upd_tls th h W) = s_fiber_count W" "blocks (upd_tls th h W) = blocks W"
  "fibers (upd_tls th h W) = fibers W" "flow_of (upd_tls th h W) = flow_of W"
  by (simp_all add: upd_tls_def)

abbreviation state_of :: "fiber_world \<Rightarrow> nat \<Rightarrow> fiber_state" where
  "state_of W f \<equiv> m_state (fibers W f)"

section \<open>The thread-local pointers\<close>

definition SetThis :: "nat \<Rightarrow> nat option \<Rightarrow> fiber_world \<Rightarrow> fiber_world" where
  "SetThis th f W = upd_tls th (\<lambda>t. t\<lparr>t_fiber := f\<rparr>) W"

definition SetSchedulerFiber :: "nat \<Rightarrow> nat option \<Rightarrow> fiber_world \<Rightarrow> fiber_world" where
  "SetSchedulerFiber th f W = upd_tls th (\<lambda>t. t\<lparr>t_scheduler_fiber := f\<rparr>) W"

definition GetFiberId :: "nat \<Rightarrow> fiber_world \<Rightarrow> 64 word" where
  "GetFiberId th W =
     (case t_fiber (tls W th) of Some f \<Rightarrow> fb_id (fibers W f) | None \<Rightarrow> - 1)"

section \<open>Construction and destruction\<close>

text \<open>The private constructor: the fiber of the thread's own stack. \<open>gc\<close> is the result of
  \<open>getcontext\<close>, \<open>junk\<close> the value \<open>m_runInScheduler\<close> happens to have.\<close>

definition new_main_fiber :: "bool \<Rightarrow> bool \<Rightarrow> nat \<Rightarrow> fiber_world \<Rightarrow> (nat \<times> fiber_world) result" where
  "new_main_fiber gc junk th W =
     (let f = next_fiber W; W1 = SetThis th (Some f) (W\<lparr>next_fiber := Suc f\<rparr>)
      in if \<not> gc then Inl PthreadExit
         else Inr (f, upd_fiber f (\<lambda>_. no_fiber\<lparr>m_state := RUNNING, m_ctx := Suspended (flow_of W th),
                        fb_id := s_fiber_id W, m_runInScheduler := junk\<rparr>)
                    (W1\<lparr>s_fiber_id := s_fiber_id W + 1, s_fiber_count := s_fiber_count W + 1\<rparr>)))"

text \<open>
  The public constructor. \<open>mem\<close> is what \<open>malloc\<close> returns, which the source does not test; the size is
  cut to 32 bits. \<open>makecontext\<close> lays out the first frame of \<open>MainFunc\<close> at the top of the stack it is given,
  so without a stack it faults.
\<close>

definition new_fiber ::
  "closure option \<Rightarrow> 64 word \<Rightarrow> bool \<Rightarrow> nat option \<Rightarrow> bool \<Rightarrow> fiber_world \<Rightarrow>
   (nat \<times> fiber_world) result" where
  "new_fiber cb stacksize run_in_scheduler mem gc W =
     (let f = next_fiber W
      in if \<not> gc then Inl PthreadExit
         else case mem of
           None \<Rightarrow> Inl NullDereference
         | Some a \<Rightarrow>
             Inr (f, upd_fiber f (\<lambda>_. \<lparr>fb_id = s_fiber_id W, m_state = READY, m_ctx = StartOf f,
                            m_stacksize = ucast (if stacksize \<noteq> 0 then stacksize else 128000),
                            m_stack = Some a, fb_cb = cb, m_runInScheduler = run_in_scheduler\<rparr>)
                    (W\<lparr>next_fiber := Suc f, s_fiber_count := s_fiber_count W + 1,
                       blocks := a # blocks W\<rparr>)))"

text \<open>The constructor returns when there is a stack.\<close>

lemma new_fiber_Inr:
  "new_fiber cb sz r mem gc W = Inr (f, W') \<longleftrightarrow>
     gc \<and> f = next_fiber W \<and> (\<exists>a. mem = Some a \<and>
       W' = upd_fiber f (\<lambda>_. \<lparr>fb_id = s_fiber_id W, m_state = READY, m_ctx = StartOf f,
                            m_stacksize = ucast (if sz \<noteq> 0 then sz else 128000),
                            m_stack = Some a, fb_cb = cb, m_runInScheduler = r\<rparr>)
              (W\<lparr>next_fiber := Suc f, s_fiber_count := s_fiber_count W + 1, blocks := a # blocks W\<rparr>))"
  by (auto simp: new_fiber_def Let_def split: option.splits)

lemma new_fiber_total:
  "mem \<noteq> None \<Longrightarrow> \<exists>f W'. new_fiber cb sz r mem True W = Inr (f, W')"
  by (auto simp: new_fiber_Inr)

definition delete_fiber :: "nat \<Rightarrow> fiber_world \<Rightarrow> fiber_world" where
  "delete_fiber f W =
     W\<lparr>s_fiber_count := s_fiber_count W - 1,
       blocks := (case m_stack (fibers W f) of None \<Rightarrow> blocks W | Some a \<Rightarrow> remove1 a (blocks W))\<rparr>"

text \<open>\<open>Fiber::GetThis\<close>: the running fiber, or a main fiber made for the thread.\<close>

definition GetThis :: "bool \<Rightarrow> bool \<Rightarrow> nat \<Rightarrow> fiber_world \<Rightarrow> (nat \<times> fiber_world) result" where
  "GetThis gc junk th W =
     (case t_fiber (tls W th) of
        Some f \<Rightarrow> Inr (f, W)
      | None \<Rightarrow>
          and_then (new_main_fiber gc junk th W) (\<lambda>(f, W1).
            let W2 = upd_tls th (\<lambda>t. t\<lparr>t_thread_fiber := Some f, t_scheduler_fiber := Some f\<rparr>) W1
            in assert_that (t_fiber (tls W2 th) = Some f) (Inr (f, W2))))"

definition reset_fiber ::
  "bool \<Rightarrow> nat \<Rightarrow> closure option \<Rightarrow> fiber_world \<Rightarrow> fiber_world result" where
  "reset_fiber gc f cb W =
     assert_that (m_stack (fibers W f) \<noteq> None \<and> state_of W f = TERM_state)
       (if \<not> gc then Inl PthreadExit
        else Inr (upd_fiber f (\<lambda>b. b\<lparr>m_state := READY, fb_cb := cb, m_ctx := StartOf f\<rparr>) W))"

section \<open>Switching\<close>

text \<open>
  \<open>swapcontext(&from->m_ctx, &to->m_ctx)\<close> on thread \<open>th\<close>: the stack that executes is saved in
  \<open>from\<close>, then the one \<open>to\<close> holds goes on. A null fiber pointer on either side is a fault.
\<close>

definition swapcontext ::
  "bool \<Rightarrow> nat \<Rightarrow> nat option \<Rightarrow> nat option \<Rightarrow> fiber_world \<Rightarrow> fiber_world result" where
  "swapcontext sc th from_fiber to_fiber W =
     (case (from_fiber, to_fiber) of
        (Some a, Some b) \<Rightarrow>
          (if \<not> sc then Inl PthreadExit
           else
             let W1 = upd_fiber a (\<lambda>x. x\<lparr>m_ctx := Suspended (flow_of W th)\<rparr>) W
             in case m_ctx (fibers W1 b) of
                  StartOf g \<Rightarrow> Inr (W1\<lparr>flow_of := (flow_of W1)(th := OnStack g)\<rparr>)
                | Suspended fl \<Rightarrow> Inr (W1\<lparr>flow_of := (flow_of W1)(th := fl)\<rparr>)
                | Unset \<Rightarrow> Inl NullDereference)
      | _ \<Rightarrow> Inl NullDereference)"

text \<open>
  The side a fiber switches with: the scheduler fiber of the thread or its main fiber.
\<close>

definition partner :: "nat \<Rightarrow> nat \<Rightarrow> fiber_world \<Rightarrow> nat option" where
  "partner th f W =
     (if m_runInScheduler (fibers W f) then t_scheduler_fiber (tls W th)
      else t_thread_fiber (tls W th))"

definition resume :: "bool \<Rightarrow> nat \<Rightarrow> nat \<Rightarrow> fiber_world \<Rightarrow> fiber_world result" where
  "resume sc th f W =
     assert_that (state_of W f = READY)
       (let W1 = SetThis th (Some f) (upd_fiber f (\<lambda>b. b\<lparr>m_state := RUNNING\<rparr>) W)
        in swapcontext sc th (partner th f W1) (Some f) W1)"

definition yield :: "bool \<Rightarrow> nat \<Rightarrow> nat \<Rightarrow> fiber_world \<Rightarrow> fiber_world result" where
  "yield sc th f W =
     assert_that (state_of W f = RUNNING \<or> state_of W f = TERM_state)
       (let W1 = (if state_of W f \<noteq> TERM_state then upd_fiber f (\<lambda>b. b\<lparr>m_state := READY\<rparr>) W else W);
            W2 = SetThis th (partner th f W1) W1
        in swapcontext sc th (Some f) (partner th f W2) W2)"

text \<open>
  \<open>MainFunc\<close>, on the stack of the fiber just entered: \<open>main_func_call\<close> finds the fiber and the
  function it is to run; when that function has returned, \<open>main_func_return\<close> clears it, ends the
  fiber and leaves its stack for good.
\<close>

definition main_func_call :: "nat \<Rightarrow> fiber_world \<Rightarrow> (nat \<times> closure) result" where
  "main_func_call th W =
     and_then (GetThis True False th W) (\<lambda>(f, _).
       case fb_cb (fibers W f) of None \<Rightarrow> Inl BadFunctionCall | Some c \<Rightarrow> Inr (f, c))"

definition main_func_return :: "bool \<Rightarrow> nat \<Rightarrow> nat \<Rightarrow> fiber_world \<Rightarrow> fiber_world result" where
  "main_func_return sc th f W =
     yield sc th f (upd_fiber f (\<lambda>b. b\<lparr>fb_cb := None, m_state := TERM_state\<rparr>) W)"

end
