(* ===== verification/Fiber_Spec.thy ===== *)
theory Fiber_Spec
  imports Fiber
begin

text \<open>
  What \<open>resume\<close>, \<open>yield\<close> and \<open>MainFunc\<close> guarantee to threads that only switch between their own flow
  and task fibers, the discipline of \<open>Scheduler::run\<close>: an invariant of the whole fiber world, the
  abstract coroutine machine it implements, and what happens outside the discipline.
\<close>

section \<open>The invariant\<close>

text \<open>
  A task fiber is one that is not the main fiber of a thread. A thread has no fibers yet, or it runs
  on its own stack as its main fiber, or it runs on the stack of a RUNNING task fiber while its main
  fiber holds the thread's own suspended flow.
\<close>

definition is_task :: "fiber_world \<Rightarrow> nat \<Rightarrow> bool" where
  "is_task W f \<longleftrightarrow> f < next_fiber W \<and> (\<forall>th. t_scheduler_fiber (tls W th) \<noteq> Some f)"

definition thread_ok :: "fiber_world \<Rightarrow> nat \<Rightarrow> bool" where
  "thread_ok W th \<longleftrightarrow>
     (case t_scheduler_fiber (tls W th) of
        None \<Rightarrow> t_fiber (tls W th) = None \<and> flow_of W th = Native th
      | Some m \<Rightarrow>
          t_thread_fiber (tls W th) = Some m \<and> m < next_fiber W \<and> state_of W m = RUNNING \<and>
          (case flow_of W th of
             Native t \<Rightarrow> t = th \<and> t_fiber (tls W th) = Some m
           | OnStack f \<Rightarrow> t_fiber (tls W th) = Some f \<and> is_task W f \<and> state_of W f = RUNNING \<and>
               m_ctx (fibers W m) = Suspended (Native th)))"

definition task_ok :: "fiber_world \<Rightarrow> nat \<Rightarrow> bool" where
  "task_ok W f \<longleftrightarrow>
     m_runInScheduler (fibers W f) \<and>
     (state_of W f = READY \<longrightarrow> m_ctx (fibers W f) \<in> {StartOf f, Suspended (OnStack f)}) \<and>
     (state_of W f = RUNNING \<longrightarrow> (\<exists>th. flow_of W th = OnStack f))"

definition fw_inv :: "fiber_world \<Rightarrow> bool" where
  "fw_inv W \<longleftrightarrow>
     (\<forall>th. thread_ok W th) \<and> (\<forall>f. is_task W f \<longrightarrow> task_ok W f) \<and>
     (\<forall>th1 th2 m. t_scheduler_fiber (tls W th1) = Some m \<longrightarrow>
        t_scheduler_fiber (tls W th2) = Some m \<longrightarrow> th1 = th2) \<and>
     (\<forall>th1 th2 f. flow_of W th1 = OnStack f \<longrightarrow> flow_of W th2 = OnStack f \<longrightarrow> th1 = th2)"

lemma fw_inv_thread: "fw_inv W \<Longrightarrow> thread_ok W th"
  by (simp add: fw_inv_def)

lemma fw_inv_task: "fw_inv W \<Longrightarrow> is_task W f \<Longrightarrow> task_ok W f"
  by (simp add: fw_inv_def)

lemma fw_inv_main_inj:
  "fw_inv W \<Longrightarrow> t_scheduler_fiber (tls W th1) = Some m \<Longrightarrow>
   t_scheduler_fiber (tls W th2) = Some m \<Longrightarrow> th1 = th2"
  by (simp add: fw_inv_def)

lemma fw_inv_flow_inj:
  "fw_inv W \<Longrightarrow> flow_of W th1 = OnStack f \<Longrightarrow> flow_of W th2 = OnStack f \<Longrightarrow> th1 = th2"
  by (simp add: fw_inv_def)

lemma fw_inv_init [simp]: "fw_inv init_world"
  by (simp add: fw_inv_def thread_ok_def is_task_def init_world_def)

text \<open>A thread at its own flow, and a thread on the stack of a fiber.\<close>

lemma thread_native:
  assumes "fw_inv W" and "t_scheduler_fiber (tls W th) = Some m" and "flow_of W th = Native t"
  shows "t = th" and "t_fiber (tls W th) = Some m" and "t_thread_fiber (tls W th) = Some m"
    and "m < next_fiber W" and "state_of W m = RUNNING"
  using fw_inv_thread [OF assms(1), of th] assms(2,3) by (auto simp: thread_ok_def)

lemma thread_on_stack:
  assumes "fw_inv W" and "flow_of W th = OnStack f"
  obtains m where "t_scheduler_fiber (tls W th) = Some m" and "t_fiber (tls W th) = Some f"
    and "is_task W f" and "state_of W f = RUNNING" and "m_ctx (fibers W m) = Suspended (Native th)"
    and "t_thread_fiber (tls W th) = Some m" and "m < next_fiber W" and "m \<noteq> f"
    and "state_of W m = RUNNING"
  using fw_inv_thread [OF assms(1), of th] assms(2)
  by (auto simp: thread_ok_def is_task_def split: option.splits)

section \<open>The operations under the invariant\<close>

definition resumed :: "nat \<Rightarrow> nat \<Rightarrow> nat \<Rightarrow> fiber_world \<Rightarrow> fiber_world" where
  "resumed th m f W =
     W\<lparr>fibers := (fibers W)(f := (fibers W f)\<lparr>m_state := RUNNING\<rparr>,
                           m := (fibers W m)\<lparr>m_ctx := Suspended (Native th)\<rparr>),
       tls := (tls W)(th := (tls W th)\<lparr>t_fiber := Some f\<rparr>),
       flow_of := (flow_of W)(th := OnStack f)\<rparr>"

lemma resume_task:
  assumes inv: "fw_inv W" and m: "t_scheduler_fiber (tls W th) = Some m"
    and fl: "flow_of W th = Native th" and f: "is_task W f" and "state_of W f = READY"
  shows "resume True th f W = Inr (resumed th m f W)"
proof -
  have "f \<noteq> m" using f m by (auto simp: is_task_def)
  with fw_inv_task [OF inv f] assms show ?thesis
    by (auto simp: resume_def Let_def SetThis_def partner_def swapcontext_def task_ok_def resumed_def
        upd_fiber_def upd_tls_def fun_eq_iff split: ucontext.splits)
qed

lemma resume_not_ready: "state_of W f \<noteq> READY \<Longrightarrow> resume sc th f W = Inl AssertionFailed"
  by (simp add: resume_def)

definition yielded :: "nat \<Rightarrow> nat \<Rightarrow> nat \<Rightarrow> fiber_world \<Rightarrow> fiber_world" where
  "yielded th m f W =
     W\<lparr>fibers := (fibers W)(f := (fibers W f)\<lparr>m_state :=
            (if state_of W f = TERM_state then TERM_state else READY), m_ctx := Suspended (OnStack f)\<rparr>),
       tls := (tls W)(th := (tls W th)\<lparr>t_fiber := Some m\<rparr>),
       flow_of := (flow_of W)(th := Native th)\<rparr>"

lemma yield_task:
  assumes "flow_of W th = OnStack f" and "t_scheduler_fiber (tls W th) = Some m"
    and "m_ctx (fibers W m) = Suspended (Native th)" and "m \<noteq> f"
    and "m_runInScheduler (fibers W f)" and "state_of W f \<in> {RUNNING, TERM_state}"
  shows "yield True th f W = Inr (yielded th m f W)"
  using assms
  by (auto simp: yield_def Let_def SetThis_def partner_def swapcontext_def yielded_def
      upd_fiber_def upd_tls_def fun_eq_iff)

lemma yield_running:
  assumes "fw_inv W" and "flow_of W th = OnStack f"
  obtains m where "t_scheduler_fiber (tls W th) = Some m"
    and "yield True th f W = Inr (yielded th m f W)"
    and "main_func_return True th f W =
           Inr (yielded th m f (upd_fiber f (\<lambda>b. b\<lparr>fb_cb := None, m_state := TERM_state\<rparr>) W))"
proof -
  from thread_on_stack [OF assms] obtain m where m: "t_scheduler_fiber (tls W th) = Some m"
    "is_task W f" "state_of W f = RUNNING" "m_ctx (fibers W m) = Suspended (Native th)" "m \<noteq> f"
    by metis
  have "m_runInScheduler (fibers W f)" using fw_inv_task [OF assms(1) m(2)] by (simp add: task_ok_def)
  with m assms(2) show thesis
    by (intro that [of m]) (auto simp: main_func_return_def intro!: yield_task)
qed

section \<open>Preservation\<close>

lemma is_task_cong:
  "next_fiber W' = next_fiber W \<Longrightarrow>
   (\<And>th. t_scheduler_fiber (tls W' th) = t_scheduler_fiber (tls W th)) \<Longrightarrow>
   is_task W' f = is_task W f"
  by (simp add: is_task_def)

lemma fw_inv_resumed [wf_intros]:
  assumes inv: "fw_inv W" and m: "t_scheduler_fiber (tls W th) = Some m"
    and fl: "flow_of W th = Native th" and f: "is_task W f" and rdy: "state_of W f = READY"
  shows "fw_inv (resumed th m f W)"
proof -
  let ?W = "resumed th m f W"
  have task: "is_task ?W g = is_task W g" for g
    by (rule is_task_cong) (auto simp: resumed_def)
  have fm: "f \<noteq> m" using f m by (auto simp: is_task_def)
  have free: "flow_of W t \<noteq> OnStack f" for t
    using thread_on_stack [OF inv, of t f] rdy by fastforce
  have mm: "t_scheduler_fiber (tls W t) = Some m \<Longrightarrow> t = th" for t
    using fw_inv_main_inj [OF inv _ m] .
  have other: "t_scheduler_fiber (tls W t) \<noteq> Some f" for t using f by (simp add: is_task_def)
  have "thread_ok ?W t" for t
  proof (cases "t = th")
    case True
    then show ?thesis
      using thread_native [OF inv m fl] m f task [of f] fm by (simp add: thread_ok_def) (simp add: resumed_def)
  next
    case False
    then show ?thesis
      using fw_inv_thread [OF inv, of t] mm [of t] other [of t] free [of t] m f task fm
      by (auto simp: thread_ok_def resumed_def split: option.splits flow.splits)
  qed
  moreover have "task_ok ?W g" if "is_task ?W g" for g
  proof (cases "g = f")
    case True
    with fw_inv_task [OF inv f] fm show ?thesis by (auto simp: task_ok_def resumed_def)
  next
    case False
    have g: "is_task W g" using that task by simp
    then have "g \<noteq> m" using m by (auto simp: is_task_def)
    with False have same: "fibers ?W g = fibers W g" by (simp add: resumed_def)
    have "flow_of W t = OnStack g \<Longrightarrow> flow_of ?W t = OnStack g" for t
      using fl by (auto simp: resumed_def)
    with fw_inv_task [OF inv g] same show ?thesis unfolding task_ok_def by metis
  qed
  moreover have "flow_of ?W t1 = OnStack g \<Longrightarrow> flow_of ?W t2 = OnStack g \<Longrightarrow> t1 = t2" for t1 t2 g
    using fw_inv_flow_inj [OF inv, of t1 g t2] free by (auto simp: resumed_def split: if_splits)
  moreover have "t_scheduler_fiber (tls ?W t1) = Some g \<Longrightarrow> t_scheduler_fiber (tls ?W t2) = Some g \<Longrightarrow>
      t1 = t2" for t1 t2 g
    using fw_inv_main_inj [OF inv, of t1 g t2] by (auto simp: resumed_def split: if_splits)
  ultimately show ?thesis unfolding fw_inv_def by blast
qed

text \<open>
  Leaving a fiber: \<open>upd\<close> is what the fiber did to its own record before (nothing for \<open>yield\<close>, the end
  of \<open>MainFunc\<close> otherwise).
\<close>

lemma fw_inv_yielded:
  assumes inv: "fw_inv W" and fl: "flow_of W th = OnStack f"
    and m: "t_scheduler_fiber (tls W th) = Some m"
    and run: "m_runInScheduler (upd (fibers W f)) = m_runInScheduler (fibers W f)"
  shows "fw_inv (yielded th m f (upd_fiber f upd W))"
proof -
  let ?W = "yielded th m f (upd_fiber f upd W)"
  from thread_on_stack [OF inv fl] m have f: "is_task W f" "state_of W f = RUNNING"
    "t_thread_fiber (tls W th) = Some m" "m < next_fiber W" "m \<noteq> f" "state_of W m = RUNNING"
    by (metis option.inject)+
  have task: "is_task ?W g = is_task W g" for g
    by (rule is_task_cong) (auto simp: yielded_def)
  have only: "flow_of W t = OnStack f \<Longrightarrow> t = th" for t by (rule fw_inv_flow_inj [OF inv _ fl])
  have other: "t_scheduler_fiber (tls W t) \<noteq> Some f" for t using f(1) by (simp add: is_task_def)
  have "thread_ok ?W t" for t
  proof (cases "t = th")
    case True
    then show ?thesis using f m by (simp add: thread_ok_def yielded_def)
  next
    case False
    then show ?thesis
      using fw_inv_thread [OF inv, of t] only [of t] other [of t] task
      by (auto simp: thread_ok_def yielded_def split: option.splits flow.splits)
  qed
  moreover have "task_ok ?W g" if "is_task ?W g" for g
  proof (cases "g = f")
    case True
    with fw_inv_task [OF inv f(1)] run show ?thesis by (simp add: task_ok_def yielded_def)
  next
    case False
    have g: "is_task W g" using that task by simp
    from False have same: "fibers ?W g = fibers W g" by (simp add: yielded_def)
    have "flow_of W t = OnStack g \<Longrightarrow> flow_of ?W t = OnStack g" for t
      using fl False by (auto simp: yielded_def)
    with fw_inv_task [OF inv g] same show ?thesis unfolding task_ok_def by metis
  qed
  moreover have "flow_of ?W t1 = OnStack g \<Longrightarrow> flow_of ?W t2 = OnStack g \<Longrightarrow> t1 = t2" for t1 t2 g
    using fw_inv_flow_inj [OF inv, of t1 g t2] by (auto simp: yielded_def split: if_splits)
  moreover have "t_scheduler_fiber (tls ?W t1) = Some g \<Longrightarrow> t_scheduler_fiber (tls ?W t2) = Some g \<Longrightarrow>
      t1 = t2" for t1 t2 g
    using fw_inv_main_inj [OF inv, of t1 g t2] by (auto simp: yielded_def split: if_splits)
  ultimately show ?thesis unfolding fw_inv_def by blast
qed

lemma upd_fiber_id [simp]: "upd_fiber f (\<lambda>b. b) W = W"
  by (simp add: upd_fiber_def)

lemma fw_inv_new_fiber:
  assumes inv: "fw_inv W" and r: "new_fiber cb sz True mem True W = Inr (f, W')"
  shows "fw_inv W'"
proof -
  have f: "f = next_fiber W" and next': "next_fiber W' = Suc f" and tls': "tls W' = tls W"
    and flow': "flow_of W' = flow_of W" and old: "g \<noteq> f \<Longrightarrow> fibers W' g = fibers W g"
    and new: "m_runInScheduler (fibers W' f)" "m_ctx (fibers W' f) = StartOf f"
      "state_of W' f = READY" for g
    using r by (auto simp: new_fiber_Inr)
  have mn: "t_scheduler_fiber (tls W t) = Some m \<Longrightarrow> m < f" for t m
    using fw_inv_thread [OF inv, of t] by (auto simp: thread_ok_def f split: option.splits)
  have task: "is_task W' g \<longleftrightarrow> g = f \<or> is_task W g" for g
    using mn by (auto simp: is_task_def next' tls' f)
  have oldt: "is_task W g \<Longrightarrow> fibers W' g = fibers W g" for g by (rule old) (simp add: is_task_def f)
  have oldm: "t_scheduler_fiber (tls W t) = Some m \<Longrightarrow> fibers W' m = fibers W m" for t m
    using mn [of t m] by (intro old) simp
  have "thread_ok W' t" for t
    using fw_inv_thread [OF inv, of t] mn [of t] oldt oldm
    by (auto simp: thread_ok_def tls' flow' next' f [symmetric] task split: option.splits flow.splits)
  moreover have "task_ok W' g" if "is_task W' g" for g
    using that fw_inv_task [OF inv, of g] old [of g] new
    by (cases "g = f") (auto simp: task task_ok_def flow')
  ultimately show ?thesis
    using inv unfolding fw_inv_def by (simp only: tls' flow') blast
qed

lemma fw_inv_GetThis:
  assumes inv: "fw_inv W" and r: "GetThis True junk th W = Inr (f, W')"
  shows "fw_inv W'"
proof (cases "t_fiber (tls W th)")
  case (Some g)
  with r inv show ?thesis by (simp add: GetThis_def)
next
  case None
  have none: "t_scheduler_fiber (tls W th) = None" "flow_of W th = Native th"
    using fw_inv_thread [OF inv, of th] None
    by (auto simp: thread_ok_def split: option.splits flow.splits)
  have f: "f = next_fiber W" and next': "next_fiber W' = Suc f" and flow': "flow_of W' = flow_of W"
    and tls': "tls W' = (tls W)(th := \<lparr>t_fiber = Some f, t_thread_fiber = Some f,
        t_scheduler_fiber = Some f\<rparr>)"
    and old: "g \<noteq> f \<Longrightarrow> fibers W' g = fibers W g" and new: "state_of W' f = RUNNING" for g
    using r None by (auto simp: GetThis_def new_main_fiber_def Let_def SetThis_def fun_eq_iff)
  have mn: "t_scheduler_fiber (tls W t) = Some m \<Longrightarrow> m < f" for t m
    using fw_inv_thread [OF inv, of t] by (auto simp: thread_ok_def f split: option.splits)
  have task: "is_task W' g \<longleftrightarrow> is_task W g" for g
  proof -
    have "t_scheduler_fiber (tls W' t) = (if t = th then Some f else t_scheduler_fiber (tls W t))" for t
      by (simp add: tls')
    then have "(\<forall>t. t_scheduler_fiber (tls W' t) \<noteq> Some g) \<longleftrightarrow>
        g \<noteq> f \<and> (\<forall>t. t_scheduler_fiber (tls W t) \<noteq> Some g)"
      using none(1) by (metis option.distinct(1) option.inject)
    then show ?thesis unfolding is_task_def next' using f by (auto simp: less_Suc_eq)
  qed
  have oldt: "is_task W g \<Longrightarrow> fibers W' g = fibers W g" for g by (rule old) (simp add: is_task_def f)
  have oldm: "t_scheduler_fiber (tls W t) = Some m \<Longrightarrow> fibers W' m = fibers W m" for t m
    using mn [of t m] by (intro old) simp
  have "thread_ok W' t" for t
  proof (cases "t = th")
    case True
    with none new show ?thesis by (simp add: thread_ok_def tls' flow' next')
  next
    case False
    have "tls W' t = tls W t" using False by (simp add: tls')
    then show ?thesis
      using fw_inv_thread [OF inv, of t] mn [of t] oldt oldm
      by (auto simp: thread_ok_def flow' next' f [symmetric] task split: option.splits flow.splits)
  qed
  moreover have "task_ok W' g" if "is_task W' g" for g
    using that fw_inv_task [OF inv, of g] oldt [of g] by (auto simp: task task_ok_def flow')
  moreover have "t_scheduler_fiber (tls W' t1) = Some g \<Longrightarrow> t_scheduler_fiber (tls W' t2) = Some g \<Longrightarrow>
      t1 = t2" for t1 t2 g
    using fw_inv_main_inj [OF inv, of t1 g t2] mn [of t1 g] mn [of t2 g]
    by (auto simp: tls' split: if_splits)
  ultimately show ?thesis
    using inv unfolding fw_inv_def by (simp only: flow') blast
qed

lemma fw_inv_reset_fiber:
  assumes inv: "fw_inv W" and f: "is_task W f" and r: "reset_fiber True f cb W = Inr W'"
  shows "fw_inv W'"
proof -
  have trm: "state_of W f = TERM_state"
    and W': "W' = upd_fiber f (\<lambda>b. b\<lparr>m_state := READY, fb_cb := cb, m_ctx := StartOf f\<rparr>) W"
    using r by (auto simp: reset_fiber_def assert_that_def split: if_splits)
  have free: "flow_of W t \<noteq> OnStack f" for t
    using thread_on_stack [OF inv, of t f] trm by fastforce
  have task: "is_task W' g = is_task W g" for g
    by (rule is_task_cong) (simp_all add: W')
  have "thread_ok W' t" for t
    using fw_inv_thread [OF inv, of t] f free [of t] unfolding thread_ok_def task
    by (auto simp: W' is_task_def split: option.splits flow.splits)
  moreover have "task_ok W' g" if "is_task W' g" for g
    using that fw_inv_task [OF inv, of g] task by (auto simp: task_ok_def W')
  moreover have "tls W' = tls W" "flow_of W' = flow_of W" by (simp_all add: W')
  ultimately show ?thesis
    using inv unfolding fw_inv_def by (simp only:) blast
qed

section \<open>Steps and reachable worlds\<close>

text \<open>
  One step of some thread: it makes its main fiber, creates a task fiber, resumes one from its own
  flow, or, on the stack of a fiber, yields or ends it; a finished fiber may be given a new function.
  The steps are atomic: \<open>Scheduler::run\<close> holds the fiber's \<open>m_mutex\<close> around \<open>resume\<close>.
\<close>

inductive fiber_step :: "fiber_world \<Rightarrow> fiber_world \<Rightarrow> bool" where
  attach: "GetThis True junk th W = Inr (f, W') \<Longrightarrow> fiber_step W W'"
| create: "new_fiber cb sz True mem True W = Inr (f, W') \<Longrightarrow> fiber_step W W'"
| resume: "t_scheduler_fiber (tls W th) = Some m \<Longrightarrow> flow_of W th = Native th \<Longrightarrow> is_task W f \<Longrightarrow>
    resume True th f W = Inr W' \<Longrightarrow> fiber_step W W'"
| yield: "flow_of W th = OnStack f \<Longrightarrow> yield True th f W = Inr W' \<Longrightarrow> fiber_step W W'"
| finish: "flow_of W th = OnStack f \<Longrightarrow> main_func_return True th f W = Inr W' \<Longrightarrow> fiber_step W W'"
| reset: "is_task W f \<Longrightarrow> reset_fiber True f cb W = Inr W' \<Longrightarrow> fiber_step W W'"

inductive fiber_reach :: "fiber_world \<Rightarrow> bool" where
  init: "fiber_reach init_world"
| step: "fiber_reach W \<Longrightarrow> fiber_step W W' \<Longrightarrow> fiber_reach W'"

lemma resume_ready: "resume sc th f W = Inr W' \<Longrightarrow> state_of W f = READY"
  by (simp add: resume_def assert_that_Inr_iff)

lemma fw_inv_step: "fiber_step W W' \<Longrightarrow> fw_inv W \<Longrightarrow> fw_inv W'"
proof (induction rule: fiber_step.induct)
  case (resume W th m f W')
  then show ?case
    using resume_task [of W th m f] resume_ready [of True th f W W'] by (auto intro: fw_inv_resumed)
next
  case (yield W th f W')
  from yield_running [OF yield(3,1)] obtain m where "t_scheduler_fiber (tls W th) = Some m"
    "yield True th f W = Inr (yielded th m f W)" by metis
  with yield fw_inv_yielded [of W th f m "\<lambda>b. b"] show ?case by simp
next
  case (finish W th f W')
  from yield_running [OF finish(3,1)] obtain m where "t_scheduler_fiber (tls W th) = Some m"
    "main_func_return True th f W =
       Inr (yielded th m f (upd_fiber f (\<lambda>b. b\<lparr>fb_cb := None, m_state := TERM_state\<rparr>) W))" by metis
  with finish fw_inv_yielded [of W th f m "\<lambda>b. b\<lparr>fb_cb := None, m_state := TERM_state\<rparr>"]
  show ?case by simp
qed (auto intro: fw_inv_GetThis fw_inv_new_fiber fw_inv_reset_fiber)

lemma fw_inv_reach: "fiber_reach W \<Longrightarrow> fw_inv W"
  by (induction rule: fiber_reach.induct) (auto intro: fw_inv_step)

text \<open>Two threads, and one fiber created before either of them switches.\<close>

definition W_demo :: fiber_world where
  "W_demo = (case new_fiber (Some (UserFn 7)) 0 True (Some 100) True
      (case GetThis True False 1 init_world of Inr (_, W) \<Rightarrow> W | Inl _ \<Rightarrow> init_world) of
      Inr (_, W) \<Rightarrow> W | Inl _ \<Rightarrow> init_world)"

lemma W_demo_reach: "fiber_reach W_demo"
proof -
  obtain W1 where W1: "GetThis True False 1 init_world = Inr (0, W1)"
    by (simp add: GetThis_def new_main_fiber_def SetThis_def init_world_def Let_def)
  obtain f W2 where W2: "new_fiber (Some (UserFn 7)) 0 True (Some 100) True W1 = Inr (f, W2)"
    by (simp add: new_fiber_Inr)
  have "fiber_reach W2"
    using fiber_reach.step [OF fiber_reach.step [OF fiber_reach.init fiber_step.attach [OF W1]]
        fiber_step.create [OF W2]] .
  with W1 W2 show ?thesis by (simp add: W_demo_def)
qed

lemma W_demo_fields:
  "t_scheduler_fiber (tls W_demo 1) = Some 0" "flow_of W_demo 1 = Native 1" "is_task W_demo 1"
  "state_of W_demo 1 = READY" "fb_cb (fibers W_demo 1) = Some (UserFn 7)"
  "t_fiber (tls W_demo 1) = Some 0"
  by (simp_all add: W_demo_def GetThis_def new_main_fiber_def SetThis_def init_world_def Let_def
      new_fiber_def is_task_def fun_eq_iff)

text \<open>
  C8. In every reachable world, a thread that executes on the stack of a fiber is the only one doing
  so, the fiber is RUNNING and is what \<open>t_fiber\<close> of that thread points to; and every RUNNING task
  fiber has such a thread. So \<open>GetThis\<close> never names another fiber than the one that calls it.
\<close>

theorem stack_exclusive:
  assumes "fiber_reach W" and "is_task W f"
  shows "(state_of W f = RUNNING \<longleftrightarrow> (\<exists>th. flow_of W th = OnStack f)) \<and>
         (\<forall>th. flow_of W th = OnStack f \<longrightarrow> t_fiber (tls W th) = Some f) \<and>
         (\<forall>th1 th2. flow_of W th1 = OnStack f \<and> flow_of W th2 = OnStack f \<longrightarrow> th1 = th2)"
proof -
  note inv = fw_inv_reach [OF assms(1)]
  have "state_of W f = RUNNING \<and> t_fiber (tls W th) = Some f" if "flow_of W th = OnStack f" for th
    by (rule thread_on_stack [OF inv that]) auto
  with fw_inv_task [OF inv assms(2)] fw_inv_flow_inj [OF inv] show ?thesis
    unfolding task_ok_def by blast
qed

lemma stack_exclusive_witness:
  "state_of W_demo 1 = RUNNING \<longleftrightarrow> (\<exists>th. flow_of W_demo th = OnStack 1)"
  using stack_exclusive [OF W_demo_reach W_demo_fields(3)] by blast

text \<open>
  On a thread at its own flow, \<open>resume\<close> of a task fiber has exactly two outcomes: the assertion
  fails (the fiber is not READY), or the thread executes on the fiber's stack, with the fiber RUNNING,
  and its own flow saved in its main fiber. No other fault is possible; the same holds of \<open>yield\<close> and
  the end of \<open>MainFunc\<close> on the fiber's side, which always succeed and give the thread back to its own
  flow.
\<close>

lemma switch_total:
  assumes "fiber_reach W" and "t_scheduler_fiber (tls W th) = Some m"
  shows "(flow_of W th = Native th \<and> is_task W f \<longrightarrow>
            resume True th f W =
              (if state_of W f = READY then Inr (resumed th m f W) else Inl AssertionFailed)) \<and>
         (flow_of W th = OnStack f \<longrightarrow>
            yield True th f W = Inr (yielded th m f W) \<and>
            main_func_return True th f W =
              Inr (yielded th m f (upd_fiber f (\<lambda>b. b\<lparr>fb_cb := None, m_state := TERM_state\<rparr>) W)))"
  using resume_task [OF fw_inv_reach [OF assms(1)] assms(2)] resume_not_ready [of W f True th]
    yield_running [OF fw_inv_reach [OF assms(1)], of th f] assms(2) by auto

lemma switch_total_witness:
  "resume True 1 1 W_demo = Inr (resumed 1 0 1 W_demo)"
  using switch_total [OF W_demo_reach W_demo_fields(1), of 1] W_demo_fields by (simp del: One_nat_def)

text \<open>
  C22. Suspending is transparent: a READY fiber resumed on a thread and yielding gives back the world
  it was resumed in (every state, every thread's pointers and flows, every other fiber), except that
  it is now suspended on its own stack, so that any thread at its own flow that resumes it next goes
  on where it stopped.
\<close>

theorem resume_yield_roundtrip:
  assumes "fiber_reach W" and "t_scheduler_fiber (tls W th) = Some m" and "flow_of W th = Native th"
    and "is_task W f" and "state_of W f = READY"
    and "t_scheduler_fiber (tls W th') = Some m'" and "flow_of W th' = Native th'"
  shows "\<exists>W1 W2 W3. resume True th f W = Inr W1 \<and> yield True th f W1 = Inr W2 \<and>
           tls W2 = tls W \<and> flow_of W2 = flow_of W \<and> state_of W2 = state_of W \<and>
           (\<forall>g. g \<noteq> f \<and> g \<noteq> m \<longrightarrow> fibers W2 g = fibers W g) \<and>
           fb_cb (fibers W2 f) = fb_cb (fibers W f) \<and>
           m_ctx (fibers W2 f) = Suspended (OnStack f) \<and>
           resume True th' f W2 = Inr W3 \<and> flow_of W3 th' = OnStack f"
proof -
  note inv = fw_inv_reach [OF assms(1)]
  let ?W1 = "resumed th m f W"
  let ?W2 = "yielded th m f ?W1"
  have fm: "f \<noteq> m" using assms(2,4) by (auto simp: is_task_def)
  have r1: "resume True th f W = Inr ?W1" by (rule resume_task [OF inv assms(2-5)])
  have inv1: "fw_inv ?W1" by (rule fw_inv_resumed [OF inv assms(2-5)])
  have fl1: "flow_of ?W1 th = OnStack f" "t_scheduler_fiber (tls ?W1 th) = Some m"
    using assms(2) by (simp_all add: resumed_def)
  from yield_running [OF inv1 fl1(1)] fl1(2) have r2: "yield True th f ?W1 = Inr ?W2" by auto
  have inv2: "fw_inv ?W2" using fw_inv_yielded [OF inv1 fl1, of "\<lambda>b. b"] by simp
  have same: "tls ?W2 = tls W" "flow_of ?W2 = flow_of W" "state_of ?W2 = state_of W"
    using assms(3,5) thread_native [OF inv assms(2,3)] fm
    by (auto simp: yielded_def resumed_def fun_eq_iff)
  have other: "g \<noteq> f \<and> g \<noteq> m \<longrightarrow> fibers ?W2 g = fibers W g" for g
    by (simp add: yielded_def resumed_def)
  have own: "fb_cb (fibers ?W2 f) = fb_cb (fibers W f)" "m_ctx (fibers ?W2 f) = Suspended (OnStack f)"
    using fm by (simp_all add: yielded_def resumed_def)
  have "next_fiber ?W2 = next_fiber W" by (simp add: yielded_def resumed_def)
  then have task2: "is_task ?W2 f" using assms(4) same(1) by (simp add: is_task_def)
  have "resume True th' f ?W2 = Inr (resumed th' m' f ?W2)"
    by (rule resume_task [OF inv2 _ _ task2]) (use same assms(5-7) in \<open>auto simp: fun_eq_iff\<close>)
  moreover have "flow_of (resumed th' m' f ?W2) th' = OnStack f" by (simp add: resumed_def)
  ultimately show ?thesis using r1 r2 same other own by blast
qed

lemma resume_yield_roundtrip_witness:
  "\<exists>W1 W2. resume True 1 1 W_demo = Inr W1 \<and> yield True 1 1 W1 = Inr W2 \<and>
     tls W2 = tls W_demo \<and> flow_of W2 = flow_of W_demo"
  using resume_yield_roundtrip [OF W_demo_reach W_demo_fields(1-4,1,2)] by blast

section \<open>The life of a fiber\<close>

text \<open>
  A fiber entered for the first time (its context is still the start of \<open>MainFunc\<close>) runs on its
  own stack, and \<open>MainFunc\<close> there finds exactly this fiber and its function; an empty function is the
  uncaught exception \<open>std::bad_function_call\<close>.
\<close>

lemma first_resume_runs_callback:
  assumes "fiber_reach W" and "t_scheduler_fiber (tls W th) = Some m" and "flow_of W th = Native th"
    and "is_task W f" and "state_of W f = READY" and "resume True th f W = Inr W'"
  shows "flow_of W' th = OnStack f \<and>
         main_func_call th W' =
           (case fb_cb (fibers W f) of None \<Rightarrow> Inl BadFunctionCall | Some c \<Rightarrow> Inr (f, c))"
proof -
  have "W' = resumed th m f W"
    using resume_task [OF fw_inv_reach [OF assms(1)] assms(2-5)] assms(6) by simp
  moreover have "f \<noteq> m" using assms(2,4) by (auto simp: is_task_def)
  ultimately show ?thesis by (simp add: main_func_call_def GetThis_def resumed_def)
qed

lemma first_resume_runs_callback_witness:
  "main_func_call 1 (resumed 1 0 1 W_demo) = Inr (1, UserFn 7)"
proof -
  have "resume True 1 1 W_demo = Inr (resumed 1 0 1 W_demo)"
    by (rule resume_task [OF fw_inv_reach [OF W_demo_reach] W_demo_fields(1-4)])
  from first_resume_runs_callback [OF W_demo_reach W_demo_fields(1-4) this] W_demo_fields(5)
  show ?thesis by simp
qed

text \<open>
  The end of \<open>MainFunc\<close>: the fiber is TERM, its function is gone, the thread is back at its own
  flow as its main fiber, and from then on \<open>resume\<close> fails its assertion; \<open>reset\<close> (of a fiber with a
  stack) is the only way back: READY, the new function, and a fresh start on the same stack.
\<close>

lemma finished_until_reset:
  assumes "fiber_reach W" and "t_scheduler_fiber (tls W th) = Some m" and "flow_of W th = OnStack f"
  shows "\<exists>W'. main_func_return True th f W = Inr W' \<and> state_of W' f = TERM_state \<and>
           fb_cb (fibers W' f) = None \<and> flow_of W' th = Native th \<and> t_fiber (tls W' th) = Some m \<and>
           (\<forall>sc th'. resume sc th' f W' = Inl AssertionFailed) \<and>
           (\<forall>cb. reset_fiber True f cb W' =
              (if m_stack (fibers W f) = None then Inl AssertionFailed
               else Inr (upd_fiber f (\<lambda>b. b\<lparr>m_state := READY, fb_cb := cb, m_ctx := StartOf f\<rparr>) W')))"
proof -
  let ?W' = "yielded th m f (upd_fiber f (\<lambda>b. b\<lparr>fb_cb := None, m_state := TERM_state\<rparr>) W)"
  from yield_running [OF fw_inv_reach [OF assms(1)] assms(3)] assms(2)
  have "main_func_return True th f W = Inr ?W'" by auto
  moreover have "state_of ?W' f = TERM_state \<and> fb_cb (fibers ?W' f) = None \<and>
      flow_of ?W' th = Native th \<and> t_fiber (tls ?W' th) = Some m"
    and "m_stack (fibers ?W' f) = m_stack (fibers W f)"
    by (simp_all add: yielded_def)
  ultimately show ?thesis
    by (intro exI [of _ ?W']) (simp add: resume_not_ready reset_fiber_def assert_that_def)
qed

lemma finished_until_reset_witness:
  "\<exists>W'. main_func_return True 1 1 (resumed 1 0 1 W_demo) = Inr W' \<and> state_of W' 1 = TERM_state \<and>
     resume True 1 1 W' = Inl AssertionFailed"
proof -
  have "resume True 1 1 W_demo = Inr (resumed 1 0 1 W_demo)"
    by (rule resume_task [OF fw_inv_reach [OF W_demo_reach] W_demo_fields(1-4)])
  then have "fiber_reach (resumed 1 0 1 W_demo)"
    by (intro fiber_reach.step [OF W_demo_reach fiber_step.resume [OF W_demo_fields(1-3)]])
  from finished_until_reset [OF this, of 1 0 1] W_demo_fields(1) show ?thesis
    by (auto simp: resumed_def)
qed

section \<open>The abstract coroutine machine\<close>

text \<open>
  Asymmetric coroutines: a map of the fibers' states and of who runs where. A fiber is resumed only
  when READY and by a thread that runs none, and leaves by yielding or ending.
\<close>

type_synonym co_state = "(nat \<rightharpoonup> fiber_state) \<times> (nat \<rightharpoonup> nat)"

inductive co_step :: "co_state \<Rightarrow> co_state \<Rightarrow> bool" where
  co_stutter: "co_step s s"
| co_create: "st f = None \<Longrightarrow> co_step (st, run) (st(f \<mapsto> READY), run)"
| co_resume: "st f = Some READY \<Longrightarrow> run th = None \<Longrightarrow>
    co_step (st, run) (st(f \<mapsto> RUNNING), run(th \<mapsto> f))"
| co_yield: "run th = Some f \<Longrightarrow> st f = Some RUNNING \<Longrightarrow>
    co_step (st, run) (st(f \<mapsto> READY), run(th := None))"
| co_finish: "run th = Some f \<Longrightarrow> st f = Some RUNNING \<Longrightarrow>
    co_step (st, run) (st(f \<mapsto> TERM_state), run(th := None))"
| co_reset: "st f = Some TERM_state \<Longrightarrow> co_step (st, run) (st(f \<mapsto> READY), run)"

definition abs_fibers :: "fiber_world \<Rightarrow> co_state" where
  "abs_fibers W =
     ((\<lambda>f. if is_task W f then Some (state_of W f) else None),
      (\<lambda>th. case flow_of W th of OnStack f \<Rightarrow> Some f | Native _ \<Rightarrow> None))"

lemma abs_resumed:
  assumes "t_scheduler_fiber (tls W th) = Some m" and "is_task W f"
  shows "abs_fibers (resumed th m f W) =
           ((fst (abs_fibers W))(f \<mapsto> RUNNING), (snd (abs_fibers W))(th \<mapsto> f))"
proof -
  have task: "is_task (resumed th m f W) g = is_task W g" for g
    by (rule is_task_cong) (auto simp: resumed_def)
  have "f \<noteq> m" using assms by (auto simp: is_task_def)
  with assms(2) show ?thesis
    unfolding abs_fibers_def task by (auto simp: resumed_def fun_eq_iff)
qed

lemma abs_yielded:
  assumes "is_task W f"
  shows "abs_fibers (yielded th m f (upd_fiber f upd W)) =
           ((fst (abs_fibers W))(f \<mapsto> (if m_state (upd (fibers W f)) = TERM_state then TERM_state else READY)),
            (snd (abs_fibers W))(th := None))"
proof -
  have task: "is_task (yielded th m f (upd_fiber f upd W)) g = is_task W g" for g
    by (rule is_task_cong) (auto simp: yielded_def)
  show ?thesis
    using assms unfolding abs_fibers_def task by (auto simp: yielded_def fun_eq_iff)
qed

lemma abs_new_fiber:
  assumes inv: "fw_inv W" and r: "new_fiber cb sz True mem True W = Inr (f, W')"
  shows "abs_fibers W' = ((fst (abs_fibers W))(f \<mapsto> READY), snd (abs_fibers W)) \<and>
         fst (abs_fibers W) f = None"
proof -
  have "\<not> is_task W f" using r by (auto simp: new_fiber_Inr is_task_def)
  moreover have "t_scheduler_fiber (tls W t) \<noteq> Some (next_fiber W)" for t
    using fw_inv_thread [OF inv, of t] by (auto simp: thread_ok_def split: option.splits)
  then have "is_task W' g \<longleftrightarrow> g = f \<or> is_task W g" for g
    using r by (auto simp: new_fiber_Inr is_task_def less_Suc_eq)
  ultimately show ?thesis
    using r unfolding abs_fibers_def by (auto simp: new_fiber_Inr fun_eq_iff)
qed

lemma abs_GetThis:
  assumes inv: "fw_inv W" and r: "GetThis True junk th W = Inr (f, W')"
  shows "abs_fibers W' = abs_fibers W"
proof (cases "t_fiber (tls W th)")
  case (Some g)
  with r show ?thesis by (simp add: GetThis_def)
next
  case None
  have none: "t_scheduler_fiber (tls W th) = None"
    using fw_inv_thread [OF inv, of th] None
    by (auto simp: thread_ok_def split: option.splits flow.splits)
  have f: "f = next_fiber W" "next_fiber W' = Suc f" "flow_of W' = flow_of W"
    and tls': "t_scheduler_fiber (tls W' t) =
        (if t = th then Some f else t_scheduler_fiber (tls W t))"
    and old: "g \<noteq> f \<Longrightarrow> fibers W' g = fibers W g" for g t
    using r None by (auto simp: GetThis_def new_main_fiber_def Let_def SetThis_def)
  have main: "(\<forall>t. t_scheduler_fiber (tls W' t) \<noteq> Some g) \<longleftrightarrow>
      g \<noteq> f \<and> (\<forall>t. t_scheduler_fiber (tls W t) \<noteq> Some g)" for g
    using none unfolding tls' by (metis option.distinct(1) option.inject)
  have "is_task W' g \<longleftrightarrow> is_task W g" for g
    unfolding is_task_def main using f by (auto simp: less_Suc_eq)
  moreover have "is_task W g \<Longrightarrow> fibers W' g = fibers W g" for g
    using f(1) old [of g] by (auto simp: is_task_def)
  ultimately show ?thesis using f(3) unfolding abs_fibers_def by (auto simp: fun_eq_iff)
qed

lemma abs_reset:
  assumes "is_task W f" and r: "reset_fiber True f cb W = Inr W'"
  shows "abs_fibers W' = ((fst (abs_fibers W))(f \<mapsto> READY), snd (abs_fibers W))" and "state_of W f = TERM_state"
proof -
  have W': "W' = upd_fiber f (\<lambda>b. b\<lparr>m_state := READY, fb_cb := cb, m_ctx := StartOf f\<rparr>) W"
    using r by (auto simp: reset_fiber_def assert_that_def split: if_splits)
  have task: "is_task W' g = is_task W g" for g by (rule is_task_cong) (simp_all add: W')
  show "abs_fibers W' = ((fst (abs_fibers W))(f \<mapsto> READY), snd (abs_fibers W))"
    using assms(1) unfolding abs_fibers_def task by (auto simp: W' fun_eq_iff)
  show "state_of W f = TERM_state"
    using r by (auto simp: reset_fiber_def assert_that_def split: if_splits)
qed

text \<open>
  C7. The fiber module implements the abstract coroutine machine: every step of a reachable world is
  one of its steps (or changes nothing it sees).
\<close>

theorem fibers_refine_coroutines:
  assumes "fiber_reach W" and "fiber_step W W'"
  shows "co_step (abs_fibers W) (abs_fibers W')"
  using assms(2) fw_inv_reach [OF assms(1)]
proof (induction rule: fiber_step.induct)
  case (attach junk th W f W')
  then show ?case using abs_GetThis [of W junk th f W'] by (simp add: co_stutter)
next
  case (create cb sz mem W f W')
  then show ?case
    using abs_new_fiber [of W cb sz mem f W']
      co_create [of "fst (abs_fibers W)" f "snd (abs_fibers W)"] by simp
next
  case (resume W th m f W')
  then have "W' = resumed th m f W" "state_of W f = READY"
    using resume_task [of W th m f] resume_ready [of True th f W W'] by auto
  then show ?case
    using resume abs_resumed [of W th m f]
      co_resume [of "fst (abs_fibers W)" f "snd (abs_fibers W)" th]
    by (simp add: abs_fibers_def)
next
  case (yield W th f W')
  from yield_running [OF yield(3,1)] yield(2) obtain m where W': "W' = yielded th m f W"
    by (metis sum.inject(2))
  have "is_task W f" "state_of W f = RUNNING" by (rule thread_on_stack [OF yield(3,1)]; simp)+
  with W' abs_yielded [of W f th m "\<lambda>b. b"] yield(1)
    co_yield [of "snd (abs_fibers W)" th f "fst (abs_fibers W)"]
  show ?case by (simp add: abs_fibers_def)
next
  case (finish W th f W')
  from yield_running [OF finish(3,1)] finish(2) obtain m where
    W': "W' = yielded th m f (upd_fiber f (\<lambda>b. b\<lparr>fb_cb := None, m_state := TERM_state\<rparr>) W)"
    by (metis sum.inject(2))
  have "is_task W f" "state_of W f = RUNNING" by (rule thread_on_stack [OF finish(3,1)]; simp)+
  with W' abs_yielded [of W f th m "\<lambda>b. b\<lparr>fb_cb := None, m_state := TERM_state\<rparr>"] finish(1)
    co_finish [of "snd (abs_fibers W)" th f "fst (abs_fibers W)"]
  show ?case by (simp add: abs_fibers_def)
next
  case (reset W f cb W')
  with abs_reset [OF reset(1,2)] co_reset [of "fst (abs_fibers W)" f "snd (abs_fibers W)"]
  show ?case by (simp add: abs_fibers_def)
qed

lemma fibers_refine_coroutines_witness:
  "co_step (abs_fibers W_demo) (abs_fibers (resumed 1 0 1 W_demo))"
  by (rule fibers_refine_coroutines [OF W_demo_reach fiber_step.resume [OF W_demo_fields(1-3)
        resume_task [OF fw_inv_reach [OF W_demo_reach] W_demo_fields(1-4)]]])

section \<open>Identity and memory\<close>

text \<open>\<open>GetFiberId\<close> names the fiber whose stack the thread is on, and -1 on a thread without fibers.\<close>

lemma GetFiberId_spec:
  assumes "fw_inv W"
  shows "GetFiberId th W = (case t_scheduler_fiber (tls W th) of
      None \<Rightarrow> - 1
    | Some m \<Rightarrow> (case flow_of W th of Native _ \<Rightarrow> fb_id (fibers W m) | OnStack f \<Rightarrow> fb_id (fibers W f)))"
  using fw_inv_thread [OF assms, of th]
  by (auto simp: GetFiberId_def thread_ok_def split: option.splits flow.splits)

text \<open>A fiber that is destroyed gives back what its constructor took: the block of its stack, and its count.\<close>

lemma fiber_memory_balance:
  assumes "new_fiber cb sz r mem True W = Inr (f, W')"
  shows "blocks (delete_fiber f W') = blocks W \<and> s_fiber_count (delete_fiber f W') = s_fiber_count W"
  using assms by (auto simp: new_fiber_Inr delete_fiber_def)

end
