(* ===== verification/Thread.thy ===== *)
theory Thread
  imports Prelude
begin

text \<open>
  Model of \<open>src/thread/thread.h\<close> and \<open>src/thread/thread.cc\<close>: the semaphore, the \<open>Thread\<close> objects with
  their thread-local pointers, and the handshake between the constructor and the new thread. Objects
  live in a store, a pointer being a \<open>nat\<close>; a thread is the \<open>nat\<close> the kernel gives it, read as a
  \<open>pid_t\<close> by \<open>GetThreadID\<close>. Results of the pthread calls are arguments.
\<close>

section \<open>The semaphore\<close>

text \<open>
  A condition variable keeps the set of threads asleep in \<open>cv.wait\<close>; a thread that was notified, or
  woke by itself, looks at the count again once it has the mutex. \<open>sem_look\<close> is one evaluation of
  the loop condition with the mutex held: the unit is taken, or the thread sleeps.
\<close>

record semaphore =
  sem_count :: int
  asleep :: "nat set"
  woken :: "nat set"

definition new_semaphore :: "int \<Rightarrow> semaphore" where
  "new_semaphore n = \<lparr>sem_count = n, asleep = {}, woken = {}\<rparr>"

definition sem_look :: "nat \<Rightarrow> semaphore \<Rightarrow> bool \<times> semaphore" where
  "sem_look th s =
     (if sem_count s = 0 then (False, s\<lparr>asleep := insert th (asleep s), woken := woken s - {th}\<rparr>)
      else (True, s\<lparr>sem_count := i32 (sem_count s - 1), woken := woken s - {th}\<rparr>))"

text \<open>\<open>signal\<close>: \<open>notify_one\<close> wakes \<open>w\<close>, one of the sleepers, when there is any.\<close>

definition sem_signal :: "nat option \<Rightarrow> semaphore \<Rightarrow> semaphore" where
  "sem_signal w s =
     (case w of
        None \<Rightarrow> s\<lparr>sem_count := i32 (sem_count s + 1)\<rparr>
      | Some th \<Rightarrow> s\<lparr>sem_count := i32 (sem_count s + 1), asleep := asleep s - {th}, woken := insert th (woken s)\<rparr>)"

definition may_notify :: "nat option \<Rightarrow> semaphore \<Rightarrow> bool" where
  "may_notify w s = (case w of None \<Rightarrow> asleep s = {} | Some th \<Rightarrow> th \<in> asleep s)"

section \<open>Thread objects\<close>

datatype pthread_call = Join nat | Detach nat

record thread_obj =
  m_id :: int
  m_thread :: nat
  m_cb :: "closure option"
  th_name :: string
  m_semaphore :: semaphore

record thread_tls =
  t_thread :: "nat option"
  t_thread_name :: string

record thread_world =
  thread_objs :: "nat \<Rightarrow> thread_obj"
  thread_locals :: "nat \<Rightarrow> thread_tls"
  kernel_name :: "nat \<Rightarrow> string"
  pthread_log :: "pthread_call list"

definition upd_obj :: "nat \<Rightarrow> (thread_obj \<Rightarrow> thread_obj) \<Rightarrow> thread_world \<Rightarrow> thread_world" where
  "upd_obj p g W = W\<lparr>thread_objs := (thread_objs W)(p := g (thread_objs W p))\<rparr>"

definition upd_local :: "nat \<Rightarrow> (thread_tls \<Rightarrow> thread_tls) \<Rightarrow> thread_world \<Rightarrow> thread_world" where
  "upd_local th g W = W\<lparr>thread_locals := (thread_locals W)(th := g (thread_locals W th))\<rparr>"

lemma upd_obj_simps [simp]:
  "thread_objs (upd_obj p g W) = (thread_objs W)(p := g (thread_objs W p))"
  "thread_locals (upd_obj p g W) = thread_locals W" "kernel_name (upd_obj p g W) = kernel_name W"
  "pthread_log (upd_obj p g W) = pthread_log W"
  by (simp_all add: upd_obj_def)

lemma upd_local_simps [simp]:
  "thread_locals (upd_local th h W) = (thread_locals W)(th := h (thread_locals W th))"
  "thread_objs (upd_local th h W) = thread_objs W" "kernel_name (upd_local th h W) = kernel_name W"
  "pthread_log (upd_local th h W) = pthread_log W"
  by (simp_all add: upd_local_def)

definition GetThreadID :: "nat \<Rightarrow> int" where
  "GetThreadID th = int th"

definition GetName :: "nat \<Rightarrow> thread_world \<Rightarrow> string" where
  "GetName th W = t_thread_name (thread_locals W th)"

text \<open>The object of the thread that calls, null for a thread the library did not start; its getters.\<close>

definition Thread_GetThis :: "nat \<Rightarrow> thread_world \<Rightarrow> nat option" where
  "Thread_GetThis th W = t_thread (thread_locals W th)"

definition getID :: "nat \<Rightarrow> thread_world \<Rightarrow> int" where
  "getID p W = m_id (thread_objs W p)"

definition getName :: "nat \<Rightarrow> thread_world \<Rightarrow> string" where
  "getName p W = th_name (thread_objs W p)"

text \<open>A thread the library did not start: no object, the initial name.\<close>

definition foreign_tls :: thread_tls where
  "foreign_tls = \<lparr>t_thread = None, t_thread_name = ''UNKNOW''\<rparr>"

definition SetName :: "nat \<Rightarrow> string \<Rightarrow> thread_world \<Rightarrow> thread_world" where
  "SetName th name W =
     (let W1 = (case t_thread (thread_locals W th) of
                  Some p \<Rightarrow> upd_obj p (\<lambda>t. t\<lparr>th_name := name\<rparr>) W
                | None \<Rightarrow> W)
      in upd_local th (\<lambda>l. l\<lparr>t_thread_name := name\<rparr>) W1)"

text \<open>
  The constructor up to its \<open>m_semaphore.wait()\<close>. \<open>rt\<close> is the result of \<open>pthread_create\<close> and
  \<open>handle\<close> the \<open>pthread_t\<close> it stores.
\<close>

definition Thread_create ::
  "int \<Rightarrow> nat \<Rightarrow> nat \<Rightarrow> closure option \<Rightarrow> string \<Rightarrow> thread_world \<Rightarrow> thread_world result" where
  "Thread_create rt handle p cb name W =
     (if rt \<noteq> 0 then Inl LogicError
      else Inr (upd_obj p (\<lambda>_. \<lparr>m_id = - 1, m_thread = handle, m_cb = cb, th_name = name,
                             m_semaphore = new_semaphore 0\<rparr>) W))"

text \<open>\<open>Thread::run\<close> on thread \<open>th\<close>, one definition per statement, up to the call of the function.\<close>

definition run_set_this :: "nat \<Rightarrow> nat \<Rightarrow> thread_world \<Rightarrow> thread_world" where
  "run_set_this p th W =
     upd_local th (\<lambda>_. \<lparr>t_thread = Some p, t_thread_name = th_name (thread_objs W p)\<rparr>) W"

definition run_set_id :: "nat \<Rightarrow> nat \<Rightarrow> thread_world \<Rightarrow> thread_world" where
  "run_set_id p th W = upd_obj p (\<lambda>t. t\<lparr>m_id := GetThreadID th\<rparr>) W"

definition run_set_kernel_name :: "nat \<Rightarrow> nat \<Rightarrow> thread_world \<Rightarrow> thread_world" where
  "run_set_kernel_name p th W =
     W\<lparr>kernel_name := (kernel_name W)(th := take 15 (th_name (thread_objs W p)))\<rparr>"

definition run_take_cb :: "nat \<Rightarrow> thread_world \<Rightarrow> closure option \<times> thread_world" where
  "run_take_cb p W = (m_cb (thread_objs W p), upd_obj p (\<lambda>t. t\<lparr>m_cb := None\<rparr>) W)"

definition run_signal :: "nat \<Rightarrow> nat option \<Rightarrow> thread_world \<Rightarrow> thread_world" where
  "run_signal p w W = upd_obj p (\<lambda>t. t\<lparr>m_semaphore := sem_signal w (m_semaphore t)\<rparr>) W"

definition run_call :: "closure option \<Rightarrow> closure result" where
  "run_call cb = (case cb of None \<Rightarrow> Inl BadFunctionCall | Some c \<Rightarrow> Inr c)"

text \<open>\<open>join\<close> with the result \<open>rt\<close> of \<open>pthread_join\<close>, and the destructor.\<close>

definition Thread_join :: "int \<Rightarrow> nat \<Rightarrow> thread_world \<Rightarrow> thread_world result" where
  "Thread_join rt p W =
     (let h = m_thread (thread_objs W p)
      in if h \<noteq> 0
         then if rt \<noteq> 0 then Inl LogicError
              else Inr (upd_obj p (\<lambda>t. t\<lparr>m_thread := 0\<rparr>) (W\<lparr>pthread_log := pthread_log W @ [Join h]\<rparr>))
         else Inr W)"

definition Thread_delete :: "nat \<Rightarrow> thread_world \<Rightarrow> thread_world" where
  "Thread_delete p W =
     (let h = m_thread (thread_objs W p)
      in if h \<noteq> 0
         then upd_obj p (\<lambda>t. t\<lparr>m_thread := 0\<rparr>) (W\<lparr>pthread_log := pthread_log W @ [Detach h]\<rparr>)
         else W)"

end
