(* ===== verification/Thread_Spec.thy ===== *)
theory Thread_Spec
  imports Thread
begin

text \<open>
  What the semaphore and the threads promise: conservation of the units and no lost wakeup over every
  interleaving, the handshake that makes a constructed \<open>Thread\<close> know its id, and the release of the
  \<open>pthread_t\<close> exactly once.
\<close>

section \<open>The semaphore under every interleaving\<close>

datatype sem_event =
    Acquired nat
  | Slept nat
  | Signalled
  | Spurious nat

text \<open>
  \<open>sem_run c tr s\<close>: after the events \<open>tr\<close> a semaphore constructed with \<open>c\<close> is \<open>s\<close>. A thread enters
  \<open>wait\<close> or goes on in it after it was woken; a sleeper may wake without a signal.
\<close>

inductive sem_run :: "int \<Rightarrow> sem_event list \<Rightarrow> semaphore \<Rightarrow> bool" for c where
  new: "sem_run c [] (new_semaphore c)"
| acquire: "sem_run c tr s \<Longrightarrow> th \<notin> asleep s \<Longrightarrow> sem_look th s = (True, s') \<Longrightarrow>
    sem_run c (tr @ [Acquired th]) s'"
| sleep: "sem_run c tr s \<Longrightarrow> th \<notin> asleep s \<Longrightarrow> sem_look th s = (False, s') \<Longrightarrow>
    sem_run c (tr @ [Slept th]) s'"
| signal: "sem_run c tr s \<Longrightarrow> may_notify w s \<Longrightarrow> sem_run c (tr @ [Signalled]) (sem_signal w s)"
| spurious: "sem_run c tr s \<Longrightarrow> th \<in> asleep s \<Longrightarrow>
    sem_run c (tr @ [Spurious th]) (s\<lparr>asleep := asleep s - {th}, woken := insert th (woken s)\<rparr>)"

definition acquired :: "sem_event list \<Rightarrow> nat" where
  "acquired tr = length (filter (\<lambda>e. case e of Acquired _ \<Rightarrow> True | _ \<Rightarrow> False) tr)"

definition signalled :: "sem_event list \<Rightarrow> nat" where
  "signalled tr = length (filter (\<lambda>e. e = Signalled) tr)"

lemma trace_counts [simp]:
  "acquired [] = 0" "signalled [] = 0"
  "acquired (tr @ [Acquired th]) = Suc (acquired tr)" "acquired (tr @ [Slept th]) = acquired tr"
  "acquired (tr @ [Signalled]) = acquired tr" "acquired (tr @ [Spurious th]) = acquired tr"
  "signalled (tr @ [Acquired th]) = signalled tr" "signalled (tr @ [Slept th]) = signalled tr"
  "signalled (tr @ [Signalled]) = Suc (signalled tr)" "signalled (tr @ [Spurious th]) = signalled tr"
  by (simp_all add: acquired_def signalled_def)

lemma sem_look_cases:
  "sem_look th s = (True, s') \<longleftrightarrow>
     sem_count s \<noteq> 0 \<and> s' = s\<lparr>sem_count := i32 (sem_count s - 1), woken := woken s - {th}\<rparr>"
  "sem_look th s = (False, s') \<longleftrightarrow>
     sem_count s = 0 \<and> s' = s\<lparr>asleep := insert th (asleep s), woken := woken s - {th}\<rparr>"
  by (auto simp: sem_look_def)

lemma sem_run_invariant:
  assumes "sem_run c tr s" and "0 \<le> c" and "c + int (signalled tr) < 2 ^ 31"
  shows "sem_count s = c + int (signalled tr) - int (acquired tr) \<and> 0 \<le> sem_count s \<and>
         finite (asleep s) \<and> finite (woken s) \<and> asleep s \<inter> woken s = {} \<and>
         (asleep s \<noteq> {} \<longrightarrow> sem_count s \<le> int (card (woken s)))"
  using assms
proof (induction rule: sem_run.induct)
  case new
  then show ?case by (simp add: new_semaphore_def)
next
  case (acquire tr s th s')
  then have I: "sem_count s = c + int (signalled tr) - int (acquired tr)" "0 < sem_count s"
    "finite (asleep s)" "finite (woken s)" "asleep s \<inter> woken s = {}"
    "asleep s \<noteq> {} \<longrightarrow> sem_count s \<le> int (card (woken s))"
    by (auto simp: sem_look_cases)
  then have "i32 (sem_count s - 1) = sem_count s - 1" using acquire.prems by (intro i32_id) auto
  moreover have "int (card (woken s)) - 1 \<le> int (card (woken s - {th}))"
    using I(4) by (cases "th \<in> woken s") (auto simp: card_Diff_singleton)
  ultimately show ?case using I acquire.hyps by (auto simp: sem_look_cases)
next
  case (sleep tr s th s')
  then show ?case by (auto simp: sem_look_cases)
next
  case (signal tr s w)
  then have I: "sem_count s = c + int (signalled tr) - int (acquired tr)" "0 \<le> sem_count s"
    "finite (asleep s)" "finite (woken s)" "asleep s \<inter> woken s = {}"
    "asleep s \<noteq> {} \<longrightarrow> sem_count s \<le> int (card (woken s))"
    by auto
  then have "i32 (sem_count s + 1) = sem_count s + 1" using signal.prems by (intro i32_id) auto
  moreover have "w = Some th \<Longrightarrow> card (insert th (woken s)) = Suc (card (woken s))" for th
    using I(4,5) signal.hyps(2) by (auto simp: may_notify_def disjoint_iff)
  ultimately show ?case
    using I signal.hyps by (auto simp: sem_signal_def may_notify_def split: option.splits)
next
  case (spurious tr s th)
  then have "card (insert th (woken s)) = Suc (card (woken s))" by (auto simp: disjoint_iff)
  with spurious show ?case by auto
qed

text \<open>
  The semaphore neither loses nor invents units, under every interleaving of \<open>wait\<close>, \<open>signal\<close> and
  spurious wakeups: the count is the initial one plus the signals less the returns from \<open>wait\<close>, and it
  is never negative, as long as it stays within an \<open>int\<close>.
\<close>

lemma semaphore_conserves_units:
  assumes "sem_run c tr s" and "0 \<le> c" and "c + int (signalled tr) < 2 ^ 31"
  shows "sem_count s + int (acquired tr) = c + int (signalled tr) \<and> 0 \<le> sem_count s"
  using sem_run_invariant [OF assms] by simp

text \<open>A run: thread 7 sleeps, a signal wakes it, thread 8 takes the unit first, a second signal.\<close>

definition demo_trace :: "sem_event list" where
  "demo_trace = [Slept 7, Slept 9, Signalled, Acquired 8, Signalled]"

lemma demo_run_sleeper:
  "sem_run 0 [Slept 7, Slept 9, Signalled] \<lparr>sem_count = 1, asleep = {9}, woken = {7}\<rparr>"
proof -
  have "sem_run 0 [Slept 7] \<lparr>sem_count = 0, asleep = {7}, woken = {}\<rparr>"
    using sem_run.sleep [OF sem_run.new, where th = 7 and c = 0]
    by (simp add: sem_look_cases new_semaphore_def)
  then have "sem_run 0 [Slept 7, Slept 9] \<lparr>sem_count = 0, asleep = {7, 9}, woken = {}\<rparr>"
    using sem_run.sleep [of 0 "[Slept 7]" "\<lparr>sem_count = 0, asleep = {7}, woken = {}\<rparr>" 9]
    by (simp add: sem_look_cases insert_commute)
  then show ?thesis
    using sem_run.signal [of 0 "[Slept 7, Slept 9]" "\<lparr>sem_count = 0, asleep = {7, 9}, woken = {}\<rparr>" "Some 7"]
    by (simp add: may_notify_def sem_signal_def insert_Diff_if)
qed

lemma demo_run:
  "sem_run 0 demo_trace \<lparr>sem_count = 1, asleep = {}, woken = {7, 9}\<rparr>"
proof -
  have "sem_run 0 [Slept 7, Slept 9, Signalled, Acquired 8]
      \<lparr>sem_count = 0, asleep = {9}, woken = {7}\<rparr>"
    using sem_run.acquire [OF demo_run_sleeper, of 8] by (simp add: sem_look_cases)
  from sem_run.signal [OF this, of "Some 9"] show ?thesis
    by (simp add: may_notify_def sem_signal_def demo_trace_def insert_commute)
qed

lemma semaphore_conserves_units_witness:
  "sem_count \<lparr>sem_count = 1, asleep = {}, woken = {7, 9}\<rparr> + int (acquired demo_trace) =
     0 + int (signalled demo_trace)"
  using semaphore_conserves_units [OF demo_run]
  by (simp add: demo_trace_def acquired_def signalled_def)

text \<open>
  C28. No wakeup of the semaphore is lost: whenever units are left while threads sleep in \<open>wait\<close>, some
  thread has been woken and finds a unit when it looks, even though other threads may barge in
  between.
\<close>

theorem semaphore_no_lost_wakeup:
  assumes "sem_run c tr s" and "0 \<le> c" and "c + int (signalled tr) < 2 ^ 31"
    and "asleep s \<noteq> {}" and "sem_count s \<noteq> 0"
  shows "\<exists>th \<in> woken s. fst (sem_look th s) \<and> sem_count s \<le> int (card (woken s))"
proof -
  have "0 < int (card (woken s))" "sem_count s \<le> int (card (woken s))"
    using sem_run_invariant [OF assms(1-3)] assms(4,5) by auto
  then obtain th where "th \<in> woken s" by fastforce
  with assms(5) \<open>sem_count s \<le> int (card (woken s))\<close> show ?thesis by (auto simp: sem_look_def)
qed

lemma semaphore_no_lost_wakeup_witness:
  "\<exists>th \<in> {7 :: nat}. fst (sem_look th \<lparr>sem_count = 1, asleep = {9}, woken = {7}\<rparr>)"
  using semaphore_no_lost_wakeup [OF demo_run_sleeper] by (simp add: signalled_def)

section \<open>The handshake of the constructor\<close>

text \<open>
  The constructor on thread \<open>cr\<close> and \<open>Thread::run\<close> on the new thread \<open>th\<close>, interleaved. The child's
  program counter is the number of the statement it is to execute; at 6 it calls the function it took.
\<close>

datatype creator_pc = Calling | InWait | Constructed

record handshake =
  creator :: creator_pc
  child :: nat
  got :: "closure option"
  hs_world :: thread_world

inductive hs_step ::
  "nat \<Rightarrow> nat \<Rightarrow> nat \<Rightarrow> nat \<Rightarrow> closure option \<Rightarrow> string \<Rightarrow> handshake \<Rightarrow> handshake \<Rightarrow> bool"
  for p cr th handle cb name where
  create: "Thread_create 0 handle p cb name W = Inr W' \<Longrightarrow>
    hs_step p cr th handle cb name \<lparr>creator = Calling, child = 0, got = None, hs_world = W\<rparr>
      \<lparr>creator = InWait, child = 1, got = None, hs_world = W'\<rparr>"
| this: "child h = 1 \<Longrightarrow>
    hs_step p cr th handle cb name h (h\<lparr>child := 2, hs_world := run_set_this p th (hs_world h)\<rparr>)"
| id: "child h = 2 \<Longrightarrow>
    hs_step p cr th handle cb name h (h\<lparr>child := 3, hs_world := run_set_id p th (hs_world h)\<rparr>)"
| name: "child h = 3 \<Longrightarrow>
    hs_step p cr th handle cb name h
      (h\<lparr>child := 4, hs_world := run_set_kernel_name p th (hs_world h)\<rparr>)"
| take: "child h = 4 \<Longrightarrow> run_take_cb p (hs_world h) = (f, W') \<Longrightarrow>
    hs_step p cr th handle cb name h (h\<lparr>child := 5, got := f, hs_world := W'\<rparr>)"
| signal: "child h = 5 \<Longrightarrow> may_notify w (m_semaphore (thread_objs (hs_world h) p)) \<Longrightarrow>
    hs_step p cr th handle cb name h (h\<lparr>child := 6, hs_world := run_signal p w (hs_world h)\<rparr>)"
| look: "creator h = InWait \<Longrightarrow> cr \<notin> asleep (m_semaphore (thread_objs (hs_world h) p)) \<Longrightarrow>
    sem_look cr (m_semaphore (thread_objs (hs_world h) p)) = (ok, s') \<Longrightarrow>
    hs_step p cr th handle cb name h
      (h\<lparr>creator := (if ok then Constructed else InWait),
         hs_world := upd_obj p (\<lambda>t. t\<lparr>m_semaphore := s'\<rparr>) (hs_world h)\<rparr>)"
| wake: "creator h = InWait \<Longrightarrow> s = m_semaphore (thread_objs (hs_world h) p) \<Longrightarrow> cr \<in> asleep s \<Longrightarrow>
    hs_step p cr th handle cb name h
      (h\<lparr>hs_world := upd_obj p (\<lambda>t. t\<lparr>m_semaphore :=
           s\<lparr>asleep := asleep s - {cr}, woken := insert cr (woken s)\<rparr>\<rparr>) (hs_world h)\<rparr>)"

abbreviation hs_start :: "thread_world \<Rightarrow> handshake" where
  "hs_start W \<equiv> \<lparr>creator = Calling, child = 0, got = None, hs_world = W\<rparr>"

definition hs_inv ::
  "nat \<Rightarrow> nat \<Rightarrow> nat \<Rightarrow> nat \<Rightarrow> closure option \<Rightarrow> string \<Rightarrow> handshake \<Rightarrow> bool" where
  "hs_inv p cr th handle cb name h \<longleftrightarrow>
     (let t = thread_objs (hs_world h) p; s = m_semaphore t; k = child h
      in k \<le> 6 \<and> (creator h = Calling \<longleftrightarrow> k = 0) \<and> (creator h = Calling \<longrightarrow> h = hs_start (hs_world h)) \<and>
        (1 \<le> k \<longrightarrow> m_thread t = handle \<and> th_name t = name \<and> asleep s \<subseteq> {cr} \<and> woken s \<subseteq> {cr} \<and>
           sem_count s = (if k = 6 \<and> creator h = InWait then 1 else 0)) \<and>
        (2 \<le> k \<longrightarrow> thread_locals (hs_world h) th = \<lparr>t_thread = Some p, t_thread_name = name\<rparr>) \<and>
        (3 \<le> k \<longrightarrow> m_id t = GetThreadID th) \<and>
        (4 \<le> k \<longrightarrow> kernel_name (hs_world h) th = take 15 name) \<and>
        (1 \<le> k \<and> k \<le> 4 \<longrightarrow> m_cb t = cb) \<and> (5 \<le> k \<longrightarrow> m_cb t = None \<and> got h = cb) \<and>
        (creator h = Constructed \<longrightarrow> k = 6) \<and>
        (creator h = InWait \<and> k = 6 \<longrightarrow> cr \<notin> asleep s))"

lemma hs_inv_step:
  assumes "hs_step p cr th handle cb name h h'" and "hs_inv p cr th handle cb name h"
  shows "hs_inv p cr th handle cb name h'"
  using assms
proof (induction rule: hs_step.induct)
  case (create W W')
  then show ?case by (auto simp: hs_inv_def Thread_create_def new_semaphore_def)
next
  case (this h)
  then show ?case by (auto simp: hs_inv_def Let_def run_set_this_def)
next
  case (id h)
  then show ?case by (auto simp: hs_inv_def Let_def run_set_id_def)
next
  case (name h)
  then show ?case by (auto simp: hs_inv_def Let_def run_set_kernel_name_def)
next
  case (take h f W')
  then show ?case by (auto simp: hs_inv_def Let_def run_take_cb_def)
next
  case (signal h w)
  then show ?case
    by (cases "creator h")
      (auto simp: hs_inv_def Let_def run_signal_def sem_signal_def may_notify_def split: option.splits)
next
  case (look h ok s')
  then show ?case by (auto simp: hs_inv_def Let_def sem_look_def split: if_splits)
next
  case (wake h s)
  then show ?case by (auto simp: hs_inv_def Let_def)
qed

lemma hs_inv_start: "hs_inv p cr th handle cb name (hs_start W)"
  by (simp add: hs_inv_def)

lemma hs_inv_reach:
  "(hs_step p cr th handle cb name)\<^sup>*\<^sup>* (hs_start W) h \<Longrightarrow> hs_inv p cr th handle cb name h"
  by (induction rule: rtranclp_induct) (blast intro: hs_inv_start hs_inv_step)+

text \<open>What the handshake comes to when nothing wakes early: \<open>hs_final\<close> is computed by the steps.\<close>

lemma hs_child_step:
  assumes "hs_inv p cr th handle cb name h" and "creator h = InWait" and "child h < 6"
  obtains h' where "hs_step p cr th handle cb name h h'" and "child h' = Suc (child h)"
    and "creator h' = InWait"
proof -
  let ?s = "m_semaphore (thread_objs (hs_world h) p)"
  have "child h \<in> {1, 2, 3, 4, 5}" using assms by (auto simp: hs_inv_def Let_def)
  moreover have "\<exists>w. may_notify w ?s"
  proof (cases "asleep ?s = {}")
    case True
    then have "may_notify None ?s" by (simp add: may_notify_def)
    then show ?thesis by blast
  next
    case False
    then obtain t where "t \<in> asleep ?s" by blast
    then have "may_notify (Some t) ?s" by (simp add: may_notify_def)
    then show ?thesis by blast
  qed
  then obtain w where "may_notify w ?s" by blast
  ultimately have "\<exists>h'. hs_step p cr th handle cb name h h' \<and> child h' = Suc (child h) \<and> creator h' = InWait"
    using assms(2) hs_step.this [of h p cr th handle cb name] hs_step.id [of h p cr th handle cb name]
      hs_step.name [of h p cr th handle cb name] hs_step.signal [of h w p cr th handle cb name]
      hs_step.take [of h p _ _ cr th handle cb name]
    by (elim insertE emptyE) (fastforce simp: run_take_cb_def)+
  then show thesis using that by blast
qed

lemma hs_look_step:
  assumes "hs_inv p cr th handle cb name h" and "creator h = InWait" and "child h = 6"
  shows "\<exists>h'. hs_step p cr th handle cb name h h' \<and> creator h' = Constructed"
proof -
  let ?s = "m_semaphore (thread_objs (hs_world h) p)"
  have "cr \<notin> asleep ?s" "sem_count ?s = 1" using assms by (auto simp: hs_inv_def Let_def)
  then have "sem_look cr ?s = (True, snd (sem_look cr ?s))" by (auto simp: sem_look_def)
  from hs_step.look [OF assms(2) \<open>cr \<notin> asleep ?s\<close> this, of th handle cb name] show ?thesis
    by (intro exI conjI) auto
qed

lemma hs_progress:
  assumes "hs_inv p cr th handle cb name h" and "creator h = InWait"
  shows "\<exists>h'. (hs_step p cr th handle cb name)\<^sup>*\<^sup>* h h' \<and> creator h' = Constructed"
  using assms
proof (induction "6 - child h" arbitrary: h)
  case 0
  then have "child h = 6" by (simp add: hs_inv_def Let_def)
  from hs_look_step [OF 0(2,3) this] show ?case by blast
next
  case (Suc n)
  then have "child h < 6" by simp
  with Suc(3,4) obtain h' where h': "hs_step p cr th handle cb name h h'" "child h' = Suc (child h)"
    "creator h' = InWait"
    by (rule hs_child_step)
  have "n = 6 - child h'" using Suc(2) h'(2) by simp
  with Suc(1) [of h'] h'(3) hs_inv_step [OF h'(1) Suc(3)] obtain h'' where
    "(hs_step p cr th handle cb name)\<^sup>*\<^sup>* h' h''" "creator h'' = Constructed"
    by auto
  with h'(1) show ?case by (meson converse_rtranclp_into_rtranclp)
qed

text \<open>
  C29. The constructor of \<open>Thread\<close>, in every interleaving with the new thread. When it has returned, the
  new thread has passed its whole prologue: \<open>getID\<close> gives the thread's own id, the thread knows its
  object and its name, the kernel has the first 15 characters of the name, and the function has moved
  from the object into the thread. And it does not hang: as long as it waits there is a way on in which
  it returns, and the new thread either has a statement of its prologue left to execute or has
  signalled, and then the constructor finds the unit when it looks.
\<close>

theorem thread_constructed:
  assumes "(hs_step p cr th handle cb name)\<^sup>*\<^sup>* (hs_start W) h"
  shows "(creator h = Constructed \<longrightarrow>
            child h = 6 \<and> m_id (thread_objs (hs_world h) p) = GetThreadID th \<and>
            m_thread (thread_objs (hs_world h) p) = handle \<and>
            m_cb (thread_objs (hs_world h) p) = None \<and> got h = cb \<and>
            t_thread (thread_locals (hs_world h) th) = Some p \<and> GetName th (hs_world h) = name \<and>
            kernel_name (hs_world h) th = take 15 name) \<and>
         (creator h = InWait \<longrightarrow>
            (\<exists>h'. (hs_step p cr th handle cb name)\<^sup>*\<^sup>* h h' \<and> creator h' = Constructed) \<and>
            (child h < 6 \<or> cr \<notin> asleep (m_semaphore (thread_objs (hs_world h) p)) \<and>
               fst (sem_look cr (m_semaphore (thread_objs (hs_world h) p)))))"
proof (intro conjI impI)
  note inv = hs_inv_reach [OF assms]
  show "\<exists>h'. (hs_step p cr th handle cb name)\<^sup>*\<^sup>* h h' \<and> creator h' = Constructed" if "creator h = InWait"
    by (rule hs_progress [OF inv that])
qed (use hs_inv_reach [OF assms] in \<open>auto simp: hs_inv_def Let_def GetName_def sem_look_def\<close>)

text \<open>A run in which the creator sleeps before the child signals.\<close>

definition thread_world0 :: thread_world where
  "thread_world0 =
     \<lparr>thread_objs = (\<lambda>_. \<lparr>m_id = - 1, m_thread = 0, m_cb = None, th_name = [], m_semaphore = new_semaphore 0\<rparr>),
      thread_locals = (\<lambda>_. foreign_tls), kernel_name = (\<lambda>_. []), pthread_log = []\<rparr>"

lemma hs_demo_wait:
  "\<exists>h. (hs_step p cr th handle cb name)\<^sup>*\<^sup>* (hs_start W) h \<and> creator h = InWait"
  using hs_step.create [of handle p cb name W _ cr th]
  by (auto simp: Thread_create_def intro!: exI r_into_rtranclp)

lemma hs_demo_done:
  "\<exists>h. (hs_step p cr th handle cb name)\<^sup>*\<^sup>* (hs_start W) h \<and> creator h = Constructed"
proof -
  obtain h where h: "(hs_step p cr th handle cb name)\<^sup>*\<^sup>* (hs_start W) h" "creator h = InWait"
    using hs_demo_wait by blast
  with hs_progress [OF hs_inv_reach [OF h(1)] h(2)] show ?thesis by (meson rtranclp_trans)
qed

lemma thread_constructed_witness:
  "\<exists>(h :: handshake) (h' :: handshake). creator h = Constructed \<and> m_id (thread_objs (hs_world h) 0) = 42 \<and>
     kernel_name (hs_world h) 42 = ''a_rather_long_n'' \<and> creator h' = InWait \<and>
     (\<exists>h''. (hs_step 0 1 42 5 None ''w'')\<^sup>*\<^sup>* h' h'' \<and> creator h'' = Constructed)"
proof -
  obtain h where h: "(hs_step 0 1 42 5 (Some (UserFn 3)) ''a_rather_long_name'')\<^sup>*\<^sup>*
      (hs_start thread_world0) h" "creator h = Constructed"
    using hs_demo_done by blast
  obtain h' where h': "(hs_step 0 1 42 5 None ''w'')\<^sup>*\<^sup>* (hs_start thread_world0) h'" "creator h' = InWait"
    using hs_demo_wait by blast
  from thread_constructed [OF h'(1)] h'(2)
  have "\<exists>h''. (hs_step 0 1 42 5 None ''w'')\<^sup>*\<^sup>* h' h'' \<and> creator h'' = Constructed" by blast
  moreover have "m_id (thread_objs (hs_world h) 0) = 42" "kernel_name (hs_world h) 42 = ''a_rather_long_n''"
    using thread_constructed [OF h(1)] h(2) by (simp_all add: GetThreadID_def)
  ultimately show ?thesis using h(2) h'(2) by blast
qed

section \<open>Release of the handle\<close>

text \<open>Some calls of \<open>join\<close> with the results \<open>rts\<close> of \<open>pthread_join\<close>; a failed one throws.\<close>

fun joins :: "int list \<Rightarrow> nat \<Rightarrow> thread_world \<Rightarrow> thread_world result" where
  "joins [] p W = Inr W"
| "joins (rt # rts) p W = and_then (Thread_join rt p W) (joins rts p)"

lemma joins_released:
  "m_thread (thread_objs W p) = 0 \<Longrightarrow> joins rts p W = Inr W"
  by (induction rts) (simp_all add: Thread_join_def)

text \<open>
  The \<open>pthread_t\<close> of a thread is released exactly once: after any calls of \<open>join\<close> that succeed and
  the destructor, the handle was joined once if there was a call and detached otherwise, and nothing
  else was done to it.
\<close>

lemma thread_handle_released_once:
  assumes "m_thread (thread_objs W p) = h" and "h \<noteq> 0" and "joins rts p W = Inr W'"
  shows "pthread_log (Thread_delete p W') =
           pthread_log W @ [if rts = [] then Detach h else Join h] \<and>
         m_thread (thread_objs (Thread_delete p W') p) = 0"
proof (cases rts)
  case Nil
  with assms show ?thesis by (simp add: Thread_delete_def Let_def)
next
  case (Cons rt rts')
  then have "joins rts' p (upd_obj p (\<lambda>t. t\<lparr>m_thread := 0\<rparr>) (W\<lparr>pthread_log := pthread_log W @ [Join h]\<rparr>)) =
      Inr W'"
    using assms by (auto simp: Thread_join_def result_simps split: if_splits)
  with Cons show ?thesis by (auto simp: joins_released Thread_delete_def)
qed

lemma thread_handle_released_once_witness:
  "pthread_log (Thread_delete 0 (upd_obj 0 (\<lambda>t. t\<lparr>m_thread := 0\<rparr>)
      (upd_obj 0 (\<lambda>t. t\<lparr>m_thread := 5\<rparr>) thread_world0\<lparr>pthread_log := [Join 5]\<rparr>))) = [Join 5]"
  using thread_handle_released_once [of "upd_obj 0 (\<lambda>t. t\<lparr>m_thread := 5\<rparr>) thread_world0" 0 5 "[0, 0]"]
  by (simp add: Thread_join_def thread_world0_def)

end
