(* ===== verification/Scheduler.thy ===== *)
theory Scheduler
  imports Fiber Thread
begin

text \<open>
  Model of \<open>src/scheduler/scheduler.h\<close> and \<open>src/scheduler/scheduler.cc\<close>: the task queue, the
  construction, start and stop of a scheduler, and the loop \<open>run\<close> of its workers, one definition per
  critical section or statement. The class is a record that \<open>IOManager\<close> extends; its virtual
  functions \<open>tickle\<close> and \<open>stopping\<close> are arguments of the operations that call them. Every access to
  the queue happens under \<open>m_mutex\<close>, so a critical section is one function.
\<close>

section \<open>Tasks and the queue\<close>

record sched_task =
  st_fiber :: "nat option"
  st_cb :: "closure option"
  st_thread :: int

text \<open>The four constructors with an argument; the pointer versions swap the pointee out.\<close>

datatype sched_arg =
    FiberCopied "nat option"
  | FiberSwapped "nat option"
  | CbCopied "closure option"
  | CbSwapped "closure option"

fun ScheduleTask :: "sched_arg \<Rightarrow> int \<Rightarrow> sched_task" where
  "ScheduleTask (FiberCopied f) thr = \<lparr>st_fiber = f, st_cb = None, st_thread = thr\<rparr>"
| "ScheduleTask (FiberSwapped f) thr = \<lparr>st_fiber = f, st_cb = None, st_thread = thr\<rparr>"
| "ScheduleTask (CbCopied c) thr = \<lparr>st_fiber = None, st_cb = c, st_thread = thr\<rparr>"
| "ScheduleTask (CbSwapped c) thr = \<lparr>st_fiber = None, st_cb = c, st_thread = thr\<rparr>"

fun arg_after :: "sched_arg \<Rightarrow> sched_arg" where
  "arg_after (FiberSwapped f) = FiberSwapped None"
| "arg_after (CbSwapped c) = CbSwapped None"
| "arg_after a = a"

definition empty_task :: sched_task where
  "empty_task = \<lparr>st_fiber = None, st_cb = None, st_thread = - 1\<rparr>"

definition has_work :: "sched_task \<Rightarrow> bool" where
  "has_work t \<longleftrightarrow> st_fiber t \<noteq> None \<or> st_cb t \<noteq> None"

record scheduler =
  m_name :: string
  m_threads :: "nat list"
  m_tasks :: "sched_task list"
  m_threadIDs :: "int list"
  m_threadCount :: "64 word"
  m_activeThreadCount :: "64 word"
  m_idleThreadCount :: "64 word"
  m_useCaller :: bool
  m_schedulerFiber :: "nat option"
  m_rootThread :: int
  m_stopping :: bool

definition hasIdleThreads :: "'a scheduler_scheme \<Rightarrow> bool" where
  "hasIdleThreads s \<longleftrightarrow> 0 < m_idleThreadCount s"

text \<open>\<open>scheduleLock\<close>: the wakeup is decided by the queue as it was before the push.\<close>

definition scheduleLock ::
  "('a scheduler_scheme \<Rightarrow> 'a scheduler_scheme result) \<Rightarrow> sched_arg \<Rightarrow> int \<Rightarrow>
   'a scheduler_scheme \<Rightarrow> 'a scheduler_scheme result" where
  "scheduleLock tickle fc thread s =
     (let need_tickle = (m_tasks s = []);
          task = ScheduleTask fc thread;
          s1 = (if has_work task then s\<lparr>m_tasks := m_tasks s @ [task]\<rparr> else s)
      in if need_tickle then tickle s1 else Inr s1)"

text \<open>
  The virtual functions as the base class defines them. \<open>stopping\<close> gives its answer and the state
  after, since the override in \<open>IOManager\<close> writes a flag.
\<close>

definition Scheduler_tickle :: "'a scheduler_scheme \<Rightarrow> 'a scheduler_scheme result" where
  "Scheduler_tickle s = Inr s"

definition Scheduler_stopping :: "'a scheduler_scheme \<Rightarrow> bool \<times> 'a scheduler_scheme" where
  "Scheduler_stopping s = (m_stopping s \<and> m_tasks s = [] \<and> m_activeThreadCount s = 0, s)"

section \<open>Construction, start and stop\<close>

text \<open>What lies outside the scheduler: the fibers, the threads, the thread-local scheduler pointers.\<close>

record runtime =
  rt_fibers :: fiber_world
  rt_threads :: thread_world
  t_scheduler :: "nat \<Rightarrow> nat option"

definition Scheduler_GetThis :: "nat \<Rightarrow> runtime \<Rightarrow> nat option" where
  "Scheduler_GetThis th R = t_scheduler R th"

definition Scheduler_SetThis :: "nat \<Rightarrow> nat \<Rightarrow> runtime \<Rightarrow> runtime" where
  "Scheduler_SetThis self th R = R\<lparr>t_scheduler := (t_scheduler R)(th := Some self)\<rparr>"

declare Scheduler_GetThis_def [simp] Scheduler_SetThis_def [simp]

text \<open>
  The constructor of scheduler \<open>self\<close> on thread \<open>th\<close>. \<open>junk\<close> is the value the uninitialised
  \<open>m_useCaller\<close> has, \<open>junk2\<close> that of the main fiber's \<open>m_runInScheduler\<close>, \<open>mem\<close> what \<open>malloc\<close> returns.
\<close>

definition new_scheduler :: "bool \<Rightarrow> scheduler" where
  "new_scheduler junk =
     \<lparr>m_name = '''', m_threads = [], m_tasks = [], m_threadIDs = [], m_threadCount = 0,
      m_activeThreadCount = 0, m_idleThreadCount = 0, m_useCaller = junk, m_schedulerFiber = None,
      m_rootThread = - 1, m_stopping = False\<rparr>"

definition Scheduler_construct ::
  "bool \<Rightarrow> bool \<Rightarrow> nat option \<Rightarrow> nat \<Rightarrow> nat \<Rightarrow> 64 word \<Rightarrow> bool \<Rightarrow> string \<Rightarrow> runtime \<Rightarrow>
   (scheduler \<times> runtime) result" where
  "Scheduler_construct junk junk2 mem self th threads use_caller name R =
     assert_that (0 < threads \<and> Scheduler_GetThis th R = None)
       (let s = new_scheduler junk;
            R1 = (Scheduler_SetThis self th R)\<lparr>rt_threads := SetName th (m_name s) (rt_threads R)\<rparr>
        in if use_caller then
             and_then (Fiber.GetThis True junk2 th (rt_fibers R1)) (\<lambda>(_, W1).
             and_then (new_fiber (Some BoundRun) 0 False mem True W1) (\<lambda>(f, W2).
               let s1 = s\<lparr>m_schedulerFiber := Some f, m_threadCount := word_of_int (GetThreadID th),
                          m_threadIDs := m_threadIDs s @ [m_rootThread s]\<rparr>
               in Inr (s1\<lparr>m_threadCount := threads - 1\<rparr>,
                       R1\<lparr>rt_fibers := SetSchedulerFiber th (Some f) W2\<rparr>)))
           else Inr (s\<lparr>m_threadCount := threads\<rparr>, R1))"

definition Scheduler_destruct ::
  "('a scheduler_scheme \<Rightarrow> bool \<times> 'a scheduler_scheme) \<Rightarrow> nat \<Rightarrow> nat \<Rightarrow> 'a scheduler_scheme \<Rightarrow> runtime \<Rightarrow> runtime result" where
  "Scheduler_destruct stopping self th s R =
     assert_that (fst (stopping s))
       (Inr (if Scheduler_GetThis th R = Some self
             then R\<lparr>t_scheduler := (t_scheduler R)(th := None)\<rparr> else R))"

text \<open>
  \<open>start\<close>: \<open>mk i name\<close> is what constructing the thread \<open>i\<close> gives, the object and its \<open>getID\<close>.
\<close>

fun digit :: "nat \<Rightarrow> char" where
  "digit d = char_of (48 + d)"

fun to_string :: "nat \<Rightarrow> string" where
  "to_string n = (if n < 10 then [digit n] else to_string (n div 10) @ [digit (n mod 10)])"

declare to_string.simps [simp del]

fun start_loop ::
  "(nat \<Rightarrow> string \<Rightarrow> (nat \<times> int) result) \<Rightarrow> nat \<Rightarrow> nat \<Rightarrow> 'a scheduler_scheme \<Rightarrow>
   'a scheduler_scheme result" where
  "start_loop mk i 0 s = Inr s"
| "start_loop mk i (Suc n) s =
     and_then (mk i (m_name s @ ''_'' @ to_string i)) (\<lambda>(p, tid).
       start_loop mk (Suc i) n
         (s\<lparr>m_threads := (m_threads s)[i := p], m_threadIDs := m_threadIDs s @ [tid]\<rparr>))"

definition start ::
  "(nat \<Rightarrow> string \<Rightarrow> (nat \<times> int) result) \<Rightarrow> 'a scheduler_scheme \<Rightarrow> 'a scheduler_scheme result" where
  "start mk s =
     (if m_stopping s then Inr s
      else assert_that (m_threads s = [])
             (start_loop mk 0 (unat (m_threadCount s))
               (s\<lparr>m_threads := replicate (unat (m_threadCount s)) 0\<rparr>)))"

text \<open>
  \<open>stop\<close> up to the point where it resumes the scheduler fiber, if there is one: the first component
  is false when the function returned at its first test. \<open>own\<close> is \<open>GetThis() == this\<close>. After the
  scheduler fiber came back, \<open>stop_take_threads\<close> gives the threads it joins.
\<close>

fun tickles :: "('s \<Rightarrow> 's result) \<Rightarrow> nat \<Rightarrow> 's \<Rightarrow> 's result" where
  "tickles tickle 0 s = Inr s"
| "tickles tickle (Suc n) s = and_then (tickle s) (tickles tickle n)"

definition stop_request ::
  "('a scheduler_scheme \<Rightarrow> 'a scheduler_scheme result) \<Rightarrow>
   ('a scheduler_scheme \<Rightarrow> bool \<times> 'a scheduler_scheme) \<Rightarrow> bool \<Rightarrow>
   'a scheduler_scheme \<Rightarrow> (bool \<times> 'a scheduler_scheme) result" where
  "stop_request tickle stopping own s =
     (case stopping s of (quiet, s0) \<Rightarrow>
        if quiet then Inr (False, s0)
        else let s1 = s0\<lparr>m_stopping := True\<rparr>
           in assert_that (m_useCaller s1 = own)
                (and_then (tickles tickle (unat (m_threadCount s1)) s1) (\<lambda>s2.
                 and_then (if m_schedulerFiber s2 \<noteq> None then tickle s2 else Inr s2) (\<lambda>s3.
                   Inr (True, s3)))))"

definition stop_resume ::
  "nat \<Rightarrow> 'a scheduler_scheme \<Rightarrow> fiber_world \<Rightarrow> fiber_world result" where
  "stop_resume th s W =
     (case m_schedulerFiber s of Some f \<Rightarrow> resume True th f W | None \<Rightarrow> Inr W)"

definition stop_take_threads :: "'a scheduler_scheme \<Rightarrow> nat list \<times> 'a scheduler_scheme" where
  "stop_take_threads s = (m_threads s, s\<lparr>m_threads := []\<rparr>)"

section \<open>The loop of a worker\<close>

text \<open>
  The scan of the queue: whether a task for another thread was passed, and the position of the first
  task this thread may take.
\<close>

fun scan :: "int \<Rightarrow> sched_task list \<Rightarrow> bool \<Rightarrow> bool \<times> nat option" where
  "scan me [] tickle_me = (tickle_me, None)"
| "scan me (t # ts) tickle_me =
     (if st_thread t \<noteq> - 1 \<and> st_thread t \<noteq> me
      then (case scan me ts True of (tm, i) \<Rightarrow> (tm, map_option Suc i))
      else (tickle_me, Some 0))"

text \<open>
  The critical section of the loop. After \<open>erase(it)\<close> the source still compares \<open>it\<close> with \<open>end()\<close>;
  the outcome of comparing the invalidated iterator is the argument \<open>stale\<close>.
\<close>

definition run_take ::
  "bool \<Rightarrow> int \<Rightarrow> 'a scheduler_scheme \<Rightarrow> (bool \<times> sched_task \<times> 'a scheduler_scheme) result" where
  "run_take stale me s =
     (case scan me (m_tasks s) False of
        (tm, None) \<Rightarrow> Inr (tm, empty_task, s)
      | (tm, Some i) \<Rightarrow>
          assert_that (has_work (m_tasks s ! i))
            (Inr (tm \<or> stale, m_tasks s ! i,
                  s\<lparr>m_tasks := erase_at i (m_tasks s),
                    m_activeThreadCount := m_activeThreadCount s + 1\<rparr>)))"

definition run_prologue ::
  "bool \<Rightarrow> nat option \<Rightarrow> nat \<Rightarrow> 'a scheduler_scheme \<Rightarrow> fiber_world \<Rightarrow> (nat \<times> fiber_world) result" where
  "run_prologue junk mem th s W =
     and_then (if GetThreadID th \<noteq> m_rootThread s
               then and_then (Fiber.GetThis True junk th W) (\<lambda>(_, W1). Inr W1) else Inr W) (\<lambda>W1.
       new_fiber (Some BoundIdle) 0 True mem True W1)"

datatype worker_pc =
    AtLoop
  | Picked bool sched_task
  | Chosen sched_task
  | Locked nat
  | Fresh nat
  | FreshLocked nat
  | Inside nat
  | Returned nat
  | Leaving
  | IdleEnter
  | IdleCheck
  | IdleWork
  | IdleLeave
  | Ended

text \<open>
  The scheduler with its workers: each has its idle fiber and its place in \<open>run\<close>; \<open>mutex_of\<close> is the
  thread that holds the mutex of a fiber.
\<close>

record 's sys =
  ss :: 's
  sw :: fiber_world
  workers :: "nat \<Rightarrow> (nat \<times> worker_pc) option"
  mutex_of :: "nat \<Rightarrow> nat option"

definition goto :: "nat \<Rightarrow> worker_pc \<Rightarrow> 's sys \<Rightarrow> 's sys" where
  "goto th pc x =
     (case workers x th of
        Some (i, _) \<Rightarrow> x\<lparr>workers := (workers x)(th := Some (i, pc))\<rparr>
      | None \<Rightarrow> x)"

definition blocked :: "worker_pc \<Rightarrow> 's sys \<Rightarrow> bool" where
  "blocked pc x =
     (case pc of
        Chosen t \<Rightarrow> (case st_fiber t of Some f \<Rightarrow> mutex_of x f \<noteq> None | None \<Rightarrow> False)
      | Fresh f \<Rightarrow> mutex_of x f \<noteq> None
      | _ \<Rightarrow> False)"

text \<open>
  The next statement of the worker \<open>th\<close> with idle fiber \<open>i\<close> at \<open>pc\<close>. In \<open>Inside f\<close> and \<open>Ended\<close> it has
  none of its own: the fiber's function runs, or \<open>run\<close> has returned.
\<close>

fun run_stmt ::
  "('a scheduler_scheme \<Rightarrow> 'a scheduler_scheme result) \<Rightarrow>
   ('a scheduler_scheme \<Rightarrow> bool \<times> 'a scheduler_scheme) \<Rightarrow> bool \<Rightarrow> nat option \<Rightarrow> nat \<Rightarrow> nat \<Rightarrow> worker_pc \<Rightarrow> 'a scheduler_scheme sys \<Rightarrow>
   'a scheduler_scheme sys result" where
  "run_stmt tickle stopping stale mem th i AtLoop x =
     and_then (run_take stale (GetThreadID th) (ss x)) (\<lambda>(tickle_me, task, s).
       Inr (goto th (Picked tickle_me task) (x\<lparr>ss := s\<rparr>)))"
| "run_stmt tickle stopping stale mem th i (Picked tickle_me task) x =
     and_then (if tickle_me then tickle (ss x) else Inr (ss x)) (\<lambda>s.
       Inr (goto th (Chosen task) (x\<lparr>ss := s\<rparr>)))"
| "run_stmt tickle stopping stale mem th i (Chosen task) x =
     (case (st_fiber task, st_cb task) of
        (Some f, _) \<Rightarrow> Inr (goto th (Locked f) (x\<lparr>mutex_of := (mutex_of x)(f := Some th)\<rparr>))
      | (None, Some c) \<Rightarrow>
          and_then (new_fiber (Some c) 0 True mem True (sw x)) (\<lambda>(f, W).
            Inr (goto th (Fresh f) (x\<lparr>sw := W\<rparr>)))
      | (None, None) \<Rightarrow>
          if state_of (sw x) i = TERM_state then Inr (goto th Ended x)
          else Inr (goto th IdleEnter
                 (x\<lparr>ss := (ss x)\<lparr>m_idleThreadCount := m_idleThreadCount (ss x) + 1\<rparr>\<rparr>)))"
| "run_stmt tickle stopping stale mem th i (Locked f) x =
     (if state_of (sw x) f \<noteq> TERM_state
      then and_then (resume True th f (sw x)) (\<lambda>W. Inr (goto th (Inside f) (x\<lparr>sw := W\<rparr>)))
      else Inr (goto th (Returned f) x))"
| "run_stmt tickle stopping stale mem th i (Fresh f) x =
     Inr (goto th (FreshLocked f) (x\<lparr>mutex_of := (mutex_of x)(f := Some th)\<rparr>))"
| "run_stmt tickle stopping stale mem th i (FreshLocked f) x =
     and_then (resume True th f (sw x)) (\<lambda>W. Inr (goto th (Inside f) (x\<lparr>sw := W\<rparr>)))"
| "run_stmt tickle stopping stale mem th i (Inside f) x = Inr x"
| "run_stmt tickle stopping stale mem th i (Returned f) x =
     Inr (goto th Leaving (x\<lparr>mutex_of := (mutex_of x)(f := None)\<rparr>))"
| "run_stmt tickle stopping stale mem th i Leaving x =
     Inr (goto th AtLoop
       (x\<lparr>ss := (ss x)\<lparr>m_activeThreadCount := m_activeThreadCount (ss x) - 1\<rparr>\<rparr>))"
| "run_stmt tickle stopping stale mem th i IdleEnter x =
     and_then (resume True th i (sw x)) (\<lambda>W. Inr (goto th IdleCheck (x\<lparr>sw := W\<rparr>)))"
| "run_stmt tickle stopping stale mem th i IdleCheck x =
     (case stopping (ss x) of (quiet, s) \<Rightarrow>
        if quiet
        then and_then (main_func_return True th i (sw x)) (\<lambda>W.
               Inr (goto th IdleLeave (x\<lparr>ss := s, sw := W\<rparr>)))
        else Inr (goto th IdleWork (x\<lparr>ss := s\<rparr>)))"
| "run_stmt tickle stopping stale mem th i IdleWork x =
     and_then (yield True th i (sw x)) (\<lambda>W. Inr (goto th IdleLeave (x\<lparr>sw := W\<rparr>)))"
| "run_stmt tickle stopping stale mem th i IdleLeave x =
     Inr (goto th AtLoop (x\<lparr>ss := (ss x)\<lparr>m_idleThreadCount := m_idleThreadCount (ss x) - 1\<rparr>\<rparr>))"
| "run_stmt tickle stopping stale mem th i Ended x = Inr x"

end
