(* ===== verification/Scheduler_Steps.thy ===== *)
theory Scheduler_Steps
  imports Scheduler Fiber_Spec
begin

text \<open>
  The scheduler running: worker threads that execute \<open>Scheduler::run\<close> statement by statement, the
  functions of the fibers they are in, and any other code that schedules, creates or resets fibers,
  in every interleaving. The invariant of that system is proved once for every pair of \<open>tickle\<close> and
  \<open>stopping\<close> that keeps the contract \<open>virtual_ops\<close>.
\<close>

section \<open>Steps\<close>

text \<open>
  A fiber is private while only one worker knows it: the worker's idle fiber, and the fiber it has
  made for a callback and not entered yet. The rest of the program handles plain fibers.
\<close>

fun owned :: "nat \<Rightarrow> worker_pc \<Rightarrow> nat set" where
  "owned i (Fresh f) = {i, f}"
| "owned i (FreshLocked f) = {i, f}"
| "owned i pc = {i}"

definition plain :: "'s sys \<Rightarrow> nat \<Rightarrow> bool" where
  "plain x f \<longleftrightarrow> is_task (sw x) f \<and> (\<forall>th i pc. workers x th = Some (i, pc) \<longrightarrow> f \<notin> owned i pc)"

datatype action = Pushed sched_task | Took nat sched_task

fun took :: "nat \<Rightarrow> worker_pc \<Rightarrow> (nat \<times> worker_pc) option \<Rightarrow> action list" where
  "took th AtLoop (Some (i, Picked tm t)) = (if has_work t then [Took th t] else [])"
| "took th pc w = []"

text \<open>
  \<open>act s ts s'\<close> is what the idle functions, between their test and their yield, and the callers of the
  public operations of a derived class do to the scheduler, at any moment: they may schedule the tasks \<open>ts\<close>.
  The system makes the statements of \<open>run\<close> explicit; an operation that fails does not return and is no
  step. A worker is started on a thread that executes on its own stack, and there are fewer threads than a
  \<open>size_t\<close> counts. Fibers are scheduled and reset when they are \<open>plain\<close>, and the function of a fiber
  yields or ends but resumes no other.
\<close>

inductive sched_step ::
  "('a scheduler_scheme \<Rightarrow> 'a scheduler_scheme result) \<Rightarrow> ('a scheduler_scheme \<Rightarrow> bool \<times> 'a scheduler_scheme) \<Rightarrow>
   ('a scheduler_scheme \<Rightarrow> sched_task list \<Rightarrow> 'a scheduler_scheme \<Rightarrow> bool) \<Rightarrow>
   'a scheduler_scheme sys \<Rightarrow> action list \<Rightarrow> 'a scheduler_scheme sys \<Rightarrow> bool"
  for tickle stopping act where
  spawn: "workers x th = None \<Longrightarrow> flow_of (sw x) th = Native th \<Longrightarrow>
    card (dom (workers x)) < 2 ^ 64 - 1 \<Longrightarrow> run_prologue junk mem th (ss x) (sw x) = Inr (i, W) \<Longrightarrow>
    sched_step tickle stopping act x []
      (x\<lparr>sw := W, workers := (workers x)(th := Some (i, AtLoop))\<rparr>)"
| stmt: "workers x th = Some (i, pc) \<Longrightarrow> pc \<noteq> Ended \<Longrightarrow> \<forall>f. pc \<noteq> Inside f \<Longrightarrow> \<not> blocked pc x \<Longrightarrow>
    run_stmt tickle stopping stale mem th i pc x = Inr x' \<Longrightarrow>
    sched_step tickle stopping act x (took th pc (workers x' th)) x'"
| fiber_yield: "workers x th = Some (i, Inside f) \<Longrightarrow> yield True th f (sw x) = Inr W \<Longrightarrow>
    sched_step tickle stopping act x [] (goto th (Returned f) (x\<lparr>sw := W\<rparr>))"
| fiber_end: "workers x th = Some (i, Inside f) \<Longrightarrow> main_func_return True th f (sw x) = Inr W \<Longrightarrow>
    sched_step tickle stopping act x [] (goto th (Returned f) (x\<lparr>sw := W\<rparr>))"
| operation: "act (ss x) ts s \<Longrightarrow>
    \<forall>t \<in> set ts. \<forall>f. st_fiber t = Some f \<longrightarrow> plain x f \<Longrightarrow>
    sched_step tickle stopping act x (map Pushed ts) (x\<lparr>ss := s\<rparr>)"
| schedule: "task = ScheduleTask fc thread \<Longrightarrow> \<forall>f. st_fiber task = Some f \<longrightarrow> plain x f \<Longrightarrow>
    scheduleLock tickle fc thread (ss x) = Inr s \<Longrightarrow>
    sched_step tickle stopping act x (if has_work task then [Pushed task] else []) (x\<lparr>ss := s\<rparr>)"
| stop: "stop_request tickle stopping own (ss x) = Inr (b, s) \<Longrightarrow>
    sched_step tickle stopping act x [] (x\<lparr>ss := s\<rparr>)"
| attach: "workers x th = None \<Longrightarrow> Fiber.GetThis True junk th (sw x) = Inr (f, W) \<Longrightarrow>
    sched_step tickle stopping act x [] (x\<lparr>sw := W\<rparr>)"
| create: "new_fiber cb sz True mem True (sw x) = Inr (f, W) \<Longrightarrow>
    sched_step tickle stopping act x [] (x\<lparr>sw := W\<rparr>)"
| reset: "plain x f \<Longrightarrow> reset_fiber True f cb (sw x) = Inr W \<Longrightarrow>
    sched_step tickle stopping act x [] (x\<lparr>sw := W\<rparr>)"

text \<open>A run from a scheduler as the constructor leaves it.\<close>

definition sys_start :: "'a scheduler_scheme \<Rightarrow> 'a scheduler_scheme sys" where
  "sys_start s = \<lparr>ss = s, sw = init_world, workers = (\<lambda>_. None), mutex_of = (\<lambda>_. None)\<rparr>"

definition sched_fresh :: "'a scheduler_scheme \<Rightarrow> bool" where
  "sched_fresh s \<longleftrightarrow> m_tasks s = [] \<and> m_activeThreadCount s = 0 \<and> m_idleThreadCount s = 0 \<and>
     m_rootThread s = - 1"

inductive sched_run for tickle stopping act s0 where
  start: "sched_run tickle stopping act s0 [] (sys_start s0)"
| step: "sched_run tickle stopping act s0 tr x \<Longrightarrow> sched_step tickle stopping act x as x' \<Longrightarrow>
    sched_run tickle stopping act s0 (tr @ as) x'"

section \<open>What the fiber operations leave alone\<close>

lemma new_fiber_frame:
  assumes "fw_inv W" and "new_fiber cb sz r mem True W = Inr (f, W')"
  shows "f = next_fiber W" and "\<not> is_task W f" and "is_task W' g \<longleftrightarrow> g = f \<or> is_task W g"
    and "tls W' = tls W" and "flow_of W' = flow_of W" and "g \<noteq> f \<Longrightarrow> fibers W' g = fibers W g"
    and "state_of W' f = READY"
proof -
  have "t_scheduler_fiber (tls W t) \<noteq> Some (next_fiber W)" for t
    using fw_inv_thread [OF assms(1), of t] by (auto simp: thread_ok_def split: option.splits)
  then show "f = next_fiber W" and "\<not> is_task W f" and "is_task W' g \<longleftrightarrow> g = f \<or> is_task W g"
    and "tls W' = tls W" and "flow_of W' = flow_of W" and "g \<noteq> f \<Longrightarrow> fibers W' g = fibers W g"
    and "state_of W' f = READY"
    using assms(2) by (auto simp: new_fiber_Inr is_task_def less_Suc_eq)
qed

lemma GetThis_frame:
  assumes inv: "fw_inv W" and r: "Fiber.GetThis True junk th W = Inr (f, W')"
  shows "is_task W' g = is_task W g" and "flow_of W' = flow_of W"
    and "is_task W g \<Longrightarrow> fibers W' g = fibers W g"
    and "t \<noteq> th \<Longrightarrow> tls W' t = tls W t"
    and "t_scheduler_fiber (tls W th) \<noteq> None \<Longrightarrow> W' = W"
    and "t_scheduler_fiber (tls W' th) \<noteq> None"
proof -
  have th: "(t_fiber (tls W th) = None) = (t_scheduler_fiber (tls W th) = None)"
    using fw_inv_thread [OF inv, of th] by (auto simp: thread_ok_def split: option.splits flow.splits)
  have bound: "t_scheduler_fiber (tls W t) \<noteq> Some (next_fiber W)" for t
    using fw_inv_thread [OF inv, of t] by (auto simp: thread_ok_def split: option.splits)
  show "is_task W' g = is_task W g"
  proof (cases "t_fiber (tls W th)")
    case None
    have "t_scheduler_fiber (tls W' t) =
        (if t = th then Some (next_fiber W) else t_scheduler_fiber (tls W t))" for t
      using r None by (auto simp: GetThis_def new_main_fiber_def Let_def SetThis_def)
    then have "(\<forall>t. t_scheduler_fiber (tls W' t) \<noteq> Some g) \<longleftrightarrow>
        g \<noteq> next_fiber W \<and> (\<forall>t. t_scheduler_fiber (tls W t) \<noteq> Some g)"
      using th None by (metis option.distinct(1) option.inject)
    moreover have "next_fiber W' = Suc (next_fiber W)"
      using r None by (auto simp: GetThis_def new_main_fiber_def Let_def SetThis_def)
    ultimately show ?thesis by (auto simp: is_task_def less_Suc_eq)
  qed (use r in \<open>auto simp: GetThis_def\<close>)
  show "flow_of W' = flow_of W" "is_task W g \<Longrightarrow> fibers W' g = fibers W g"
    "t \<noteq> th \<Longrightarrow> tls W' t = tls W t" "t_scheduler_fiber (tls W th) \<noteq> None \<Longrightarrow> W' = W"
    "t_scheduler_fiber (tls W' th) \<noteq> None"
    using r th by (auto simp: GetThis_def new_main_fiber_def Let_def SetThis_def is_task_def
        split: option.splits)
qed

lemma resumed_frame:
  assumes "t_scheduler_fiber (tls W th) = Some m"
  shows "is_task (resumed th m f W) g = is_task W g"
    and "t_scheduler_fiber (tls (resumed th m f W) t) = t_scheduler_fiber (tls W t)"
    and "flow_of (resumed th m f W) = (flow_of W)(th := OnStack f)"
    and "g \<noteq> f \<Longrightarrow> state_of (resumed th m f W) g = state_of W g"
  by (auto simp: resumed_def intro!: is_task_cong)

lemma yielded_frame:
  "is_task (yielded th m f (upd_fiber f upd W)) g = is_task W g"
  "t_scheduler_fiber (tls (yielded th m f (upd_fiber f upd W)) t) = t_scheduler_fiber (tls W t)"
  "flow_of (yielded th m f (upd_fiber f upd W)) = (flow_of W)(th := Native th)"
  "g \<noteq> f \<Longrightarrow> state_of (yielded th m f (upd_fiber f upd W)) g = state_of W g"
  by (auto simp: yielded_def intro!: is_task_cong)

end
