(* ===== verification/Scheduler_Inv.thy ===== *)
theory Scheduler_Inv
  imports Scheduler_Steps
begin

text \<open>
  The invariant of a running scheduler: who executes on which stack, who holds which fiber's mutex,
  what the two atomic counters count, and which fibers the queue may name. One lemma covers the steps
  of a worker, one those of everybody else.
\<close>

section \<open>The invariant\<close>

fun holds :: "worker_pc \<Rightarrow> nat option" where
  "holds (Locked f) = Some f"
| "holds (FreshLocked f) = Some f"
| "holds (Inside f) = Some f"
| "holds (Returned f) = Some f"
| "holds pc = None"

fun stack_at :: "nat \<Rightarrow> nat \<Rightarrow> worker_pc \<Rightarrow> flow" where
  "stack_at th i (Inside f) = OnStack f"
| "stack_at th i IdleCheck = OnStack i"
| "stack_at th i IdleWork = OnStack i"
| "stack_at th i pc = Native th"

fun busy :: "worker_pc \<Rightarrow> bool" where
  "busy (Picked tm t) = has_work t"
| "busy (Chosen t) = has_work t"
| "busy (Locked f) = True"
| "busy (Fresh f) = True"
| "busy (FreshLocked f) = True"
| "busy (Inside f) = True"
| "busy (Returned f) = True"
| "busy Leaving = True"
| "busy pc = False"

fun idling :: "worker_pc \<Rightarrow> bool" where
  "idling IdleEnter = True"
| "idling IdleCheck = True"
| "idling IdleWork = True"
| "idling IdleLeave = True"
| "idling pc = False"

fun mentions :: "worker_pc \<Rightarrow> nat set" where
  "mentions (Picked tm t) = set_option (st_fiber t)"
| "mentions (Chosen t) = set_option (st_fiber t)"
| "mentions (Locked f) = {f}"
| "mentions (Inside f) = {f}"
| "mentions (Returned f) = {f}"
| "mentions pc = {}"

fun needs_ready :: "nat \<Rightarrow> worker_pc \<Rightarrow> nat set" where
  "needs_ready i IdleEnter = {i}"
| "needs_ready i (Fresh f) = {f}"
| "needs_ready i (FreshLocked f) = {f}"
| "needs_ready i pc = {}"

fun distinct_owned :: "nat \<Rightarrow> worker_pc \<Rightarrow> bool" where
  "distinct_owned i (Fresh f) = (f \<noteq> i)"
| "distinct_owned i (FreshLocked f) = (f \<noteq> i)"
| "distinct_owned i pc = True"

definition worker_ok :: "'s sys \<Rightarrow> nat \<Rightarrow> nat \<Rightarrow> worker_pc \<Rightarrow> bool" where
  "worker_ok x th i pc \<longleftrightarrow>
     t_scheduler_fiber (tls (sw x) th) \<noteq> None \<and> flow_of (sw x) th = stack_at th i pc \<and>
     (\<forall>f \<in> owned i pc. is_task (sw x) f) \<and> distinct_owned i pc \<and>
     (\<forall>f \<in> mentions pc. plain x f) \<and> (\<forall>f \<in> needs_ready i pc. state_of (sw x) f = READY) \<and>
     (pc = Ended \<longrightarrow> state_of (sw x) i = TERM_state)"

definition members :: "(worker_pc \<Rightarrow> bool) \<Rightarrow> 's sys \<Rightarrow> nat set" where
  "members P x = {th. \<exists>i pc. workers x th = Some (i, pc) \<and> P pc}"

definition queue_ok :: "'a scheduler_scheme sys \<Rightarrow> bool" where
  "queue_ok x \<longleftrightarrow>
     (\<forall>t \<in> set (m_tasks (ss x)). has_work t \<and> (\<forall>f. st_fiber t = Some f \<longrightarrow> plain x f))"

definition counters_ok :: "'a scheduler_scheme sys \<Rightarrow> bool" where
  "counters_ok x \<longleftrightarrow>
     m_activeThreadCount (ss x) = of_nat (card (members busy x)) \<and>
     m_idleThreadCount (ss x) = of_nat (card (members idling x))"

definition sys_inv :: "'a scheduler_scheme sys \<Rightarrow> bool" where
  "sys_inv x \<longleftrightarrow>
     fw_inv (sw x) \<and> m_rootThread (ss x) = - 1 \<and>
     finite (dom (workers x)) \<and> card (dom (workers x)) < 2 ^ 64 \<and>
     (\<forall>th. workers x th = None \<longrightarrow> flow_of (sw x) th = Native th) \<and>
     (\<forall>th i pc. workers x th = Some (i, pc) \<longrightarrow> worker_ok x th i pc) \<and>
     (\<forall>th1 th2 i1 i2 p1 p2 f. workers x th1 = Some (i1, p1) \<longrightarrow> workers x th2 = Some (i2, p2) \<longrightarrow>
        f \<in> owned i1 p1 \<longrightarrow> f \<in> owned i2 p2 \<longrightarrow> th1 = th2) \<and>
     (\<forall>f th. mutex_of x f = Some th \<longleftrightarrow> (\<exists>i pc. workers x th = Some (i, pc) \<and> holds pc = Some f)) \<and>
     queue_ok x \<and> counters_ok x"

lemma sys_invD:
  assumes "sys_inv x"
  shows sys_fw: "fw_inv (sw x)"
    and sys_root: "m_rootThread (ss x) = - 1"
    and sys_finite: "finite (dom (workers x))"
    and sys_card: "card (dom (workers x)) < 2 ^ 64"
    and sys_free: "workers x th = None \<Longrightarrow> flow_of (sw x) th = Native th"
    and sys_worker: "workers x th = Some (i, pc) \<Longrightarrow> worker_ok x th i pc"
    and sys_owned: "workers x th1 = Some (i1, p1) \<Longrightarrow> workers x th2 = Some (i2, p2) \<Longrightarrow>
        f \<in> owned i1 p1 \<Longrightarrow> f \<in> owned i2 p2 \<Longrightarrow> th1 = th2"
    and sys_mutex: "mutex_of x f = Some th \<longleftrightarrow> (\<exists>i pc. workers x th = Some (i, pc) \<and> holds pc = Some f)"
    and sys_queue: "queue_ok x"
    and sys_counters: "counters_ok x"
  using assms unfolding sys_inv_def by blast+

lemma sys_invI:
  assumes "fw_inv (sw x)" and "m_rootThread (ss x) = - 1"
    and "finite (dom (workers x))" and "card (dom (workers x)) < 2 ^ 64"
    and "\<And>th. workers x th = None \<Longrightarrow> flow_of (sw x) th = Native th"
    and "\<And>th i pc. workers x th = Some (i, pc) \<Longrightarrow> worker_ok x th i pc"
    and "\<And>th1 th2 i1 i2 p1 p2 f. workers x th1 = Some (i1, p1) \<Longrightarrow> workers x th2 = Some (i2, p2) \<Longrightarrow>
        f \<in> owned i1 p1 \<Longrightarrow> f \<in> owned i2 p2 \<Longrightarrow> th1 = th2"
    and "\<And>f th. mutex_of x f = Some th \<longleftrightarrow> (\<exists>i pc. workers x th = Some (i, pc) \<and> holds pc = Some f)"
    and "queue_ok x" and "counters_ok x"
  shows "sys_inv x"
  unfolding sys_inv_def by (intro conjI allI impI) (erule (3) assms(7) | erule assms(5,6) | rule assms(1-4,8-10))+

lemma owned_self [simp]: "i \<in> owned i pc"
  by (cases pc) auto

lemma plain_task: "plain x f \<Longrightarrow> is_task (sw x) f"
  by (simp add: plain_def)

lemma plain_owned: "plain x f \<Longrightarrow> workers x th = Some (i, pc) \<Longrightarrow> f \<notin> owned i pc"
  by (auto simp: plain_def)

section \<open>Counting workers\<close>

lemma members_finite: "finite (dom (workers x)) \<Longrightarrow> finite (members P x)"
  by (rule finite_subset [of _ "dom (workers x)"]) (auto simp: members_def)

lemma card_members_le: "finite (dom (workers x)) \<Longrightarrow> card (members P x) \<le> card (dom (workers x))"
  by (rule card_mono) (auto simp: members_def)

lemma members_update:
  assumes "finite (dom (workers x))" and "workers x th = Some (i, pc)"
    and "workers x' = (workers x)(th := Some (i, pc'))"
  shows "(of_nat (card (members P x')) :: 64 word) =
           of_nat (card (members P x)) + (if P pc' then 1 else 0) - (if P pc then 1 else 0)"
proof -
  define M where "M = members P x - {th}"
  have "finite M" "th \<notin> M" using members_finite [OF assms(1)] by (simp_all add: M_def)
  moreover have "members P x = (if P pc then insert th M else M)"
    and "members P x' = (if P pc' then insert th M else M)"
    using assms(2,3) by (auto simp: M_def members_def split: if_splits)
  ultimately have "card (members P x) = card M + (if P pc then 1 else 0)"
    and "card (members P x') = card M + (if P pc' then 1 else 0)"
    by (auto split: if_splits)
  then show ?thesis by simp
qed

lemma members_zero:
  assumes "sys_inv x" and "(of_nat (card (members P x)) :: 64 word) = 0"
  shows "members P x = {}"
proof -
  have "card (members P x) < 2 ^ 64"
    using card_members_le [of x P] sys_finite [OF assms(1)] sys_card [OF assms(1)] by simp
  moreover have "2 ^ 64 dvd card (members P x)" using assms(2) by (simp add: word_of_nat_eq_0_iff)
  ultimately have "card (members P x) = 0" by (metis dvd_imp_le not_less zero_less_iff_neq_zero)
  then show ?thesis using members_finite [OF sys_finite [OF assms(1)], of P] by simp
qed

section \<open>A step of one worker\<close>

text \<open>
  The worker \<open>th\<close> goes from \<open>pc\<close> to \<open>pc'\<close>. It changes the state of its own fibers only, and takes
  fibers it already had, found in the queue, or has just made.
\<close>

definition worker_moves ::
  "nat \<Rightarrow> nat \<Rightarrow> worker_pc \<Rightarrow> worker_pc \<Rightarrow> 'a scheduler_scheme sys \<Rightarrow> 'a scheduler_scheme sys \<Rightarrow> bool" where
  "worker_moves th i pc pc' x x' \<longleftrightarrow>
     workers x th = Some (i, pc) \<and> workers x' = (workers x)(th := Some (i, pc')) \<and>
     fw_inv (sw x') \<and>
     (\<forall>f. is_task (sw x) f \<longrightarrow> is_task (sw x') f) \<and>
     (\<forall>t. t_scheduler_fiber (tls (sw x') t) = t_scheduler_fiber (tls (sw x) t)) \<and>
     flow_of (sw x') = (flow_of (sw x))(th := stack_at th i pc') \<and>
     (\<forall>f. is_task (sw x) f \<longrightarrow> state_of (sw x') f = state_of (sw x) f \<or>
        holds pc = Some f \<or> f \<in> owned i pc) \<and>
     (\<forall>f. mutex_of x' f = (if holds pc' = Some f then Some th
                           else if holds pc = Some f then None else mutex_of x f)) \<and>
     (\<forall>f. holds pc' = Some f \<longrightarrow> holds pc = Some f \<or> mutex_of x f = None) \<and>
     (\<forall>f \<in> owned i pc'. f \<in> owned i pc \<or> \<not> is_task (sw x) f \<and> is_task (sw x') f) \<and>
     distinct_owned i pc' \<and>
     (\<forall>f \<in> mentions pc'. f \<in> mentions pc \<or> f \<in> owned i pc - owned i pc' \<or>
        (\<exists>t \<in> set (m_tasks (ss x)). st_fiber t = Some f)) \<and>
     (\<forall>f \<in> needs_ready i pc'. state_of (sw x') f = READY) \<and>
     (pc' = Ended \<longrightarrow> state_of (sw x') i = TERM_state) \<and>
     m_rootThread (ss x') = m_rootThread (ss x) \<and>
     set (m_tasks (ss x')) \<subseteq> set (m_tasks (ss x)) \<and>
     m_activeThreadCount (ss x') =
       m_activeThreadCount (ss x) + (if busy pc' then 1 else 0) - (if busy pc then 1 else 0) \<and>
     m_idleThreadCount (ss x') =
       m_idleThreadCount (ss x) + (if idling pc' then 1 else 0) - (if idling pc then 1 else 0)"

lemma plain_moves:
  assumes inv: "sys_inv x" and mv: "worker_moves th i pc pc' x x'" and f: "plain x f"
  shows "plain x' f"
proof -
  have task: "is_task (sw x) f" by (rule plain_task [OF f])
  have "f \<notin> owned i' p'" if "workers x' th' = Some (i', p')" for th' i' p'
  proof (cases "th' = th")
    case True
    then have "i' = i" "p' = pc'" using that mv by (auto simp: worker_moves_def)
    then show ?thesis using mv task plain_owned [OF f, of th i pc] by (auto simp: worker_moves_def)
  next
    case False
    then have "workers x th' = Some (i', p')" using that mv by (simp add: worker_moves_def)
    then show ?thesis by (rule plain_owned [OF f])
  qed
  with mv task show ?thesis by (auto simp: plain_def worker_moves_def)
qed

lemma plain_owned_moves:
  assumes inv: "sys_inv x" and mv: "worker_moves th i pc pc' x x'"
    and f: "f \<in> owned i pc - owned i pc'"
  shows "plain x' f"
proof -
  have w: "workers x th = Some (i, pc)" using mv by (simp add: worker_moves_def)
  have task: "is_task (sw x) f" using sys_worker [OF inv w] f by (auto simp: worker_ok_def)
  have "f \<notin> owned i' p'" if "workers x' th' = Some (i', p')" for th' i' p'
  proof (cases "th' = th")
    case True
    then show ?thesis using that mv f by (auto simp: worker_moves_def)
  next
    case False
    then have "workers x th' = Some (i', p')" using that mv by (simp add: worker_moves_def)
    with sys_owned [OF inv w this] f False show ?thesis by blast
  qed
  with mv task show ?thesis by (auto simp: plain_def worker_moves_def)
qed

lemma other_worker_ok:
  assumes inv: "sys_inv x" and mv: "worker_moves th i pc pc' x x'" and "t \<noteq> th"
    and w: "workers x t = Some (j, p)"
  shows "worker_ok x' t j p"
proof -
  have wth: "workers x th = Some (i, pc)" using mv by (simp add: worker_moves_def)
  have ok: "worker_ok x t j p" by (rule sys_worker [OF inv w])
  have foreign: "f \<in> owned j p \<Longrightarrow> f \<notin> owned i pc" for f
    using sys_owned [OF inv w wth] \<open>t \<noteq> th\<close> by blast
  have held: "holds pc = Some f \<Longrightarrow> f \<notin> owned j p" for f
    using sys_worker [OF inv wth] plain_owned [OF _ w] foreign
    by (cases pc) (auto simp: worker_ok_def)
  have same: "f \<in> owned j p \<Longrightarrow> state_of (sw x') f = state_of (sw x) f" for f
    using mv ok foreign [of f] held [of f] by (auto simp: worker_moves_def worker_ok_def)
  have "needs_ready j p \<subseteq> owned j p" by (cases p) auto
  with ok same mv \<open>t \<noteq> th\<close> plain_moves [OF inv mv] show ?thesis
    unfolding worker_ok_def by (auto simp: worker_moves_def)
qed

lemma own_worker_ok:
  assumes inv: "sys_inv x" and mv: "worker_moves th i pc pc' x x'"
  shows "worker_ok x' th i pc'"
proof -
  have w: "workers x th = Some (i, pc)" using mv by (simp add: worker_moves_def)
  have ok: "worker_ok x th i pc" by (rule sys_worker [OF inv w])
  have "plain x' f" if "f \<in> mentions pc'" for f
  proof -
    from that mv consider "f \<in> mentions pc" | "f \<in> owned i pc - owned i pc'"
      | "\<exists>t \<in> set (m_tasks (ss x)). st_fiber t = Some f"
      unfolding worker_moves_def by blast
    then show ?thesis
    proof cases
      case 1
      with ok plain_moves [OF inv mv] show ?thesis by (simp add: worker_ok_def)
    next
      case 2
      then show ?thesis by (rule plain_owned_moves [OF inv mv])
    next
      case 3
      with sys_queue [OF inv] plain_moves [OF inv mv] show ?thesis by (auto simp: queue_ok_def)
    qed
  qed
  with ok mv show ?thesis unfolding worker_ok_def by (auto simp: worker_moves_def)
qed

lemma owned_moves:
  assumes inv: "sys_inv x" and mv: "worker_moves th i pc pc' x x'"
    and "workers x' t1 = Some (i1, p1)" "workers x' t2 = Some (i2, p2)" "f \<in> owned i1 p1" "f \<in> owned i2 p2"
  shows "t1 = t2"
proof -
  have w: "workers x th = Some (i, pc)" and w': "workers x' = (workers x)(th := Some (i, pc'))"
    using mv by (simp_all add: worker_moves_def)
  have old: "f \<in> owned i pc' \<Longrightarrow> is_task (sw x) f \<Longrightarrow> f \<in> owned i pc"
    using mv by (auto simp: worker_moves_def)
  have tasks: "workers x t = Some (j, p) \<Longrightarrow> f \<in> owned j p \<Longrightarrow> is_task (sw x) f" for t j p
    using sys_worker [OF inv] by (auto simp: worker_ok_def)
  show ?thesis
    using assms(3-6) sys_owned [OF inv, of t1 i1 p1 t2 i2 p2 f] sys_owned [OF inv w, of t1 i1 p1 f]
      sys_owned [OF inv w, of t2 i2 p2 f] old tasks [of t1 i1 p1] tasks [of t2 i2 p2]
    by (auto simp: w' split: if_splits)
qed

lemma mutex_moves:
  assumes inv: "sys_inv x" and mv: "worker_moves th i pc pc' x x'"
  shows "mutex_of x' f = Some t \<longleftrightarrow> (\<exists>j p. workers x' t = Some (j, p) \<and> holds p = Some f)"
proof -
  have w: "workers x th = Some (i, pc)" and w': "workers x' = (workers x)(th := Some (i, pc'))"
    using mv by (simp_all add: worker_moves_def)
  have new: "mutex_of x' f = (if holds pc' = Some f then Some th
      else if holds pc = Some f then None else mutex_of x f)"
    and got: "holds pc' = Some f \<Longrightarrow> holds pc = Some f \<or> mutex_of x f = None"
    using mv by (simp_all add: worker_moves_def)
  have mine: "mutex_of x f = Some th \<longleftrightarrow> holds pc = Some f"
    using sys_mutex [OF inv, of f th] w by simp
  show ?thesis
  proof (cases "t = th")
    case True
    with new mine show ?thesis by (simp add: w')
  next
    case False
    with sys_mutex [OF inv, of f t] have
      "(\<exists>j p. workers x' t = Some (j, p) \<and> holds p = Some f) \<longleftrightarrow> mutex_of x f = Some t"
      by (simp add: w')
    with new got mine False show ?thesis by (simp split: if_splits) (metis option.inject option.distinct(1))
  qed
qed

lemma sys_inv_moves:
  assumes inv: "sys_inv x" and mv: "worker_moves th i pc pc' x x'"
  shows "sys_inv x'"
proof -
  have w: "workers x th = Some (i, pc)" and w': "workers x' = (workers x)(th := Some (i, pc'))"
    using mv by (simp_all add: worker_moves_def)
  have dom: "dom (workers x') = dom (workers x)" using w w' by auto
  have ok: "worker_ok x' t j p" if "workers x' t = Some (j, p)" for t j p
    using that own_worker_ok [OF inv mv] other_worker_ok [OF inv mv, of t j p]
    by (cases "t = th") (auto simp: w')
  have queue: "queue_ok x'"
    using sys_queue [OF inv] mv plain_moves [OF inv mv] by (auto simp: queue_ok_def worker_moves_def)
  have counters: "counters_ok x'"
    using sys_counters [OF inv] mv members_update [OF sys_finite [OF inv] w w', of busy]
      members_update [OF sys_finite [OF inv] w w', of idling]
    by (simp add: counters_ok_def worker_moves_def)
  have free: "workers x' t = None \<Longrightarrow> flow_of (sw x') t = Native t" for t
    using sys_free [OF inv, of t] mv by (auto simp: worker_moves_def split: if_splits)
  have "fw_inv (sw x')" "m_rootThread (ss x') = - 1"
    using mv sys_root [OF inv] by (simp_all add: worker_moves_def)
  then show ?thesis
  proof (rule sys_invI)
    show "finite (dom (workers x'))" "card (dom (workers x')) < 2 ^ 64"
      using sys_finite [OF inv] sys_card [OF inv] by (simp_all add: dom)
  qed (erule (3) owned_moves [OF inv mv] | erule free ok | rule mutex_moves [OF inv mv] queue counters)+
qed

section \<open>Steps of everybody else\<close>

lemma sys_inv_env:
  assumes inv: "sys_inv x" and same: "workers x' = workers x" "mutex_of x' = mutex_of x"
    and fw: "fw_inv (sw x')" and flow: "flow_of (sw x') = flow_of (sw x)"
    and task: "\<And>f. is_task (sw x) f \<Longrightarrow> is_task (sw x') f"
    and tls: "\<And>th. workers x th \<noteq> None \<Longrightarrow> t_scheduler_fiber (tls (sw x') th) = t_scheduler_fiber (tls (sw x) th)"
    and st: "\<And>f. is_task (sw x) f \<Longrightarrow> \<not> plain x f \<Longrightarrow> state_of (sw x') f = state_of (sw x) f"
    and root: "m_rootThread (ss x') = m_rootThread (ss x)"
    and tasks: "\<And>t. t \<in> set (m_tasks (ss x')) \<Longrightarrow> t \<in> set (m_tasks (ss x)) \<or>
        has_work t \<and> (\<forall>f. st_fiber t = Some f \<longrightarrow> plain x f)"
    and counters: "m_activeThreadCount (ss x') = m_activeThreadCount (ss x)"
      "m_idleThreadCount (ss x') = m_idleThreadCount (ss x)"
  shows "sys_inv x'"
proof (rule sys_invI)
  have pl: "plain x f \<Longrightarrow> plain x' f" for f using task same by (auto simp: plain_def)
  show "fw_inv (sw x')" by (rule fw)
  show "m_rootThread (ss x') = - 1" using sys_root [OF inv] root by simp
  show "finite (dom (workers x'))" "card (dom (workers x')) < 2 ^ 64"
    using sys_finite [OF inv] sys_card [OF inv] same by simp_all
  show "workers x' th = None \<Longrightarrow> flow_of (sw x') th = Native th" for th
    using sys_free [OF inv] same flow by simp
  show "worker_ok x' th i pc" if "workers x' th = Some (i, pc)" for th i pc
  proof -
    have w: "workers x th = Some (i, pc)" using that same by simp
    have ok: "worker_ok x th i pc" by (rule sys_worker [OF inv w])
    have "f \<in> owned i pc \<Longrightarrow> state_of (sw x') f = state_of (sw x) f" for f
      using ok plain_owned [OF _ w] st by (auto simp: worker_ok_def)
    moreover have "needs_ready i pc \<subseteq> owned i pc" by (cases pc) auto
    ultimately show ?thesis
      using ok pl task tls [of th] flow w unfolding worker_ok_def by auto
  qed
  show "th1 = th2" if "workers x' th1 = Some (i1, p1)" "workers x' th2 = Some (i2, p2)"
    "f \<in> owned i1 p1" "f \<in> owned i2 p2" for th1 th2 i1 i2 p1 p2 f
    using that sys_owned [OF inv] same by simp
  show "mutex_of x' f = Some th \<longleftrightarrow> (\<exists>i pc. workers x' th = Some (i, pc) \<and> holds pc = Some f)" for f th
    using sys_mutex [OF inv] same by simp
  show "queue_ok x'"
    using sys_queue [OF inv] tasks pl unfolding queue_ok_def by blast
  have "members P x' = members P x" for P by (simp add: members_def same)
  with sys_counters [OF inv] counters show "counters_ok x'" by (simp add: counters_ok_def)
qed

text \<open>What the prologue of \<open>run\<close> leaves as it was, and the worker it makes.\<close>

lemma spawned_frame:
  assumes inv: "sys_inv x" and native: "flow_of (sw x) th = Native th"
    and r: "run_prologue junk mem th (ss x) (sw x) = Inr (i, W)"
  shows "fw_inv W" and "\<not> is_task (sw x) i"
    and "is_task (sw x) f \<Longrightarrow> is_task W f \<and> f \<noteq> i \<and> fibers W f = fibers (sw x) f"
    and "t \<noteq> th \<Longrightarrow> tls W t = tls (sw x) t" and "flow_of W = flow_of (sw x)"
    and "worker_ok (x\<lparr>sw := W, workers := (workers x)(th := Some (i, AtLoop))\<rparr>) th i AtLoop"
proof -
  obtain W1 g where W1: "Fiber.GetThis True junk th (sw x) = Inr (g, W1)"
    and W: "new_fiber (Some BoundIdle) 0 True mem True W1 = Inr (i, W)"
    using r sys_root [OF inv] by (auto simp: run_prologue_def result_simps GetThreadID_def)
  note fw1 = fw_inv_GetThis [OF sys_fw [OF inv] W1] and f1 = GetThis_frame [OF sys_fw [OF inv] W1]
  note f2 = new_fiber_frame [OF fw1 W]
  show "fw_inv W" using fw_inv_new_fiber [OF fw1 W] by simp
  have new: "\<not> is_task (sw x) i" "is_task W i" using f1(1) f2(2,3) by auto
  then show "\<not> is_task (sw x) i" by simp
  have task: "is_task (sw x) f \<Longrightarrow> is_task W f \<and> f \<noteq> i" for f using f1(1) f2(3) new by auto
  then show "is_task (sw x) f \<Longrightarrow> is_task W f \<and> f \<noteq> i \<and> fibers W f = fibers (sw x) f"
    using f1(1,3) f2(6) by metis
  show "t \<noteq> th \<Longrightarrow> tls W t = tls (sw x) t" using f1(4) f2(4) by simp
  show "flow_of W = flow_of (sw x)" using f1(2) f2(5) by (simp add: fun_eq_iff)
  show "worker_ok (x\<lparr>sw := W, workers := (workers x)(th := Some (i, AtLoop))\<rparr>) th i AtLoop"
    using f1(2,6) f2(4,5) new native by (simp add: worker_ok_def)
qed

lemma sys_inv_spawn:
  assumes inv: "sys_inv x" and w: "workers x th = None"
    and native: "flow_of (sw x) th = Native th" and n: "card (dom (workers x)) < 2 ^ 64 - 1"
    and r: "run_prologue junk mem th (ss x) (sw x) = Inr (i, W)"
  shows "sys_inv (x\<lparr>sw := W, workers := (workers x)(th := Some (i, AtLoop))\<rparr>)" (is "sys_inv ?x")
proof -
  note frame = spawned_frame [OF inv native r]
  note new = frame(2) and task = frame(3) and tls = frame(4) and flow = frame(5)
  have pl: "plain x f \<Longrightarrow> plain ?x f" for f
    using task new by (auto simp: plain_def split: if_splits)
  have old: "worker_ok ?x t j p" if "workers x t = Some (j, p)" for t j p
  proof -
    have ok: "worker_ok x t j p" by (rule sys_worker [OF inv that])
    have "t \<noteq> th" using that w by auto
    moreover have "needs_ready j p \<subseteq> owned j p" by (cases p) auto
    ultimately show ?thesis
      using ok task pl tls [of t] flow unfolding worker_ok_def by auto
  qed
  have tasks: "workers x t = Some (j, p) \<Longrightarrow> f \<in> owned j p \<Longrightarrow> f \<noteq> i" for t j p f
    using sys_worker [OF inv] new by (auto simp: worker_ok_def)
  show ?thesis
  proof (rule sys_invI)
    show "fw_inv (sw ?x)" using frame(1) by simp
    show "m_rootThread (ss ?x) = - 1" using sys_root [OF inv] by simp
    show "finite (dom (workers ?x))" using sys_finite [OF inv] by simp
    have "dom (workers ?x) = insert th (dom (workers x))" "th \<notin> dom (workers x)" using w by auto
    then show "card (dom (workers ?x)) < 2 ^ 64" using n sys_finite [OF inv] by simp
    show "workers ?x t = None \<Longrightarrow> flow_of (sw ?x) t = Native t" for t
      using sys_free [OF inv, of t] flow by (simp split: if_splits)
    show "worker_ok ?x t j p" if "workers ?x t = Some (j, p)" for t j p
    proof (cases "t = th")
      case True
      with that frame(6) show ?thesis by simp
    next
      case False
      with that old show ?thesis by simp
    qed
    show "t1 = t2" if "workers ?x t1 = Some (j1, p1)" "workers ?x t2 = Some (j2, p2)"
      "f \<in> owned j1 p1" "f \<in> owned j2 p2" for t1 t2 j1 j2 p1 p2 f
      using that sys_owned [OF inv, of t1 j1 p1 t2 j2 p2 f] tasks by (auto split: if_splits)
    show "mutex_of ?x f = Some t \<longleftrightarrow> (\<exists>j p. workers ?x t = Some (j, p) \<and> holds p = Some f)" for f t
      using sys_mutex [OF inv, of f t] w by auto
    show "queue_ok ?x" using sys_queue [OF inv] pl by (auto simp: queue_ok_def)
    have "members P ?x = members P x" if "\<not> P AtLoop" for P
      using that w by (auto simp: members_def)
    with sys_counters [OF inv] show "counters_ok ?x" by (simp add: counters_ok_def)
  qed
qed

end
