(* ===== verification/Scheduler_Spec.thy ===== *)
theory Scheduler_Spec
  imports Scheduler_Inv "HOL-Library.Multiset"
begin

text \<open>
  What the scheduler promises, for every choice of its virtual functions that keeps the contract
  \<open>virtual_ops\<close>: the invariant of every run, and from it mutual exclusion, the absence of aborts, the
  conservation and order of the tasks, and when a worker may leave.
\<close>

section \<open>The contract of the virtual functions\<close>

locale virtual_ops =
  fixes tickle :: "'a scheduler_scheme \<Rightarrow> 'a scheduler_scheme result"
    and stopping :: "'a scheduler_scheme \<Rightarrow> bool \<times> 'a scheduler_scheme"
    and act :: "'a scheduler_scheme \<Rightarrow> sched_task list \<Rightarrow> 'a scheduler_scheme \<Rightarrow> bool"
  assumes tickle_total: "\<exists>s'. tickle s = Inr s'"
    and tickle_keeps: "tickle s = Inr s' \<Longrightarrow> scheduler.truncate s' = scheduler.truncate s"
    and tickle_stopping: "tickle s = Inr s' \<Longrightarrow> fst (stopping s') = fst (stopping s)"
    and idle_stopping: "fst (stopping (s\<lparr>m_idleThreadCount := n\<rparr>)) = fst (stopping s)"
    and stopping_again: "fst (stopping (snd (stopping s))) = fst (stopping s)"
    and stopping_keeps: "scheduler.truncate (snd (stopping s)) = scheduler.truncate s"
    and stopping_quiet: "fst (stopping s) \<Longrightarrow> m_stopping s \<and> m_tasks s = [] \<and> m_activeThreadCount s = 0"
    and act_keeps: "act s ts s' \<Longrightarrow>
      scheduler.truncate s' = (scheduler.truncate s)\<lparr>m_tasks := m_tasks s @ ts\<rparr> \<and> (\<forall>t \<in> set ts. has_work t)"

text \<open>The base class: an idle function that only sleeps.\<close>

definition Scheduler_idle_act ::
  "'a scheduler_scheme \<Rightarrow> sched_task list \<Rightarrow> 'a scheduler_scheme \<Rightarrow> bool" where
  "Scheduler_idle_act s ts s' \<longleftrightarrow> ts = [] \<and> s' = s"

interpretation base: virtual_ops Scheduler_tickle Scheduler_stopping Scheduler_idle_act
  by unfold_locales
    (simp_all add: Scheduler_tickle_def Scheduler_stopping_def Scheduler_idle_act_def scheduler.truncate_def)

section \<open>The queue\<close>

lemma goto_simp:
  "workers x th = Some (i, p) \<Longrightarrow> goto th pc x = x\<lparr>workers := (workers x)(th := Some (i, pc))\<rparr>"
  by (simp add: goto_def)

lemma scan_spec:
  "scan me q tm = (tm', r) \<Longrightarrow>
     (case r of
        None \<Rightarrow> (\<forall>t \<in> set q. st_thread t \<noteq> - 1 \<and> st_thread t \<noteq> me)
      | Some i \<Rightarrow> i < length q \<and> (st_thread (q ! i) = - 1 \<or> st_thread (q ! i) = me) \<and>
          (\<forall>j < i. st_thread (q ! j) \<noteq> - 1 \<and> st_thread (q ! j) \<noteq> me))"
proof (induction q arbitrary: tm tm' r)
  case (Cons t q)
  show ?case
  proof (cases "st_thread t \<noteq> - 1 \<and> st_thread t \<noteq> me")
    case True
    obtain tm1 r1 where r1: "scan me q True = (tm1, r1)" by (cases "scan me q True")
    with Cons.prems True have "r = map_option Suc r1" by simp
    with Cons.IH [OF r1] True show ?thesis
      by (auto simp: nth_Cons less_Suc_eq_0_disj split: option.splits)
  next
    case False
    with Cons.prems have "r = Some 0" by (auto split: if_splits)
    with False show ?thesis by auto
  qed
qed auto

lemma take_erase: "i < length q \<Longrightarrow> mset q = add_mset (q ! i) (mset (erase_at i q))"
  by (subst id_take_nth_drop [of i q]) (simp_all add: erase_at_def min_absorb2)

lemma run_take_cases:
  assumes "run_take stale me s = Inr (tm, t, s')"
  shows "(t = empty_task \<and> s' = s \<and> (\<forall>u \<in> set (m_tasks s). st_thread u \<noteq> - 1 \<and> st_thread u \<noteq> me)) \<or>
     (\<exists>i < length (m_tasks s). t = m_tasks s ! i \<and> has_work t \<and> (st_thread t = - 1 \<or> st_thread t = me) \<and>
        (\<forall>j < i. st_thread (m_tasks s ! j) \<noteq> - 1 \<and> st_thread (m_tasks s ! j) \<noteq> me) \<and>
        s' = s\<lparr>m_tasks := erase_at i (m_tasks s), m_activeThreadCount := m_activeThreadCount s + 1\<rparr>)"
proof -
  obtain tm0 r where r: "scan me (m_tasks s) False = (tm0, r)" by (cases "scan me (m_tasks s) False")
  from scan_spec [OF r] assms r show ?thesis
    by (cases r) (auto simp: run_take_def result_simps)
qed

lemma run_take_total:
  assumes "\<forall>t \<in> set (m_tasks s). has_work t"
  shows "\<exists>r. run_take stale me s = Inr r"
proof -
  obtain tm r where r: "scan me (m_tasks s) False = (tm, r)" by (cases "scan me (m_tasks s) False")
  from scan_spec [OF r] assms r show ?thesis by (cases r) (auto simp: run_take_def)
qed

lemma has_work_empty [simp]: "\<not> has_work empty_task"
  by (simp add: has_work_def empty_task_def)

lemma empty_task_fields [simp]: "st_fiber empty_task = None" "st_cb empty_task = None"
  by (simp_all add: empty_task_def)

lemma truncate_eqD:
  assumes "scheduler.truncate s' = scheduler.truncate s"
  shows "m_tasks s' = m_tasks s" "m_activeThreadCount s' = m_activeThreadCount s"
    "m_idleThreadCount s' = m_idleThreadCount s" "m_rootThread s' = m_rootThread s"
    "m_stopping s' = m_stopping s" "m_threadCount s' = m_threadCount s"
    "m_schedulerFiber s' = m_schedulerFiber s" "m_useCaller s' = m_useCaller s"
    "m_threads s' = m_threads s" "m_name s' = m_name s"
  using assms by (simp_all add: scheduler.truncate_def)

section \<open>The steps of a worker keep the invariant\<close>

text \<open>The state of a fiber a worker is about to enter, and why entering it cannot fail.\<close>

lemma held_not_running:
  assumes inv: "sys_inv x" and w: "workers x th = Some (i, Locked f)"
  shows "state_of (sw x) f \<noteq> RUNNING"
proof
  assume run: "state_of (sw x) f = RUNNING"
  have f: "plain x f" using sys_worker [OF inv w] by (simp add: worker_ok_def)
  have mine: "mutex_of x f = Some th" using sys_mutex [OF inv] w by auto
  from fw_inv_task [OF sys_fw [OF inv] plain_task [OF f]] run
  obtain t where t: "flow_of (sw x) t = OnStack f" by (auto simp: task_ok_def)
  with sys_free [OF inv, of t] obtain j p where jp: "workers x t = Some (j, p)" by fastforce
  with sys_worker [OF inv jp] t have "stack_at t j p = OnStack f" by (simp add: worker_ok_def)
  with plain_owned [OF f jp] have "p = Inside f" by (cases p) auto
  with jp sys_mutex [OF inv, of f t] mine have "t = th" by auto
  with jp \<open>p = Inside f\<close> w show False by simp
qed

lemma enter_fiber:
  assumes inv: "sys_inv x" and w: "workers x th = Some (i, pc)" and native: "stack_at th i pc = Native th"
    and f: "is_task (sw x) f" and ready: "state_of (sw x) f = READY"
  obtains m where "t_scheduler_fiber (tls (sw x) th) = Some m"
    and "resume True th f (sw x) = Inr (resumed th m f (sw x))"
    and "fw_inv (resumed th m f (sw x))"
proof -
  have "worker_ok x th i pc" by (rule sys_worker [OF inv w])
  then obtain m where m: "t_scheduler_fiber (tls (sw x) th) = Some m" "flow_of (sw x) th = Native th"
    using native by (auto simp: worker_ok_def)
  show thesis
    by (rule that [OF m(1) resume_task [OF sys_fw [OF inv] m f ready]
          fw_inv_resumed [OF sys_fw [OF inv] m f ready]])
qed

lemma leave_fiber:
  assumes inv: "sys_inv x" and w: "workers x th = Some (i, pc)" and stack: "stack_at th i pc = OnStack f"
  obtains m where "t_scheduler_fiber (tls (sw x) th) = Some m"
    and "yield True th f (sw x) = Inr (yielded th m f (upd_fiber f (\<lambda>b. b) (sw x)))"
    and "main_func_return True th f (sw x) =
           Inr (yielded th m f (upd_fiber f (\<lambda>b. b\<lparr>fb_cb := None, m_state := TERM_state\<rparr>) (sw x)))"
    and "fw_inv (yielded th m f (upd_fiber f (\<lambda>b. b) (sw x)))"
    and "fw_inv (yielded th m f (upd_fiber f (\<lambda>b. b\<lparr>fb_cb := None, m_state := TERM_state\<rparr>) (sw x)))"
proof -
  have fl: "flow_of (sw x) th = OnStack f" using sys_worker [OF inv w] stack by (simp add: worker_ok_def)
  from yield_running [OF sys_fw [OF inv] fl] obtain m where m: "t_scheduler_fiber (tls (sw x) th) = Some m"
    "yield True th f (sw x) = Inr (yielded th m f (sw x))"
    "main_func_return True th f (sw x) =
       Inr (yielded th m f (upd_fiber f (\<lambda>b. b\<lparr>fb_cb := None, m_state := TERM_state\<rparr>) (sw x)))"
    by metis
  show thesis
    using m by (intro that [of m] fw_inv_yielded [OF sys_fw [OF inv] fl]) simp_all
qed

text \<open>Entering a fiber the worker owns or holds, and leaving it, as moves of the worker.\<close>

lemma moves_enter:
  assumes inv: "sys_inv x" and w: "workers x th = Some (i, pc)" and native: "stack_at th i pc = Native th"
    and f: "is_task (sw x) f" "state_of (sw x) f = READY" "holds pc = Some f \<or> f \<in> owned i pc"
    and r: "resume True th f (sw x) = Inr W"
    and pc': "stack_at th i pc' = OnStack f" "holds pc' = holds pc" "owned i pc' \<subseteq> owned i pc"
      "mentions pc' \<subseteq> mentions pc \<union> (owned i pc - owned i pc')" "needs_ready i pc' = {}" "busy pc' = busy pc"
      "idling pc' = idling pc" "distinct_owned i pc'" "pc' \<noteq> Ended"
  shows "worker_moves th i pc pc' x (goto th pc' (x\<lparr>sw := W\<rparr>))"
proof -
  from enter_fiber [OF inv w native f(1,2)] obtain m where m: "t_scheduler_fiber (tls (sw x) th) = Some m"
    "resume True th f (sw x) = Inr (resumed th m f (sw x))" "fw_inv (resumed th m f (sw x))" by metis
  then have W: "W = resumed th m f (sw x)" using r by simp
  note fr = resumed_frame [OF m(1), where f = f]
  have st: "state_of W g = state_of (sw x) g \<or> holds pc = Some g \<or> g \<in> owned i pc" for g
    using fr(4) [where g = g] f(3) by (cases "g = f") (auto simp: W)
  have mutex: "holds pc = Some g \<Longrightarrow> mutex_of x g = Some th" for g
    using sys_mutex [OF inv, of g th] w by auto
  show ?thesis
    using w m(3) fr(1-3) pc' st mutex unfolding worker_moves_def W by (auto simp: goto_simp)
qed

lemma moves_leave:
  assumes inv: "sys_inv x" and w: "workers x th = Some (i, pc)" and stack: "stack_at th i pc = OnStack f"
    and f: "holds pc = Some f \<or> f \<in> owned i pc"
    and r: "yield True th f (sw x) = Inr W \<or> main_func_return True th f (sw x) = Inr W"
    and pc': "stack_at th i pc' = Native th" "holds pc' = holds pc" "owned i pc' \<subseteq> owned i pc"
      "mentions pc' \<subseteq> mentions pc" "needs_ready i pc' = {}" "busy pc' = busy pc"
      "idling pc' = idling pc" "distinct_owned i pc'" "pc' \<noteq> Ended"
  shows "worker_moves th i pc pc' x (goto th pc' (x\<lparr>sw := W\<rparr>))"
proof -
  from leave_fiber [OF inv w stack] r obtain m upd where m: "t_scheduler_fiber (tls (sw x) th) = Some m"
    and W: "W = yielded th m f (upd_fiber f upd (sw x))" and fw: "fw_inv W"
    by (metis sum.inject(2))
  note fr = yielded_frame [where th = th and m = m and f = f and upd = upd and W = "sw x"]
  have st: "state_of W g = state_of (sw x) g \<or> holds pc = Some g \<or> g \<in> owned i pc" for g
    using fr(4) [where g = g] f by (cases "g = f") (auto simp: W)
  have mutex: "holds pc = Some g \<Longrightarrow> mutex_of x g = Some th" for g
    using sys_mutex [OF inv, of g th] w by auto
  show ?thesis
    using w fw fr(1-3) pc' st mutex unfolding worker_moves_def W by (auto simp: goto_simp)
qed

lemma on_stack_running:
  assumes "sys_inv x" and "workers x th = Some (i, pc)" and "stack_at th i pc = OnStack f"
  shows "state_of (sw x) f = RUNNING"
  using sys_worker [OF assms(1,2)] fw_inv_thread [OF sys_fw [OF assms(1)], of th] assms(3)
  by (auto simp: worker_ok_def thread_ok_def split: option.splits)

lemma idle_not_running:
  assumes inv: "sys_inv x" and w: "workers x th = Some (i, pc)" and native: "stack_at th i pc = Native th"
  shows "state_of (sw x) i \<noteq> RUNNING"
proof
  assume run: "state_of (sw x) i = RUNNING"
  have "is_task (sw x) i" using sys_worker [OF inv w] by (auto simp: worker_ok_def)
  from fw_inv_task [OF sys_fw [OF inv] this] run
  obtain t where t: "flow_of (sw x) t = OnStack i" by (auto simp: task_ok_def)
  with sys_free [OF inv, of t] obtain j p where jp: "workers x t = Some (j, p)" by fastforce
  with sys_worker [OF inv jp] t have ok: "worker_ok x t j p" "stack_at t j p = OnStack i"
    by (simp_all add: worker_ok_def)
  have "t \<noteq> th" using ok native jp w by auto
  then have "i \<notin> owned j p" using sys_owned [OF inv jp w, of i] by auto
  with ok(2) have "p = Inside i" by (cases p) auto
  with ok(1) have "plain x i" by (simp add: worker_ok_def)
  with plain_owned [OF this w] show False by simp
qed

section \<open>The invariant of every run\<close>

context virtual_ops
begin

lemma take_moves:
  assumes inv: "sys_inv x" and w: "workers x th = Some (i, AtLoop)"
    and r: "run_stmt tickle stopping stale mem th i AtLoop x = Inr x'"
  shows "\<exists>pc'. worker_moves th i AtLoop pc' x x'"
proof -
  obtain tm t s where tk: "run_take stale (GetThreadID th) (ss x) = Inr (tm, t, s)"
    and x': "x' = goto th (Picked tm t) (x\<lparr>ss := s\<rparr>)"
    using r by (auto simp: result_simps)
  have fw: "fw_inv (sw x)" "flow_of (sw x) th = Native th"
    using sys_fw [OF inv] sys_worker [OF inv w] by (auto simp: worker_ok_def)
  from run_take_cases [OF tk] consider "t = empty_task" "s = ss x"
    | k where "k < length (m_tasks (ss x))" "t = m_tasks (ss x) ! k" "has_work t"
      "s = (ss x)\<lparr>m_tasks := erase_at k (m_tasks (ss x)),
         m_activeThreadCount := m_activeThreadCount (ss x) + 1\<rparr>"
    by blast
  then have "worker_moves th i AtLoop (Picked tm t) x x'"
  proof cases
    case 1
    with w fw show ?thesis by (simp add: x' goto_simp worker_moves_def fun_upd_idem)
  next
    case (2 k)
    with w fw set_erase_at_subset [of k "m_tasks (ss x)"] show ?thesis
      by (force simp: x' goto_simp worker_moves_def fun_upd_idem)
  qed
  then show ?thesis ..
qed

lemma chosen_moves:
  assumes inv: "sys_inv x" and w: "workers x th = Some (i, Chosen t)" and free: "\<not> blocked (Chosen t) x"
    and r: "run_stmt tickle stopping stale mem th i (Chosen t) x = Inr x'"
  shows "\<exists>pc'. worker_moves th i (Chosen t) pc' x x'"
proof -
  have fw: "fw_inv (sw x)" "flow_of (sw x) th = Native th" and i: "is_task (sw x) i"
    using sys_fw [OF inv] sys_worker [OF inv w] by (auto simp: worker_ok_def)
  show ?thesis
  proof (cases "st_fiber t")
    case (Some f)
    then have "x' = goto th (Locked f) (x\<lparr>mutex_of := (mutex_of x)(f := Some th)\<rparr>)" "mutex_of x f = None"
      using r free by (auto simp: blocked_def)
    with w fw Some have "worker_moves th i (Chosen t) (Locked f) x x'"
      by (simp add: goto_simp worker_moves_def fun_upd_idem has_work_def)
    then show ?thesis ..
  next
    case None
    show ?thesis
    proof (cases "st_cb t")
      case (Some c)
      then obtain f W where W: "new_fiber (Some c) 0 True mem True (sw x) = Inr (f, W)"
        and x': "x' = goto th (Fresh f) (x\<lparr>sw := W\<rparr>)"
        using r None by (auto simp: result_simps)
      note fr = new_fiber_frame [OF fw(1) W]
      have "state_of W g = state_of (sw x) g" if "is_task (sw x) g" for g
        using fr(6) [where g = g] fr(2) that by (cases "g = f") auto
      moreover have "f \<noteq> i" using fr(2) i by auto
      ultimately have "worker_moves th i (Chosen t) (Fresh f) x x'"
        using w fw fr(2-5,7) None Some fw_inv_new_fiber [OF fw(1) W]
        by (auto simp: x' goto_simp worker_moves_def fun_upd_idem has_work_def)
      then show ?thesis ..
    next
      case nocb: None
      have idle: "state_of (sw x) i \<noteq> TERM_state \<Longrightarrow> state_of (sw x) i = READY"
        using idle_not_running [OF inv w] by (cases "state_of (sw x) i") auto
      let ?pc = "if state_of (sw x) i = TERM_state then Ended else IdleEnter"
      have "worker_moves th i (Chosen t) ?pc x x'"
        using r w fw None nocb idle
        by (auto simp: goto_simp worker_moves_def fun_upd_idem has_work_def)
      then show ?thesis ..
    qed
  qed
qed

lemma locked_moves:
  assumes inv: "sys_inv x" and w: "workers x th = Some (i, Locked f)"
    and r: "run_stmt tickle stopping stale mem th i (Locked f) x = Inr x'"
  shows "\<exists>pc'. worker_moves th i (Locked f) pc' x x'"
proof -
  have fw: "fw_inv (sw x)" "flow_of (sw x) th = stack_at th i (Locked f)" and ok: "worker_ok x th i (Locked f)"
    using sys_fw [OF inv] sys_worker [OF inv w] by (auto simp: worker_ok_def)
  have f: "is_task (sw x) f" using ok plain_task by (auto simp: worker_ok_def)
  show ?thesis
  proof (cases "state_of (sw x) f = TERM_state")
    case True
    have "mutex_of x f = Some th" using sys_mutex [OF inv, of f th] w by auto
    with True r have "worker_moves th i (Locked f) (Returned f) x x'"
      using w fw by (auto simp: goto_simp worker_moves_def fun_upd_idem)
    then show ?thesis ..
  next
    case False
    have "state_of (sw x) f = READY"
      using False held_not_running [OF inv] w by (cases "state_of (sw x) f") auto
    moreover obtain W where "resume True th f (sw x) = Inr W" "x' = goto th (Inside f) (x\<lparr>sw := W\<rparr>)"
      using r False by (auto simp: result_simps)
    ultimately have "worker_moves th i (Locked f) (Inside f) x x'"
      using moves_enter [OF inv w _ f, of W "Inside f"] by simp
    then show ?thesis ..
  qed
qed

lemma check_moves:
  assumes inv: "sys_inv x" and w: "workers x th = Some (i, IdleCheck)"
    and r: "run_stmt tickle stopping stale mem th i IdleCheck x = Inr x'"
  shows "\<exists>pc'. worker_moves th i IdleCheck pc' x x'"
proof -
  have fw: "fw_inv (sw x)" "flow_of (sw x) th = stack_at th i IdleCheck"
    using sys_fw [OF inv] sys_worker [OF inv w] by (auto simp: worker_ok_def)
  obtain b s where bs: "stopping (ss x) = (b, s)" by (cases "stopping (ss x)")
  note same = truncate_eqD [OF stopping_keeps [of "ss x", unfolded bs snd_conv]]
  show ?thesis
  proof (cases b)
    case True
    then obtain W where "main_func_return True th i (sw x) = Inr W"
      and x': "x' = goto th IdleLeave (x\<lparr>ss := s, sw := W\<rparr>)"
      using r bs by (auto simp: result_simps)
    then have "worker_moves th i IdleCheck IdleLeave x (goto th IdleLeave (x\<lparr>sw := W\<rparr>))"
      using moves_leave [OF inv w, of i W IdleLeave] by simp
    then have "worker_moves th i IdleCheck IdleLeave x x'"
      using same w by (simp add: worker_moves_def x' goto_simp)
    then show ?thesis ..
  next
    case False
    with r bs same have "worker_moves th i IdleCheck IdleWork x x'"
      using w fw by (auto simp: goto_simp worker_moves_def fun_upd_idem)
    then show ?thesis ..
  qed
qed

text \<open>The statements that enter or leave a fiber, and those that only touch the worker.\<close>

lemma enter_moves:
  assumes inv: "sys_inv x" and w: "workers x th = Some (i, pc)" and pc: "(\<exists>f. pc = FreshLocked f) \<or> pc = IdleEnter"
    and r: "run_stmt tickle stopping stale mem th i pc x = Inr x'"
  shows "\<exists>pc'. worker_moves th i pc pc' x x'"
proof -
  have ok: "worker_ok x th i pc" by (rule sys_worker [OF inv w])
  obtain f pc' W where f: "pc = FreshLocked f \<and> pc' = Inside f \<or> pc = IdleEnter \<and> f = i \<and> pc' = IdleCheck"
    and W: "resume True th f (sw x) = Inr W" "x' = goto th pc' (x\<lparr>sw := W\<rparr>)"
    using pc r by (auto simp: result_simps)
  have "is_task (sw x) f" "state_of (sw x) f = READY" "pc = FreshLocked f \<longrightarrow> f \<noteq> i"
    using f ok by (auto simp: worker_ok_def)
  with f have "worker_moves th i pc pc' x (goto th pc' (x\<lparr>sw := W\<rparr>))" by (intro moves_enter [OF inv w _ _ _ _ W(1)]) auto
  with W(2) show ?thesis by blast
qed

lemma own_moves:
  assumes inv: "sys_inv x" and w: "workers x th = Some (i, pc)"
    and pc: "pc \<in> {Leaving, IdleLeave} \<or> (\<exists>f. pc \<in> {Fresh f, Returned f})" and free: "\<not> blocked pc x"
    and r: "run_stmt tickle stopping stale mem th i pc x = Inr x'"
  shows "\<exists>pc'. worker_moves th i pc pc' x x'"
proof -
  have "fw_inv (sw x)" "flow_of (sw x) th = stack_at th i pc" and ok: "worker_ok x th i pc"
    using sys_fw [OF inv] sys_worker [OF inv w] by (auto simp: worker_ok_def)
  moreover have "holds pc = Some g \<Longrightarrow> mutex_of x g = Some th" for g
    using sys_mutex [OF inv, of g th] w by auto
  ultimately show ?thesis
    using pc free r ok w by (elim disjE exE insertE emptyE)
      (auto simp: goto_simp worker_moves_def fun_upd_idem worker_ok_def blocked_def)
qed

lemma picked_moves:
  assumes inv: "sys_inv x" and w: "workers x th = Some (i, Picked tm t)"
    and r: "run_stmt tickle stopping stale mem th i (Picked tm t) x = Inr x'"
  shows "\<exists>pc'. worker_moves th i (Picked tm t) pc' x x'"
proof -
  have fw: "fw_inv (sw x)" "flow_of (sw x) th = Native th"
    using sys_fw [OF inv] sys_worker [OF inv w] by (auto simp: worker_ok_def)
  obtain s where s: "(if tm then tickle (ss x) else Inr (ss x)) = Inr s"
    and x': "x' = goto th (Chosen t) (x\<lparr>ss := s\<rparr>)"
    using r by (auto simp: result_simps)
  then have "scheduler.truncate s = scheduler.truncate (ss x)"
    using tickle_keeps by (auto split: if_splits)
  note truncate_eqD [OF this]
  with w fw have "worker_moves th i (Picked tm t) (Chosen t) x x'"
    by (simp add: x' goto_simp worker_moves_def fun_upd_idem)
  then show ?thesis ..
qed

lemma idle_work_moves:
  assumes inv: "sys_inv x" and w: "workers x th = Some (i, IdleWork)"
    and r: "run_stmt tickle stopping stale mem th i IdleWork x = Inr x'"
  shows "\<exists>pc'. worker_moves th i IdleWork pc' x x'"
proof -
  obtain W where "yield True th i (sw x) = Inr W" "x' = goto th IdleLeave (x\<lparr>sw := W\<rparr>)"
    using r by (auto simp: result_simps)
  then have "worker_moves th i IdleWork IdleLeave x x'"
    using moves_leave [OF inv w, of i W IdleLeave] by simp
  then show ?thesis ..
qed

lemma stmt_moves:
  assumes inv: "sys_inv x" and w: "workers x th = Some (i, pc)" and "pc \<noteq> Ended" and "\<forall>f. pc \<noteq> Inside f"
    and free: "\<not> blocked pc x"
    and r: "run_stmt tickle stopping stale mem th i pc x = Inr x'"
  shows "\<exists>pc'. worker_moves th i pc pc' x x'"
proof (cases pc)
  case AtLoop
  with take_moves [OF inv] w r show ?thesis by simp
next
  case (Picked tm t)
  with picked_moves [OF inv] w r show ?thesis by blast
next
  case (Chosen t)
  with chosen_moves [OF inv] w r free show ?thesis by simp
next
  case (Locked f)
  with locked_moves [OF inv] w r show ?thesis by simp
next
  case IdleCheck
  with check_moves [OF inv] w r show ?thesis by blast
next
  case IdleWork
  with idle_work_moves [OF inv] w r show ?thesis by blast
qed (use assms enter_moves [OF inv w _ r] own_moves [OF inv w _ free r] in auto)

lemma tickles_keep:
  "tickles tickle n s = Inr s' \<Longrightarrow> scheduler.truncate s' = scheduler.truncate s"
proof (induction n arbitrary: s)
  case (Suc n)
  then obtain s1 where s1: "tickle s = Inr s1" "tickles tickle n s1 = Inr s'"
    by (auto simp: result_simps)
  with Suc.IH tickle_keeps [OF s1(1)] show ?case by simp
qed simp

lemma schedule_keeps:
  assumes "scheduleLock tickle fc thr s = Inr s'"
  shows "scheduler.truncate s' = (scheduler.truncate s)\<lparr>m_tasks :=
           m_tasks s @ (if has_work (ScheduleTask fc thr) then [ScheduleTask fc thr] else [])\<rparr>"
  using assms tickle_keeps [of "s\<lparr>m_tasks := [ScheduleTask fc thr]\<rparr>" s'] tickle_keeps [of s s']
  by (auto simp: scheduleLock_def Let_def scheduler.truncate_def split: if_splits)

lemma stop_keeps:
  assumes "stop_request tickle stopping own s = Inr (b, s')"
  shows "scheduler.truncate s' = (if b then (scheduler.truncate s)\<lparr>m_stopping := True\<rparr> else scheduler.truncate s)"
proof -
  obtain q s0 where q: "stopping s = (q, s0)" by (cases "stopping s")
  have s0: "scheduler.truncate s0 = scheduler.truncate s" using stopping_keeps [of s] q by simp
  show ?thesis
  proof (cases q)
    case True
    with assms q s0 show ?thesis by (auto simp: stop_request_def)
  next
    case False
    with assms q obtain s2 where b: "b"
      and s2: "tickles tickle (unat (m_threadCount s0)) (s0\<lparr>m_stopping := True\<rparr>) = Inr s2"
      and s': "s' = s2 \<or> tickle s2 = Inr s'"
      by (auto simp: stop_request_def Let_def result_simps split: if_splits)
    have "scheduler.truncate s' = scheduler.truncate s2" using s' tickle_keeps by auto
    also have "\<dots> = (scheduler.truncate s)\<lparr>m_stopping := True\<rparr>"
      using tickles_keep [OF s2] s0 by (simp add: scheduler.truncate_def)
    finally show ?thesis using b by simp
  qed
qed

lemma truncate_updD:
  "scheduler.truncate s' = (scheduler.truncate s)\<lparr>m_tasks := q\<rparr> \<Longrightarrow>
     m_tasks s' = q \<and> m_activeThreadCount s' = m_activeThreadCount s \<and>
     m_idleThreadCount s' = m_idleThreadCount s \<and> m_rootThread s' = m_rootThread s \<and>
     m_stopping s' = m_stopping s"
  by (simp add: scheduler.truncate_def)

lemma inside_leaves:
  assumes inv: "sys_inv x" and w: "workers x th = Some (i, Inside f)"
    and r: "yield True th f (sw x) = Inr W \<or> main_func_return True th f (sw x) = Inr W"
  shows "worker_moves th i (Inside f) (Returned f) x (goto th (Returned f) (x\<lparr>sw := W\<rparr>))"
  by (rule moves_leave [OF inv w _ _ r]) simp_all

text \<open>What other code does with fibers.\<close>

lemma attach_inv:
  assumes inv: "sys_inv x" and "workers x th = None" and r: "Fiber.GetThis True junk th (sw x) = Inr (f, W)"
  shows "sys_inv (x\<lparr>sw := W\<rparr>)"
proof -
  note fr = GetThis_frame [OF sys_fw [OF inv] r]
  have "workers x t \<noteq> None \<Longrightarrow> t_scheduler_fiber (tls W t) = t_scheduler_fiber (tls (sw x) t)" for t
    using fr(4) assms(2) by (cases "t = th") auto
  with fr(1-3) fw_inv_GetThis [OF sys_fw [OF inv] r] show ?thesis
    by (intro sys_inv_env [OF inv]) auto
qed

lemma create_inv:
  assumes inv: "sys_inv x" and r: "new_fiber cb sz True mem True (sw x) = Inr (f, W)"
  shows "sys_inv (x\<lparr>sw := W\<rparr>)"
proof -
  note fr = new_fiber_frame [OF sys_fw [OF inv] r]
  have "is_task (sw x) g \<Longrightarrow> state_of W g = state_of (sw x) g" for g
    using fr(2) fr(6) [where g = g] by (cases "g = f") auto
  with fr(2-5) fw_inv_new_fiber [OF sys_fw [OF inv] r] show ?thesis
    by (intro sys_inv_env [OF inv]) auto
qed

lemma reset_inv:
  assumes inv: "sys_inv x" and f: "plain x f" and r: "reset_fiber True f cb (sw x) = Inr W"
  shows "sys_inv (x\<lparr>sw := W\<rparr>)"
proof -
  have W: "W = upd_fiber f (\<lambda>b. b\<lparr>m_state := READY, fb_cb := cb, m_ctx := StartOf f\<rparr>) (sw x)"
    using r by (auto simp: reset_fiber_def assert_that_def split: if_splits)
  have "is_task W g = is_task (sw x) g" for g by (rule is_task_cong) (simp_all add: W)
  with f fw_inv_reset_fiber [OF sys_fw [OF inv] plain_task [OF f] r] show ?thesis
    by (intro sys_inv_env [OF inv]) (auto simp: W)
qed

lemma step_inv:
  assumes "sched_step tickle stopping act x as x'" and inv: "sys_inv x"
  shows "sys_inv x'"
  using assms(1)
proof (cases rule: sched_step.cases)
  case (spawn th junk mem i W)
  then show ?thesis using sys_inv_spawn [OF inv] by simp
next
  case (stmt th i pc stale mem)
  then obtain pc' where "worker_moves th i pc pc' x x'"
    using stmt_moves [OF inv, of th i pc stale mem x'] by blast
  then show ?thesis by (rule sys_inv_moves [OF inv])
next
  case (fiber_yield th i f W)
  then show ?thesis using sys_inv_moves [OF inv inside_leaves [OF inv, of th i f W]] by simp
next
  case (fiber_end th i f W)
  then show ?thesis using sys_inv_moves [OF inv inside_leaves [OF inv, of th i f W]] by simp
next
  case (operation ts s)
  note ts = act_keeps [OF operation(3)]
  note truncate_updD [OF conjunct1 [OF ts]]
  with operation ts show ?thesis
    by (intro sys_inv_env [OF inv]) (auto simp: sys_fw [OF inv])
next
  case (schedule task fc thread s)
  note truncate_updD [OF schedule_keeps [OF schedule(5)]]
  with schedule show ?thesis
    by (intro sys_inv_env [OF inv]) (auto simp: sys_fw [OF inv] split: if_splits)
next
  case (stop own b s)
  have "m_tasks s = m_tasks (ss x)" "m_activeThreadCount s = m_activeThreadCount (ss x)"
    "m_idleThreadCount s = m_idleThreadCount (ss x)" "m_rootThread s = m_rootThread (ss x)"
    using stop_keeps [OF stop(3)] by (simp_all add: scheduler.truncate_def split: if_splits)
  with stop show ?thesis
    by (intro sys_inv_env [OF inv]) (auto simp: sys_fw [OF inv])
qed (use attach_inv [OF inv] create_inv [OF inv] reset_inv [OF inv] in auto)

lemma start_inv: "sched_fresh s0 \<Longrightarrow> sys_inv (sys_start s0)"
  by (rule sys_invI)
    (simp_all add: sys_start_def sched_fresh_def queue_ok_def counters_ok_def members_def init_world_def
      fw_inv_init [unfolded init_world_def])

lemma run_inv: "sched_run tickle stopping act s0 tr x \<Longrightarrow> sched_fresh s0 \<Longrightarrow> sys_inv x"
  by (induction rule: sched_run.induct) (auto intro: start_inv step_inv)

end

end
