(* ===== verification/Scheduler_Props.thy ===== *)
theory Scheduler_Props
  imports Scheduler_Spec
begin

text \<open>
  The properties of the scheduler. Each is proved inside \<open>virtual_ops\<close>, for every \<open>tickle\<close>,
  \<open>stopping\<close> and idle activity that keeps the contract, and read off here for the base class.
\<close>

section \<open>Traces\<close>

fun pushes :: "action list \<Rightarrow> sched_task list" where
  "pushes [] = []"
| "pushes (Pushed t # as) = t # pushes as"
| "pushes (Took th t # as) = pushes as"

fun takes :: "action list \<Rightarrow> (nat \<times> sched_task) list" where
  "takes [] = []"
| "takes (Pushed t # as) = takes as"
| "takes (Took th t # as) = (th, t) # takes as"

lemma trace_append [simp]:
  "pushes (as @ bs) = pushes as @ pushes bs" "takes (as @ bs) = takes as @ takes bs"
  by (induction as rule: pushes.induct) simp_all

lemma trace_pushed [simp]: "pushes (map Pushed ts) = ts" "takes (map Pushed ts) = []"
  by (induction ts) simp_all

text \<open>The tasks of a list that are meant for the thread \<open>k\<close>, -1 being any thread.\<close>

definition for_thread :: "int \<Rightarrow> sched_task list \<Rightarrow> sched_task list" where
  "for_thread k q = filter (\<lambda>t. st_thread t = k) q"

lemma for_thread_simps [simp]:
  "for_thread k [] = []" "for_thread k (p @ q) = for_thread k p @ for_thread k q"
  "for_thread k (t # q) = (if st_thread t = k then t # for_thread k q else for_thread k q)"
  by (simp_all add: for_thread_def)

lemma for_thread_none: "(\<forall>t \<in> set q. st_thread t \<noteq> k) \<Longrightarrow> for_thread k q = []"
  by (simp add: for_thread_def)

text \<open>One step of the queue: tasks are appended, or one is taken from behind tasks for others.\<close>

definition queue_step ::
  "(nat \<Rightarrow> bool) \<Rightarrow> sched_task list \<Rightarrow> action list \<Rightarrow> sched_task list \<Rightarrow> bool" where
  "queue_step worker q as q' \<longleftrightarrow>
     (\<exists>ts. as = map Pushed ts \<and> q' = q @ ts) \<or>
     (\<exists>th t p r. as = [Took th t] \<and> worker th \<and> q = p @ t # r \<and> q' = p @ r \<and>
        st_thread t \<in> {- 1, int th} \<and> (\<forall>u \<in> set p. st_thread u \<noteq> - 1 \<and> st_thread u \<noteq> int th))"

lemma queue_step_order:
  assumes "queue_step worker q as q'"
  shows "for_thread k (map snd (takes as)) @ for_thread k q' = for_thread k q @ for_thread k (pushes as)"
    and "\<forall>(th, t) \<in> set (takes as). worker th \<and> st_thread t \<in> {- 1, int th}"
  using assms by (auto simp: queue_step_def for_thread_none)

text \<open>So the order of a trace extends over a step.\<close>

lemma queue_step_extends:
  assumes qs: "queue_step (\<lambda>th. W th \<noteq> None) q as q'" and mono: "dom W \<subseteq> dom W'"
    and order: "for_thread k (pushes tr) = for_thread k (map snd (takes tr)) @ for_thread k q \<and>
      (\<forall>(th, t) \<in> set (takes tr). W th \<noteq> None \<and> st_thread t \<in> {- 1, int th})"
  shows "for_thread k (pushes (tr @ as)) = for_thread k (map snd (takes (tr @ as))) @ for_thread k q' \<and>
    (\<forall>(th, t) \<in> set (takes (tr @ as)). W' th \<noteq> None \<and> st_thread t \<in> {- 1, int th})"
proof -
  note step = queue_step_order [OF qs]
  have "W th \<noteq> None \<Longrightarrow> W' th \<noteq> None" for th using mono by auto
  with order step(2) have "\<forall>(th, t) \<in> set (takes (tr @ as)). W' th \<noteq> None \<and> st_thread t \<in> {- 1, int th}"
    unfolding trace_append set_append by blast
  with order step(1) [of k] show ?thesis by simp
qed

lemma took_other [simp]: "pc \<noteq> AtLoop \<Longrightarrow> took th pc w = []"
  by (cases pc) auto

text \<open>Statements a worker has left when nothing is to be done; \<open>over\<close>: its idle function has ended.\<close>

fun way_out :: "bool \<Rightarrow> worker_pc \<Rightarrow> nat" where
  "way_out over Ended = 0"
| "way_out over (Chosen t) = (if over then 1 else 7)"
| "way_out over (Picked tm t) = (if over then 2 else 8)"
| "way_out over AtLoop = (if over then 3 else 9)"
| "way_out over IdleLeave = (if over then 4 else 10)"
| "way_out over IdleCheck = 5"
| "way_out over IdleEnter = 6"
| "way_out over IdleWork = 11"
| "way_out over pc = 0"

definition all_way_out :: "'s sys \<Rightarrow> nat" where
  "all_way_out x =
     (\<Sum>th \<in> dom (workers x). case workers x th of
        Some (i, pc) \<Rightarrow> way_out (state_of (sw x) i = TERM_state) pc | None \<Rightarrow> 0)"

lemma way_out_le: "way_out over pc \<le> 11"
  by (cases pc) simp_all

lemma all_way_out_le: "all_way_out x \<le> 11 * card (dom (workers x))"
proof -
  have "all_way_out x \<le> (\<Sum>th \<in> dom (workers x). 11)"
    unfolding all_way_out_def using way_out_le by (intro sum_mono) (auto split: option.splits)
  then show ?thesis by simp
qed

text \<open>\<open>n\<close> statements of the workers alone, in any order.\<close>

inductive own_steps ::
  "('a scheduler_scheme \<Rightarrow> 'a scheduler_scheme result) \<Rightarrow> ('a scheduler_scheme \<Rightarrow> bool \<times> 'a scheduler_scheme) \<Rightarrow> nat \<Rightarrow>
   'a scheduler_scheme sys \<Rightarrow> 'a scheduler_scheme sys \<Rightarrow> bool"
  for tickle stopping where
  none: "own_steps tickle stopping 0 x x"
| one: "own_steps tickle stopping n x y \<Longrightarrow> workers y th = Some (i, pc) \<Longrightarrow> pc \<noteq> Ended \<Longrightarrow>
    \<not> blocked pc y \<Longrightarrow> run_stmt tickle stopping stale mem th i pc y = Inr z \<Longrightarrow>
    own_steps tickle stopping (Suc n) x z"

section \<open>What holds for every scheduler\<close>

context virtual_ops
begin

lemma moves_workers: "worker_moves th i pc pc' x x' \<Longrightarrow> dom (workers x') = dom (workers x)"
  by (auto simp: worker_moves_def)

lemma stopping_tasks: "stopping s = (b, s') \<Longrightarrow> m_tasks s' = m_tasks s"
  using truncate_eqD(1) [OF stopping_keeps [of s]] by simp

lemma stmt_queue:
  assumes "pc \<noteq> AtLoop" and "run_stmt tickle stopping stale mem th i pc x = Inr x'"
  shows "m_tasks (ss x') = m_tasks (ss x)"
proof -
  have goto: "ss (goto t p y) = ss y" for t p and y :: "'a scheduler_scheme sys"
    by (simp add: goto_def split: option.splits)
  show ?thesis
    using assms
    by (cases pc)
      (auto simp: result_simps goto split: option.splits if_splits prod.splits
        dest!: stopping_tasks tickle_keeps truncate_eqD(1))
qed

lemma take_queue:
  assumes w: "workers x th \<noteq> None" and tk: "run_take stale (GetThreadID th) (ss x) = Inr (tm, t, s)"
  shows "queue_step (\<lambda>th. workers x th \<noteq> None) (m_tasks (ss x)) (if has_work t then [Took th t] else []) (m_tasks s)"
proof -
  from run_take_cases [OF tk] consider "t = empty_task" "s = ss x"
    | k where "k < length (m_tasks (ss x))" "t = m_tasks (ss x) ! k" "has_work t"
      "st_thread t \<in> {- 1, int th}"
      "\<forall>j < k. st_thread (m_tasks (ss x) ! j) \<noteq> - 1 \<and> st_thread (m_tasks (ss x) ! j) \<noteq> int th"
      "m_tasks s = erase_at k (m_tasks (ss x))"
    by (auto simp: GetThreadID_def)
  then show ?thesis
  proof cases
    case 1
    then show ?thesis by (auto simp: queue_step_def)
  next
    case (2 k)
    let ?q = "m_tasks (ss x)"
    have "?q = take k ?q @ t # drop (Suc k) ?q" using 2(1,2) by (simp add: id_take_nth_drop)
    moreover have "\<forall>u \<in> set (take k ?q). st_thread u \<noteq> - 1 \<and> st_thread u \<noteq> int th"
      using 2(1,5) by (auto simp: in_set_conv_nth)
    ultimately show ?thesis
      using 2 w unfolding queue_step_def erase_at_def by fastforce
  qed
qed

lemma step_queue:
  assumes step: "sched_step tickle stopping act x as x'" and inv: "sys_inv x"
  shows "queue_step (\<lambda>th. workers x th \<noteq> None) (m_tasks (ss x)) as (m_tasks (ss x'))"
  using step
proof (cases rule: sched_step.cases)
  case (stmt th i pc stale mem)
  show ?thesis
  proof (cases "pc = AtLoop")
    case False
    with stmt stmt_queue [of pc stale mem th i x x'] show ?thesis
      by (auto simp: queue_step_def)
  next
    case True
    obtain tm t s where tk: "run_take stale (GetThreadID th) (ss x) = Inr (tm, t, s)"
      and x': "x' = goto th (Picked tm t) (x\<lparr>ss := s\<rparr>)"
      using stmt True by (auto simp: result_simps)
    with True stmt(1,2) take_queue [OF _ tk] show ?thesis by (simp add: goto_def)
  qed
next
  case (fiber_yield th i f W)
  then show ?thesis by (auto simp: queue_step_def goto_def)
next
  case (fiber_end th i f W)
  then show ?thesis by (auto simp: queue_step_def goto_def)
next
  case (operation ts s)
  with truncate_updD [OF conjunct1 [OF act_keeps [OF operation(3)]]] show ?thesis
    by (auto simp: queue_step_def)
next
  case (schedule task fc thread s)
  with truncate_updD [OF schedule_keeps [OF schedule(5)]] show ?thesis
    unfolding queue_step_def by (intro disjI1 exI [of _ "if has_work task then [task] else []"]) auto
next
  case (stop own b s)
  then have "m_tasks s = m_tasks (ss x)"
    using stop_keeps [OF stop(3)] by (simp add: scheduler.truncate_def split: if_splits)
  with stop show ?thesis by (simp add: queue_step_def)
qed (auto simp: queue_step_def)

lemma step_workers:
  assumes step: "sched_step tickle stopping act x as x'" and inv: "sys_inv x"
  shows "dom (workers x) \<subseteq> dom (workers x')"
  using step
proof (cases rule: sched_step.cases)
  case (stmt th i pc stale mem)
  from stmt_moves [OF inv stmt(2-6)] have "dom (workers x') = dom (workers x)" using moves_workers by blast
  then show ?thesis by simp
qed (auto simp: goto_def)

lemma run_order:
  assumes "sched_run tickle stopping act s0 tr x" and "sched_fresh s0"
  shows "for_thread k (pushes tr) = for_thread k (map snd (takes tr)) @ for_thread k (m_tasks (ss x)) \<and>
         (\<forall>(th, t) \<in> set (takes tr). workers x th \<noteq> None \<and> st_thread t \<in> {- 1, int th})"
  using assms
proof (induction rule: sched_run.induct)
  case start
  then show ?case by (simp add: sys_start_def sched_fresh_def)
next
  case (step tr x as x')
  then have inv: "sys_inv x" by (blast intro: run_inv)
  from queue_step_extends [OF step_queue [OF step.hyps(2) inv] step_workers [OF step.hyps(2) inv]] step
  show ?case by blast
qed

lemma can_enter:
  assumes "sys_inv x" and "workers x th = Some (i, pc)" and "stack_at th i pc = Native th"
    and "is_task (sw x) f" and "state_of (sw x) f = READY"
  shows "\<exists>W. resume True th f (sw x) = Inr W"
  using enter_fiber [OF assms] by metis

lemma can_leave:
  assumes "sys_inv x" and "workers x th = Some (i, pc)" and "stack_at th i pc = OnStack f"
  shows "(\<exists>W. yield True th f (sw x) = Inr W) \<and> (\<exists>W. main_func_return True th f (sw x) = Inr W)"
  using leave_fiber [OF assms] by metis

lemma locked_total:
  assumes inv: "sys_inv x" and w: "workers x th = Some (i, Locked f)"
  shows "\<exists>x'. run_stmt tickle stopping stale mem th i (Locked f) x = Inr x'"
proof (cases "state_of (sw x) f = TERM_state")
  case False
  have f: "is_task (sw x) f" using sys_worker [OF inv w] plain_task by (auto simp: worker_ok_def)
  have "state_of (sw x) f = READY"
    using False held_not_running [OF inv] w by (cases "state_of (sw x) f") auto
  with can_enter [OF inv w _ f] obtain W where "resume True th f (sw x) = Inr W" by auto
  with False show ?thesis by simp
qed simp

lemma no_abort:
  assumes inv: "sys_inv x" and w: "workers x th = Some (i, pc)" and mem: "mem \<noteq> None"
  shows "(\<exists>x'. run_stmt tickle stopping stale mem th i pc x = Inr x') \<and>
         (\<forall>f. pc = Inside f \<longrightarrow> (\<exists>W. yield True th f (sw x) = Inr W) \<and>
            (\<exists>W. main_func_return True th f (sw x) = Inr W))"
proof -
  have ok: "worker_ok x th i pc" by (rule sys_worker [OF inv w])
  have i: "is_task (sw x) i" using ok by (simp add: worker_ok_def)
  show ?thesis
  proof (cases pc)
    case AtLoop
    from sys_queue [OF inv] run_take_total [of "ss x"] obtain tm t s where
      "run_take stale (GetThreadID th) (ss x) = Inr (tm, t, s)"
      unfolding queue_ok_def by (metis prod_cases3)
    with AtLoop show ?thesis by simp
  next
    case (Picked tm t)
    with tickle_total [of "ss x"] show ?thesis by auto
  next
    case (Chosen t)
    obtain f W where "new_fiber (st_cb t) 0 True mem True (sw x) = Inr (f, W)"
      using new_fiber_total [OF mem] by blast
    with Chosen show ?thesis by (cases "st_fiber t"; cases "st_cb t") auto
  next
    case (Locked f)
    with locked_total [OF inv] w show ?thesis by blast
  next
    case (FreshLocked f)
    then have "is_task (sw x) f" "state_of (sw x) f = READY" using ok by (auto simp: worker_ok_def)
    with can_enter [OF inv w, of f] FreshLocked obtain W where "resume True th f (sw x) = Inr W" by auto
    with FreshLocked show ?thesis by simp
  next
    case (Inside f)
    with can_leave [OF inv w, of f] show ?thesis by simp
  next
    case IdleEnter
    then have "state_of (sw x) i = READY" using ok by (simp add: worker_ok_def)
    with can_enter [OF inv w _ i] IdleEnter obtain W where "resume True th i (sw x) = Inr W" by auto
    with IdleEnter show ?thesis by simp
  next
    case IdleCheck
    with can_leave [OF inv w, of i] show ?thesis by (auto split: prod.splits)
  next
    case IdleWork
    with can_leave [OF inv w, of i] show ?thesis by auto
  qed auto
qed

lemma exclusive:
  assumes inv: "sys_inv x" and "workers x t1 = Some (i1, p1)" and "workers x t2 = Some (i2, p2)"
    and "holds p1 = Some f" and "holds p2 = Some f"
  shows "t1 = t2"
  using sys_mutex [OF inv, of f t1] sys_mutex [OF inv, of f t2] assms(2-5) by auto

lemma counters:
  assumes inv: "sys_inv x"
  shows "unat (m_activeThreadCount (ss x)) = card (members busy x)"
    and "unat (m_idleThreadCount (ss x)) = card (members idling x)"
    and "hasIdleThreads (ss x) \<longleftrightarrow> (\<exists>th i pc. workers x th = Some (i, pc) \<and> idling pc)"
proof -
  have small: "card (members P x) < 2 ^ 64" for P
    using card_members_le [OF sys_finite [OF inv], of P] sys_card [OF inv] by simp
  then show a: "unat (m_activeThreadCount (ss x)) = card (members busy x)"
    and b: "unat (m_idleThreadCount (ss x)) = card (members idling x)"
    using sys_counters [OF inv] by (auto simp: counters_ok_def unat_of_nat)
  have "hasIdleThreads (ss x) \<longleftrightarrow> card (members idling x) \<noteq> 0"
    unfolding hasIdleThreads_def b [symmetric] by (simp add: word_less_nat_alt)
  also have "\<dots> \<longleftrightarrow> members idling x \<noteq> {}"
    using members_finite [OF sys_finite [OF inv], of idling] by simp
  finally show "hasIdleThreads (ss x) \<longleftrightarrow> (\<exists>th i pc. workers x th = Some (i, pc) \<and> idling pc)"
    by (auto simp: members_def)
qed

lemma quiescent:
  assumes inv: "sys_inv x" and "fst (stopping (ss x))"
  shows "m_tasks (ss x) = [] \<and> members busy x = {}"
proof -
  from stopping_quiet [OF assms(2)] have "m_activeThreadCount (ss x) = 0" "m_tasks (ss x) = []" by auto
  with counters(1) [OF inv] members_finite [OF sys_finite [OF inv], of busy] show ?thesis by simp
qed

lemma orphan_stays:
  assumes run: "sched_run tickle stopping act s0 tr x" and fresh: "sched_fresh s0"
    and t: "t \<in> set (pushes tr)" "st_thread t \<noteq> - 1"
    and no: "\<forall>th. workers x th \<noteq> None \<longrightarrow> int th \<noteq> st_thread t"
  shows "t \<in> set (m_tasks (ss x)) \<and> \<not> fst (stopping (ss x))"
proof -
  from run_order [OF run fresh, of "st_thread t"] no t(2)
  have none: "\<forall>u \<in> set (map snd (takes tr)). st_thread u \<noteq> st_thread t" by fastforce
  then have "for_thread (st_thread t) (pushes tr) = for_thread (st_thread t) (m_tasks (ss x))"
    using run_order [OF run fresh, of "st_thread t"] for_thread_none [OF none] by simp
  moreover have "t \<in> set (for_thread (st_thread t) (pushes tr))" using t by (simp add: for_thread_def)
  ultimately have "t \<in> set (m_tasks (ss x))" by (simp add: for_thread_def)
  with stopping_quiet [of "ss x"] show ?thesis by auto
qed

text \<open>Entering and leaving the idle fiber keeps \<open>stopping\<close> and is a step towards the end.\<close>

lemma shutdown_idle:
  assumes inv: "sys_inv x" and stp: "fst (stopping (ss x))" and w: "workers x th = Some (i, pc)"
    and pc: "pc \<in> {IdleEnter, IdleCheck, IdleWork}"
    and r: "run_stmt tickle stopping stale mem th i pc x = Inr x'" and w': "workers x' th = Some (i, pc')"
  shows "fst (stopping (ss x')) \<and>
     way_out (state_of (sw x') i = TERM_state) pc' < way_out (state_of (sw x) i = TERM_state) pc"
proof -
  note ok = sys_worker [OF inv w] and run = on_stack_running [OF inv w, of i]
  show ?thesis
  proof (cases pc)
    case IdleEnter
    then obtain W where W: "resume True th i (sw x) = Inr W" and x': "x' = goto th IdleCheck (x\<lparr>sw := W\<rparr>)"
      using r by (auto simp: result_simps)
    have ready: "state_of (sw x) i = READY" and i: "is_task (sw x) i"
      using ok IdleEnter by (simp_all add: worker_ok_def)
    with enter_fiber [OF inv w _ i ready] IdleEnter W obtain m where
      m: "t_scheduler_fiber (tls (sw x) th) = Some m" and "W = resumed th m i (sw x)" by auto
    with w w' stp IdleEnter i show ?thesis
      by (auto simp: x' goto_simp resumed_def is_task_def)
  next
    case IdleCheck
    then obtain W where W: "main_func_return True th i (sw x) = Inr W" and x': "x' = goto th IdleLeave (x\<lparr>ss := snd (stopping (ss x)), sw := W\<rparr>)"
      using r stp by (auto simp: result_simps split: prod.splits)
    obtain m where
      "W = yielded th m i (upd_fiber i (\<lambda>b. b\<lparr>fb_cb := None, m_state := TERM_state\<rparr>) (sw x))"
      using leave_fiber [OF inv w, of i] IdleCheck W by auto
    with w w' stp IdleCheck run show ?thesis by (auto simp: x' goto_simp yielded_def stopping_again)
  next
    case IdleWork
    then obtain W where W: "yield True th i (sw x) = Inr W" and x': "x' = goto th IdleLeave (x\<lparr>sw := W\<rparr>)"
      using r by (auto simp: result_simps)
    then obtain m where "W = yielded th m i (upd_fiber i (\<lambda>b. b) (sw x))"
      using leave_fiber [OF inv w, of i] IdleWork by auto
    with w w' stp IdleWork run show ?thesis by (auto simp: x' goto_simp yielded_def)
  qed (use pc in auto)
qed

lemma shutdown_stmt:
  assumes inv: "sys_inv x" and stp: "fst (stopping (ss x))" and w: "workers x th = Some (i, pc)"
    and "pc \<noteq> Ended"
    and r: "run_stmt tickle stopping stale mem th i pc x = Inr x'"
  shows "\<exists>pc'. worker_moves th i pc pc' x x' \<and> fst (stopping (ss x')) \<and>
     way_out (state_of (sw x') i = TERM_state) pc' < way_out (state_of (sw x) i = TERM_state) pc"
proof -
  have q: "m_tasks (ss x) = []" and "members busy x = {}" using quiescent [OF inv stp] by auto
  then have lazy: "\<not> busy pc" using w by (auto simp: members_def)
  then have "\<forall>f. pc \<noteq> Inside f" "\<not> blocked pc x" by (cases pc; auto simp: blocked_def has_work_def)+
  with stmt_moves [OF inv w] assms obtain pc' where mv: "worker_moves th i pc pc' x x'" by blast
  have w': "workers x' th = Some (i, pc')" using mv by (simp add: worker_moves_def)
  have ok: "worker_ok x th i pc" by (rule sys_worker [OF inv w])
  have term_of: "state_of (sw x) i = TERM_state" if "pc = Ended" using that ok by (simp add: worker_ok_def)
  have "fst (stopping (ss x')) \<and>
     way_out (state_of (sw x') i = TERM_state) pc' < way_out (state_of (sw x) i = TERM_state) pc"
  proof (cases pc)
    case AtLoop
    with r q w stp w' show ?thesis by (auto simp: run_take_def goto_simp)
  next
    case (Picked tm t)
    then obtain s where s: "(if tm then tickle (ss x) else Inr (ss x)) = Inr s"
      and x': "x' = goto th (Chosen t) (x\<lparr>ss := s\<rparr>)"
      using r by (auto simp: result_simps)
    then have "fst (stopping s) = fst (stopping (ss x))" using tickle_stopping by (auto split: if_splits)
    with Picked w w' stp show ?thesis by (auto simp: x' goto_simp)
  next
    case (Chosen t)
    with lazy have "st_fiber t = None" "st_cb t = None" by (auto simp: has_work_def)
    with r Chosen w w' stp show ?thesis by (auto simp: goto_simp idle_stopping split: if_splits)
  next
    case IdleLeave
    with r w w' stp show ?thesis by (auto simp: goto_simp idle_stopping)
  qed (use lazy assms shutdown_idle [OF inv stp w _ r w'] in auto)
  with mv show ?thesis by blast
qed

text \<open>A statement brings its worker nearer to the end and leaves the others where they are.\<close>

lemma shutdown_worker:
  assumes inv: "sys_inv x" and stp: "fst (stopping (ss x))" and w: "workers x th = Some (i, pc)"
    and "pc \<noteq> Ended"
    and r: "run_stmt tickle stopping stale mem th i pc x = Inr x'"
  shows "sys_inv x'" and "fst (stopping (ss x'))" and "dom (workers x') = dom (workers x)"
    and "\<exists>pc'. workers x' = (workers x)(th := Some (i, pc')) \<and>
      way_out (state_of (sw x') i = TERM_state) pc' < way_out (state_of (sw x) i = TERM_state) pc"
    and "\<And>t j p. workers x t = Some (j, p) \<Longrightarrow> t \<noteq> th \<Longrightarrow> state_of (sw x') j = state_of (sw x) j"
proof -
  from shutdown_stmt [OF assms] obtain pc' where mv: "worker_moves th i pc pc' x x'"
    and stp': "fst (stopping (ss x'))"
    and less: "way_out (state_of (sw x') i = TERM_state) pc' < way_out (state_of (sw x) i = TERM_state) pc"
    by blast
  have w': "workers x' = (workers x)(th := Some (i, pc'))" using mv by (simp add: worker_moves_def)
  have dom: "dom (workers x') = dom (workers x)" by (rule moves_workers [OF mv])
  have lazy: "\<not> busy pc" using quiescent [OF inv stp] w by (auto simp: members_def)
  have same: "state_of (sw x') j = state_of (sw x) j" if "workers x t = Some (j, p)" "t \<noteq> th" for t j p
  proof -
    have "is_task (sw x) j" using sys_worker [OF inv that(1)] by (simp add: worker_ok_def)
    moreover have "j \<notin> owned i pc" using sys_owned [OF inv that(1) w, of j] that(2) by auto
    moreover have "holds pc \<noteq> Some j" using lazy by (cases pc) auto
    ultimately show ?thesis using mv by (auto simp: worker_moves_def)
  qed
  show "sys_inv x'" by (rule sys_inv_moves [OF inv mv])
  show "fst (stopping (ss x'))" by (rule stp')
  show "dom (workers x') = dom (workers x)" by (rule dom)
  show "\<exists>pc'. workers x' = (workers x)(th := Some (i, pc')) \<and>
      way_out (state_of (sw x') i = TERM_state) pc' < way_out (state_of (sw x) i = TERM_state) pc"
    using w' less by blast
  show "\<And>t j p. workers x t = Some (j, p) \<Longrightarrow> t \<noteq> th \<Longrightarrow> state_of (sw x') j = state_of (sw x) j"
    by (rule same)
qed

lemma shutdown_decreases:
  assumes inv: "sys_inv x" and stp: "fst (stopping (ss x))" and w: "workers x th = Some (i, pc)"
    and "pc \<noteq> Ended"
    and r: "run_stmt tickle stopping stale mem th i pc x = Inr x'"
  shows "sys_inv x' \<and> fst (stopping (ss x')) \<and> dom (workers x') = dom (workers x) \<and>
         all_way_out x' < all_way_out x"
proof -
  note near = shutdown_worker [OF assms]
  note same = near(5)
  from near(4) obtain pc' where w': "workers x' = (workers x)(th := Some (i, pc'))"
    and less: "way_out (state_of (sw x') i = TERM_state) pc' < way_out (state_of (sw x) i = TERM_state) pc" by blast
  have "all_way_out x' < all_way_out x"
    unfolding all_way_out_def near(3)
  proof (rule sum_strict_mono_ex1 [OF sys_finite [OF inv]])
    show "\<exists>t \<in> dom (workers x). (case workers x' t of Some (j, p) \<Rightarrow> way_out (state_of (sw x') j = TERM_state) p
        | None \<Rightarrow> 0) < (case workers x t of Some (j, p) \<Rightarrow> way_out (state_of (sw x) j = TERM_state) p | None \<Rightarrow> 0)"
      using w less by (intro bexI [of _ th]) (auto simp: w')
    show "\<forall>t \<in> dom (workers x). (case workers x' t of Some (j, p) \<Rightarrow> way_out (state_of (sw x') j = TERM_state) p
        | None \<Rightarrow> 0) \<le> (case workers x t of Some (j, p) \<Rightarrow> way_out (state_of (sw x) j = TERM_state) p | None \<Rightarrow> 0)"
      using w less same by (auto simp: w')
  qed
  with near(1-3) show ?thesis by simp
qed

text \<open>What no statement of a worker and nobody else touches; only \<open>stop\<close> sets \<open>m_stopping\<close>.\<close>

lemma env_keeps_members:
  "tickle s = Inr s' \<Longrightarrow> m_stopping s' = m_stopping s \<and> m_useCaller s' = m_useCaller s \<and>
     m_schedulerFiber s' = m_schedulerFiber s"
  "stopping s = (b, s') \<Longrightarrow> m_stopping s' = m_stopping s \<and> m_useCaller s' = m_useCaller s \<and>
     m_schedulerFiber s' = m_schedulerFiber s"
  "act s ts s' \<Longrightarrow> m_useCaller s' = m_useCaller s \<and> m_schedulerFiber s' = m_schedulerFiber s"
  "scheduleLock tickle fc k s = Inr s' \<Longrightarrow> m_useCaller s' = m_useCaller s \<and>
     m_schedulerFiber s' = m_schedulerFiber s"
  "stop_request tickle stopping own s = Inr (b, s') \<Longrightarrow> m_useCaller s' = m_useCaller s \<and>
     m_schedulerFiber s' = m_schedulerFiber s"
  using tickle_keeps [of s s'] stopping_keeps [of s] act_keeps [of s ts s'] schedule_keeps [of fc k s s']
    stop_keeps [of own s b s']
  by (auto simp: scheduler.truncate_def split: if_splits)

lemma stmt_keeps_members:
  assumes "run_stmt tickle stopping stale mem th i pc x = Inr x'"
  shows "m_stopping (ss x') = m_stopping (ss x)" and "m_useCaller (ss x') = m_useCaller (ss x)"
    and "m_schedulerFiber (ss x') = m_schedulerFiber (ss x)"
proof -
  have goto: "ss (goto t p y) = ss y" for t p and y :: "'a scheduler_scheme sys"
    by (simp add: goto_def split: option.splits)
  have take: "run_take stale me s = Inr (tm, t, s') \<Longrightarrow> m_stopping s' = m_stopping s \<and>
      m_useCaller s' = m_useCaller s \<and> m_schedulerFiber s' = m_schedulerFiber s"
    for me tm t and s s' :: "'a scheduler_scheme"
    by (auto simp: run_take_def result_simps split: prod.splits option.splits)
  have "m_stopping (ss x') = m_stopping (ss x) \<and> m_useCaller (ss x') = m_useCaller (ss x) \<and>
      m_schedulerFiber (ss x') = m_schedulerFiber (ss x)"
    using assms
    by (cases pc)
      (auto simp: result_simps goto split: option.splits if_splits prod.splits
        dest!: take env_keeps_members(1,2))
  then show "m_stopping (ss x') = m_stopping (ss x)" "m_useCaller (ss x') = m_useCaller (ss x)"
    "m_schedulerFiber (ss x') = m_schedulerFiber (ss x)" by simp_all
qed

lemma run_keeps_members:
  assumes "sched_run tickle stopping act s0 tr x"
  shows "m_useCaller (ss x) = m_useCaller s0 \<and> m_schedulerFiber (ss x) = m_schedulerFiber s0"
  using assms
proof (induction rule: sched_run.induct)
  case start
  show ?case by (simp add: sys_start_def)
next
  case (step tr x as x')
  from step.hyps(2) have "m_useCaller (ss x') = m_useCaller (ss x) \<and> m_schedulerFiber (ss x') = m_schedulerFiber (ss x)"
    by (induction rule: sched_step.induct)
      (auto simp: stmt_keeps_members goto_def dest!: env_keeps_members split: option.splits)
  with step.IH show ?case by simp
qed

lemma shutdown_bound:
  assumes "own_steps tickle stopping n x y" and "sys_inv x" and "fst (stopping (ss x))"
  shows "sys_inv y \<and> fst (stopping (ss y)) \<and> dom (workers y) = dom (workers x) \<and> n + all_way_out y \<le> all_way_out x"
  using assms
proof (induction rule: own_steps.induct)
  case (one n x y th i pc stale mem z)
  then have y: "sys_inv y" "fst (stopping (ss y))" "dom (workers y) = dom (workers x)" "n + all_way_out y \<le> all_way_out x"
    by simp_all
  from shutdown_decreases [OF y(1,2) one.hyps(2,3,5)] y(3,4) show ?case by simp
qed simp

lemma shutdown:
  assumes run: "sched_run tickle stopping act s0 tr x" and "sched_fresh s0" and stp: "fst (stopping (ss x))"
    and own: "own_steps tickle stopping n x y"
  shows "n \<le> 11 * card (dom (workers x)) \<and>
         (\<forall>th i pc. workers y th = Some (i, pc) \<longrightarrow> pc = Ended \<or> (\<exists>z. own_steps tickle stopping (Suc n) x z))"
proof -
  have inv: "sys_inv x" by (rule run_inv [OF run assms(2)])
  note y = shutdown_bound [OF own inv stp]
  have "\<exists>z. own_steps tickle stopping (Suc n) x z" if w: "workers y th = Some (i, pc)" "pc \<noteq> Ended" for th i pc
  proof -
    from quiescent [of y] y have "members busy y = {}" by blast
    then have "\<not> busy pc" using w by (auto simp: members_def)
    then have "\<not> blocked pc y" by (cases pc) (auto simp: blocked_def has_work_def)
    moreover obtain z where "run_stmt tickle stopping False (Some 0) th i pc y = Inr z"
      using no_abort [of y th i pc "Some 0" False] y w by blast
    ultimately show ?thesis using own_steps.one [OF own w] by blast
  qed
  with y all_way_out_le [of x] show ?thesis by (metis add_leD1 le_trans)
qed

text \<open>Hence there is an order in which the workers all return, and \<open>stopping()\<close> still holds then.\<close>

lemma shutdown_completes:
  assumes run: "sched_run tickle stopping act s0 tr x" and "sched_fresh s0" and stp: "fst (stopping (ss x))"
  shows "\<exists>n y. own_steps tickle stopping n x y \<and> (\<forall>th i pc. workers y th = Some (i, pc) \<longrightarrow> pc = Ended)"
proof -
  let ?P = "\<lambda>n. \<exists>y. own_steps tickle stopping n x y"
  have zero: "?P 0" by (blast intro: own_steps.none)
  have bound: "n \<le> 11 * card (dom (workers x))" if "?P n" for n using shutdown [OF assms] that by blast
  define n where "n = Greatest ?P"
  have n: "?P n" unfolding n_def using GreatestI_nat [of ?P 0, OF zero bound] .
  have "\<not> ?P (Suc n)" using Greatest_le_nat [of ?P "Suc n", OF _ bound] unfolding n_def by auto
  moreover from n obtain y where y: "own_steps tickle stopping n x y" by blast
  ultimately show ?thesis using shutdown [OF assms y] by blast
qed

lemma shutdown_stays:
  assumes "sched_run tickle stopping act s0 tr x" and "sched_fresh s0" and "fst (stopping (ss x))"
    and "own_steps tickle stopping n x y"
  shows "fst (stopping (ss y))"
  using shutdown_bound [OF assms(4) run_inv [OF assms(1,2)] assms(3)] by blast

end

end
