(* ===== verification/Scheduler_Theorems.thy ===== *)
theory Scheduler_Theorems
  imports Scheduler_Props
begin

text \<open>
  The properties of the scheduler with the virtual functions of the base class, each with a run in
  which it applies, and those of its construction, start and stop.
\<close>

section \<open>A run\<close>

abbreviation base_run :: "action list \<Rightarrow> scheduler sys \<Rightarrow> bool" where
  "base_run \<equiv> sched_run Scheduler_tickle Scheduler_stopping Scheduler_idle_act (new_scheduler False)"

abbreviation base_stmt where
  "base_stmt \<equiv> run_stmt Scheduler_tickle Scheduler_stopping"

lemma new_scheduler_fresh: "sched_fresh (new_scheduler junk)"
  by (simp add: sched_fresh_def new_scheduler_def)

text \<open>Thread 5 starts \<open>run\<close>; a callback is scheduled; the thread takes it.\<close>

definition demo_world :: fiber_world where
  "demo_world = (case run_prologue False (Some 9) 5 (new_scheduler False) init_world of
     Inr (_, W) \<Rightarrow> W | Inl _ \<Rightarrow> init_world)"

lemma demo_prologue: "run_prologue False (Some 9) 5 (new_scheduler False) init_world = Inr (1, demo_world)"
  by (simp add: demo_world_def run_prologue_def new_scheduler_def GetThreadID_def Fiber.GetThis_def
      new_main_fiber_def new_fiber_def init_world_def Let_def SetThis_def)

definition demo_task :: "int \<Rightarrow> sched_task" where
  "demo_task k = \<lparr>st_fiber = None, st_cb = Some (UserFn 1), st_thread = k\<rparr>"

definition demo_sys :: "sched_task list \<Rightarrow> worker_pc \<Rightarrow> scheduler sys" where
  "demo_sys q pc = \<lparr>ss = (new_scheduler False)\<lparr>m_tasks := q, m_activeThreadCount := (if busy pc then 1 else 0)\<rparr>,
     sw = demo_world, workers = [5 \<mapsto> (1, pc)], mutex_of = (\<lambda>_. None)\<rparr>"

lemma demo_spawned: "base_run [] (demo_sys [] AtLoop)"
proof -
  have "base_run [] (sys_start (new_scheduler False))" by (rule sched_run.start)
  from sched_run.step [OF this sched_step.spawn [of _ 5 False "Some 9" 1 demo_world]] demo_prologue
  show ?thesis by (simp add: sys_start_def demo_sys_def new_scheduler_def init_world_def)
qed

lemma demo_scheduled: "base_run [Pushed (demo_task k)] (demo_sys [demo_task k] AtLoop)"
  using sched_run.step [OF demo_spawned
      sched_step.schedule [OF refl, of "CbCopied (Some (UserFn 1))" k]]
  by (simp add: demo_sys_def demo_task_def has_work_def scheduleLock_def Scheduler_tickle_def Let_def
      new_scheduler_def)

lemma demo_taken:
  "base_run [Pushed (demo_task 5), Took 5 (demo_task 5)] (demo_sys [] (Picked True (demo_task 5)))"
proof -
  have "base_stmt True (Some 9) 5 1 AtLoop (demo_sys [demo_task 5] AtLoop) =
      Inr (demo_sys [] (Picked True (demo_task 5)))"
    by (simp add: demo_sys_def run_take_def demo_task_def GetThreadID_def has_work_def goto_def
        new_scheduler_def)
  from sched_run.step [OF demo_scheduled sched_step.stmt [OF _ _ _ _ this]] show ?thesis
    by (simp add: demo_sys_def blocked_def has_work_def demo_task_def)
qed

lemma demo_sys_workers [simp]: "workers (demo_sys q pc) 5 = Some (1, pc)"
  by (simp add: demo_sys_def)

text \<open>One statement of a worker that cannot abort, as a step of a run.\<close>

lemma base_run_stmt:
  assumes "base_run tr x" and "workers x th = Some (i, pc)" and "pc \<noteq> AtLoop" and "pc \<noteq> Ended"
    and "\<forall>f. pc \<noteq> Inside f" and "\<not> blocked pc x" and "base_stmt stale mem th i pc x = Inr x'"
  shows "base_run tr x'"
  using sched_run.step [OF assms(1) sched_step.stmt [OF assms(2,4-7)]] assms(3) by simp

text \<open>The callback gets its fiber, whose mutex the worker locks.\<close>

lemma demo_fresh:
  "\<exists>tr x f. base_run tr x \<and> workers x 5 = Some (1, FreshLocked f)"
proof -
  let ?t = "demo_task 5"
  have t: "st_fiber ?t = None" "st_cb ?t = Some (UserFn 1)" by (simp_all add: demo_task_def)
  let ?x1 = "demo_sys [] (Chosen ?t)"
  have "base_run [Pushed ?t, Took 5 ?t] ?x1"
    by (rule base_run_stmt [OF demo_taken, of 5 1 "Picked True ?t" True "Some 9"])
      (simp_all add: blocked_def Scheduler_tickle_def goto_def, simp add: demo_sys_def)
  moreover obtain f W where W: "new_fiber (Some (UserFn 1)) 0 True (Some 9) True demo_world = Inr (f, W)"
    using new_fiber_total [of "Some 9"] by blast
  ultimately have r: "base_run [Pushed ?t, Took 5 ?t]
      (?x1\<lparr>sw := W, workers := [5 \<mapsto> (1, Fresh f)]\<rparr>)" (is "base_run _ ?x2")
    by (rule_tac base_run_stmt [of _ ?x1 5 1 "Chosen ?t" True "Some 9"])
      (simp_all add: blocked_def t goto_def demo_sys_def)
  have "base_run [Pushed ?t, Took 5 ?t] (goto 5 (FreshLocked f) (?x2\<lparr>mutex_of := [f \<mapsto> 5]\<rparr>))"
    by (rule base_run_stmt [OF r, of 5 1 "Fresh f" True "Some 9"])
      (simp_all add: blocked_def demo_sys_def)
  then show ?thesis by (intro exI conjI) (assumption, simp add: goto_def)
qed

text \<open>The scheduler is stopped while the worker is in its loop.\<close>

definition demo_stop :: "worker_pc \<Rightarrow> 64 word \<Rightarrow> scheduler sys" where
  "demo_stop pc n = \<lparr>ss = (new_scheduler False)\<lparr>m_stopping := True, m_idleThreadCount := n\<rparr>,
     sw = demo_world, workers = [5 \<mapsto> (1, pc)], mutex_of = (\<lambda>_. None)\<rparr>"

lemma demo_stop_workers [simp]: "workers (demo_stop pc n) 5 = Some (1, pc)"
  by (simp add: demo_stop_def)

lemma demo_stop_stopping: "fst (Scheduler_stopping (ss (demo_stop pc n)))"
  by (simp add: demo_stop_def Scheduler_stopping_def new_scheduler_def)

lemma demo_stopped: "base_run [] (demo_stop AtLoop 0)"
proof -
  have "stop_request Scheduler_tickle Scheduler_stopping False (ss (demo_sys [] AtLoop)) =
      Inr (True, ss (demo_stop AtLoop 0))"
    by (simp add: stop_request_def demo_sys_def demo_stop_def new_scheduler_def Scheduler_stopping_def)
  from sched_run.step [OF demo_spawned sched_step.stop [OF this]] show ?thesis
    by (simp add: demo_sys_def demo_stop_def)
qed

lemma demo_stop_take:
  "base_stmt True (Some 9) 5 1 AtLoop (demo_stop AtLoop 0) = Inr (demo_stop (Picked False empty_task) 0)"
  by (simp add: demo_stop_def run_take_def new_scheduler_def goto_def)

lemma demo_idle: "base_run [] (demo_stop IdleEnter 1)"
proof -
  have "state_of demo_world 1 \<noteq> TERM_state"
    by (simp add: demo_world_def run_prologue_def new_scheduler_def GetThreadID_def Fiber.GetThis_def
        new_main_fiber_def new_fiber_def init_world_def Let_def SetThis_def)
  have "base_run [] (demo_stop (Picked False empty_task) 0)"
    using sched_run.step [OF demo_stopped sched_step.stmt [OF _ _ _ _ demo_stop_take]]
    by (simp add: blocked_def)
  then have "base_run [] (demo_stop (Chosen empty_task) 0)"
    by (rule base_run_stmt [of _ _ 5 1 "Picked False empty_task" True "Some 9"])
      (simp_all add: blocked_def demo_stop_def goto_def)
  then show ?thesis
    by (rule base_run_stmt [of _ _ 5 1 "Chosen empty_task" True "Some 9"])
      (use \<open>state_of demo_world 1 \<noteq> TERM_state\<close> in
        \<open>simp_all add: blocked_def demo_stop_def goto_def new_scheduler_def\<close>)
qed

lemma demo_check:
  "\<exists>x. base_run [] x \<and> workers x 5 = Some (1, IdleCheck) \<and> ss x = ss (demo_stop IdleCheck 1)"
proof -
  from base.no_abort [OF base.run_inv [OF demo_idle new_scheduler_fresh], of 5 1 IdleEnter "Some 9" True]
  obtain W where W: "resume True 5 1 demo_world = Inr W"
    by (auto simp: result_simps demo_stop_def)
  have "base_run [] (goto 5 IdleCheck (demo_stop IdleEnter 1\<lparr>sw := W\<rparr>))"
    by (rule base_run_stmt [OF demo_idle, of 5 1 IdleEnter True "Some 9"])
      (use W in \<open>simp_all add: blocked_def demo_stop_def\<close>)
  then show ?thesis by (intro exI conjI) (assumption, simp_all add: goto_def demo_stop_def)
qed

section \<open>Safety of the workers\<close>

text \<open>
  C1. As long as the program keeps to task fibers, no worker aborts. That is: the fibers it schedules or
  resets are task fibers, neither the main fiber of a thread nor the idle fiber of a worker; the function
  of a fiber yields and ends but resumes no other fiber; and \<open>malloc\<close> and the context calls succeed. Then,
  in every interleaving of the workers, of the functions of the fibers and of code that schedules, creates
  or resets fibers, each statement of \<open>Scheduler::run\<close> succeeds: the assertion in \<open>Fiber::resume\<close> holds
  whenever a worker gets there with the fiber's mutex, and so does that in \<open>yield\<close> when a fiber leaves. A
  program that schedules a main fiber does abort (\<open>scheduled_main_fiber_aborts\<close> below), and so does one
  whose fibers resume each other (\<open>Fiber_Misuse\<close>).
\<close>

theorem workers_never_abort:
  assumes "base_run tr x" and "workers x th = Some (i, pc)" and "mem \<noteq> None"
  shows "(\<exists>x'. base_stmt stale mem th i pc x = Inr x') \<and>
         (\<forall>f. pc = Inside f \<longrightarrow> (\<exists>W. yield True th f (sw x) = Inr W) \<and>
            (\<exists>W. main_func_return True th f (sw x) = Inr W))"
  using base.no_abort [OF base.run_inv [OF assms(1) new_scheduler_fresh] assms(2,3)] .

lemma workers_never_abort_witness:
  "\<exists>x'. base_stmt True (Some 9) 5 1 (Picked True (demo_task 5)) (demo_sys [] (Picked True (demo_task 5))) = Inr x'"
  using workers_never_abort [OF demo_taken demo_sys_workers, of "Some 9" True] by blast

text \<open>
  C3. A task fiber is executed by at most one worker at a time: two workers that hold the mutex of the
  same fiber, or are inside it, are the same worker, and only the worker inside a fiber executes on
  its stack.
\<close>

theorem fiber_run_by_one_worker:
  assumes "base_run tr x" and "workers x t1 = Some (i1, p1)" and "workers x t2 = Some (i2, p2)"
    and "holds p1 = Some f" and "holds p2 = Some f"
  shows "t1 = t2 \<and> mutex_of x f = Some t1 \<and> (\<forall>t. flow_of (sw x) t = OnStack f \<longrightarrow> t = t1)"
proof -
  have inv: "sys_inv x" by (rule base.run_inv [OF assms(1) new_scheduler_fresh])
  have mine: "mutex_of x f = Some t1" using sys_mutex [OF inv] assms(2,4) by blast
  have "t = t1" if fl: "flow_of (sw x) t = OnStack f" for t
  proof -
    from fl sys_free [OF inv, of t] obtain j p where jp: "workers x t = Some (j, p)" by fastforce
    with sys_worker [OF inv jp] fl have "stack_at t j p = OnStack f" by (simp add: worker_ok_def)
    moreover have "f = j \<Longrightarrow> t = t1"
      using sys_owned [OF inv jp assms(2), of f] sys_worker [OF inv assms(2)] assms(4)
        plain_owned [OF _ jp, of f] by (cases p1) (auto simp: worker_ok_def)
    ultimately show ?thesis
      using sys_mutex [OF inv, of f t] jp mine by (cases p) auto
  qed
  with mine base.exclusive [OF inv assms(2-5)] show ?thesis by blast
qed

lemma fiber_run_by_one_worker_witness:
  "\<exists>(x :: scheduler sys) f. workers x 5 = Some (1, FreshLocked f) \<and> mutex_of x f = Some 5"
proof -
  obtain tr x f where x: "base_run tr x" "workers x 5 = Some (1, FreshLocked f)" using demo_fresh by blast
  from fiber_run_by_one_worker [OF x(1) x(2) x(2), of f] x(2) show ?thesis by auto
qed

text \<open>
  C4. The two atomic counters are exact: at any moment \<open>m_activeThreadCount\<close> is the number of workers
  that took a task and have not put it away, and \<open>m_idleThreadCount\<close> the number of those that are in their
  idle function or about to enter or leave it; \<open>hasIdleThreads\<close> says whether there are any.
\<close>

theorem counters_exact:
  assumes "base_run tr x"
  shows "unat (m_activeThreadCount (ss x)) = card (members busy x) \<and>
         unat (m_idleThreadCount (ss x)) = card (members idling x) \<and>
         (hasIdleThreads (ss x) \<longleftrightarrow> (\<exists>th i pc. workers x th = Some (i, pc) \<and> idling pc))"
  using base.counters [OF base.run_inv [OF assms new_scheduler_fresh]] by blast

lemma counters_exact_witness:
  "unat (m_activeThreadCount (ss (demo_sys [] (Picked True (demo_task 5))))) =
     card (members busy (demo_sys [] (Picked True (demo_task 5)))) \<and>
   unat (m_idleThreadCount (ss (demo_stop IdleEnter 1))) = card (members idling (demo_stop IdleEnter 1))"
  using counters_exact [OF demo_taken] counters_exact [OF demo_idle] by blast

section \<open>The tasks\<close>

text \<open>
  C2. Every scheduled task is taken exactly once or still queued, and in order: for every thread id,
  and for the tasks any thread may run, the tasks scheduled are those taken followed by those in the
  queue. A task is only taken by a worker, and by the thread it is pinned to if it is pinned.
\<close>

theorem tasks_taken_once_in_order:
  assumes "base_run tr x"
  shows "for_thread k (pushes tr) = for_thread k (map snd (takes tr)) @ for_thread k (m_tasks (ss x)) \<and>
         (\<forall>(th, t) \<in> set (takes tr). workers x th \<noteq> None \<and> st_thread t \<in> {- 1, int th})"
  by (rule base.run_order [OF assms new_scheduler_fresh])

lemma tasks_taken_once_in_order_witness:
  "for_thread 5 [demo_task 5] = for_thread 5 (map snd [(5 :: nat, demo_task 5)]) @ for_thread 5 []"
  using tasks_taken_once_in_order [OF demo_taken, of 5] by (simp add: demo_sys_def demo_task_def)

text \<open>
  C31. A task pinned to a thread that is none of the workers is never run and keeps the scheduler
  alive: it stays in the queue whatever happens, and \<open>stopping()\<close> is false as long as no worker has
  that thread id.
\<close>

theorem orphan_task_blocks_stop:
  assumes "base_run tr x" and "t \<in> set (pushes tr)" and "st_thread t \<noteq> - 1"
    and "\<forall>th. workers x th \<noteq> None \<longrightarrow> int th \<noteq> st_thread t"
  shows "t \<in> set (m_tasks (ss x)) \<and> \<not> fst (Scheduler_stopping (ss x))"
  by (rule base.orphan_stays [OF assms(1) new_scheduler_fresh assms(2-4)])

lemma orphan_task_blocks_stop_witness:
  "demo_task 77 \<in> set (m_tasks (ss (demo_sys [demo_task 77] AtLoop)))"
  using orphan_task_blocks_stop [OF demo_scheduled, of "demo_task 77" 77]
  by (simp add: demo_sys_def demo_task_def)

section \<open>Stopping\<close>

text \<open>
  C6. A worker gives up only when there is nothing left: if the idle function of a worker ends, then
  \<open>stop\<close> was called, the queue is empty and no worker has a task in hand; and \<open>run\<close> returns only after
  that.
\<close>

theorem workers_leave_when_quiescent:
  assumes "base_run tr x" and "workers x th = Some (i, pc)"
    and "base_stmt stale mem th i pc x = Inr x'"
  shows "(pc = IdleCheck \<and> state_of (sw x') i = TERM_state \<longrightarrow>
            m_stopping (ss x) \<and> m_tasks (ss x) = [] \<and> members busy x = {}) \<and>
         (pc \<noteq> Ended \<and> workers x' th = Some (i, Ended) \<longrightarrow> state_of (sw x) i = TERM_state)"
proof (intro conjI impI)
  have inv: "sys_inv x" by (rule base.run_inv [OF assms(1) new_scheduler_fresh])
  {
    assume pc: "pc = IdleCheck \<and> state_of (sw x') i = TERM_state"
    have "state_of (sw x) i = RUNNING" using on_stack_running [OF inv assms(2), of i] pc by simp
    then have stp: "fst (Scheduler_stopping (ss x))"
      using assms(2,3) pc by (auto simp: goto_def split: if_splits prod.splits)
    with base.quiescent [OF inv stp] show "m_stopping (ss x)" "m_tasks (ss x) = []" "members busy x = {}"
      by (auto simp: Scheduler_stopping_def)
  }
  assume "pc \<noteq> Ended \<and> workers x' th = Some (i, Ended)"
  with assms(2,3) show "state_of (sw x) i = TERM_state"
    by (cases pc) (auto simp: goto_def result_simps split: option.splits if_splits prod.splits)
qed

lemma workers_leave_when_quiescent_witness:
  "\<exists>x x'. base_run [] x \<and> base_stmt True (Some 9) 5 1 IdleCheck x = Inr x' \<and>
     (state_of (sw x') 1 = TERM_state \<longrightarrow> members busy x = {})"
proof -
  obtain x where x: "base_run [] x" "workers x 5 = Some (1, IdleCheck)" using demo_check by blast
  from base.no_abort [OF base.run_inv [OF x(1) new_scheduler_fresh] x(2), of "Some 9" True] obtain x' where
    x': "base_stmt True (Some 9) 5 1 IdleCheck x = Inr x'" by blast
  from workers_leave_when_quiescent [OF x x'] x(1) x' show ?thesis by blast
qed

text \<open>
  C5. Shutdown terminates: once \<open>stopping()\<close> holds and nobody schedules any more, the workers together
  execute at most eleven times their number of statements, in whatever order, and as long as one has not returned from \<open>run\<close>
  the next statement is possible. So there is an order in which every worker returns and \<open>stop\<close> has
  joined them all, and whenever that is, the destructor's assertion holds and it only clears the
  pointer of the thread that executes it.
\<close>

theorem shutdown_terminates:
  assumes "base_run tr x" and "fst (Scheduler_stopping (ss x))"
    and "own_steps Scheduler_tickle Scheduler_stopping n x y"
  shows "n \<le> 11 * card (dom (workers x)) \<and>
         (\<forall>th i pc. workers y th = Some (i, pc) \<longrightarrow> pc = Ended \<or>
            (\<exists>z. own_steps Scheduler_tickle Scheduler_stopping (Suc n) x z)) \<and>
         (\<exists>k z. own_steps Scheduler_tickle Scheduler_stopping k x z \<and>
            (\<forall>th i pc. workers z th = Some (i, pc) \<longrightarrow> pc = Ended)) \<and>
         Scheduler_destruct Scheduler_stopping self me (ss y) R =
           Inr (if t_scheduler R me = Some self then R\<lparr>t_scheduler := (t_scheduler R)(me := None)\<rparr> else R)"
  using base.shutdown [OF assms(1) new_scheduler_fresh assms(2,3)]
    base.shutdown_completes [OF assms(1) new_scheduler_fresh assms(2)]
    base.shutdown_stays [OF assms(1) new_scheduler_fresh assms(2,3)]
  by (simp add: Scheduler_destruct_def)

lemma shutdown_terminates_witness:
  "\<exists>y. own_steps Scheduler_tickle Scheduler_stopping 1 (demo_stop AtLoop 0) y \<and>
     (1 :: nat) \<le> 11 * card (dom (workers (demo_stop AtLoop 0))) \<and>
     (\<exists>z. own_steps Scheduler_tickle Scheduler_stopping 2 (demo_stop AtLoop 0) z) \<and>
     (\<exists>k z. own_steps Scheduler_tickle Scheduler_stopping k (demo_stop AtLoop 0) z \<and>
        (\<forall>th i pc. workers z th = Some (i, pc) \<longrightarrow> pc = Ended))"
proof -
  have "own_steps Scheduler_tickle Scheduler_stopping 1 (demo_stop AtLoop 0)
      (demo_stop (Picked False empty_task) 0)"
    using own_steps.one [OF own_steps.none _ _ _ demo_stop_take] by (simp add: blocked_def)
  note own = this and bound = shutdown_terminates [OF demo_stopped demo_stop_stopping this]
  have "Picked False empty_task = Ended \<or>
      (\<exists>z. own_steps Scheduler_tickle Scheduler_stopping (Suc 1) (demo_stop AtLoop 0) z)"
    using bound demo_stop_workers by blast
  then have "\<exists>z. own_steps Scheduler_tickle Scheduler_stopping 2 (demo_stop AtLoop 0) z"
    by (simp add: numeral_2_eq_2)
  with own bound show ?thesis by blast
qed

section \<open>Outside the discipline\<close>

text \<open>
  Scheduling the main fiber of a thread aborts the program: it is RUNNING for its whole life, so
  the worker that takes the task fails the assertion of \<open>resume\<close>. This is what
  \<open>scheduleLock(Fiber::GetThis())\<close> on a thread outside any task fiber does.
\<close>

lemma scheduled_main_fiber_aborts:
  assumes "fiber_reach (sw x)" and "t_scheduler_fiber (tls (sw x) t) = Some m"
  shows "run_stmt tickle stopping stale mem th i (Locked m) x = Inl AssertionFailed"
proof -
  have "state_of (sw x) m = RUNNING"
    using fw_inv_thread [OF fw_inv_reach [OF assms(1)], of t] assms(2) by (simp add: thread_ok_def)
  then show ?thesis by (simp add: resume_not_ready)
qed

lemma scheduled_main_fiber_aborts_witness:
  "base_stmt True (Some 9) 5 7 (Locked 0) (demo_sys [] AtLoop\<lparr>sw := W_demo\<rparr>) = Inl AssertionFailed"
  by (rule scheduled_main_fiber_aborts [of _ 1]) (simp_all add: W_demo_reach W_demo_fields [unfolded One_nat_def])

end
