(* ===== verification/Scheduler_Control.thy ===== *)
theory Scheduler_Control
  imports Scheduler
begin

text \<open>
  Construction, start and stop of a scheduler, and the three levels of the calling thread when it
  takes part in the scheduling: its main fiber, the scheduler fiber, and the tasks.
\<close>

section \<open>The pool of threads\<close>

lemma start_loop_spec:
  "length (m_threads s) = i + n \<Longrightarrow>
   start_loop (\<lambda>k name. Inr (obj k name, tid k name)) i n s =
     Inr (s\<lparr>m_threads := take i (m_threads s) @
              map (\<lambda>k. obj k (m_name s @ ''_'' @ to_string k)) [i..<i + n],
            m_threadIDs := m_threadIDs s @
              map (\<lambda>k. tid k (m_name s @ ''_'' @ to_string k)) [i..<i + n]\<rparr>)"
proof (induction n arbitrary: i s)
  case 0
  then show ?case by simp
next
  case (Suc n)
  let ?name = "\<lambda>k. m_name s @ ''_'' @ to_string k"
  let ?s = "s\<lparr>m_threads := (m_threads s)[i := obj i (?name i)],
              m_threadIDs := m_threadIDs s @ [tid i (?name i)]\<rparr>"
  have "length (m_threads ?s) = Suc i + n" using Suc.prems by simp
  note IH = Suc.IH [OF this]
  have "take (Suc i) ((m_threads s)[i := obj i (?name i)]) = take i (m_threads s) @ [obj i (?name i)]"
    using Suc.prems by (simp add: take_Suc_conv_app_nth)
  moreover have "[i..<i + Suc n] = i # [Suc i..<Suc i + n]" by (simp add: upt_conv_Cons)
  ultimately show ?case using IH by simp
qed

text \<open>
  \<open>start\<close> creates exactly \<open>m_threadCount\<close> threads running \<open>run\<close>, the i-th named after the
  scheduler and i, and records their ids in order; on a scheduler that was stopped it does nothing,
  and a second \<open>start\<close> while threads exist fails its assertion.
\<close>

lemma start_creates_pool:
  "start (\<lambda>k name. Inr (obj k name, tid k name)) s =
    (if m_stopping s then Inr s
     else if m_threads s \<noteq> [] then Inl AssertionFailed
     else Inr (s\<lparr>m_threads := map (\<lambda>k. obj k (m_name s @ ''_'' @ to_string k)) [0..<unat (m_threadCount s)],
                 m_threadIDs := m_threadIDs s @
                   map (\<lambda>k. tid k (m_name s @ ''_'' @ to_string k)) [0..<unat (m_threadCount s)]\<rparr>))"
  unfolding start_def
  using start_loop_spec [where i = 0 and n = "unat (m_threadCount s)" and obj = obj and tid = tid
      and s = "s\<lparr>m_threads := replicate (unat (m_threadCount s)) 0\<rparr>"]
  by simp

lemma start_creates_pool_names:
  "map (\<lambda>k. ''_'' @ to_string k) [0..<12] =
     [''_0'', ''_1'', ''_2'', ''_3'', ''_4'', ''_5'', ''_6'', ''_7'', ''_8'', ''_9'', ''_10'', ''_11'']"
  by code_simp

section \<open>The constructor and stop\<close>

text \<open>
  The constructor with \<open>use_caller\<close> leaves \<open>m_useCaller\<close> as it found it in memory, drops the name,
  also as the name of the calling thread, and records the thread id -1 instead of the caller's. So
  whether \<open>stop\<close>, called by the constructing thread as it must be, aborts depends on that memory.
\<close>

lemma constructor_forgets_its_arguments:
  assumes "Scheduler_construct junk junk2 mem self th threads True name R = Inr (s, R')"
  shows "m_name s = '''' \<and> GetName th (rt_threads R') = '''' \<and> m_threadIDs s = [- 1] \<and>
         m_rootThread s = - 1 \<and> m_threadCount s = threads - 1 \<and> t_scheduler R' th = Some self \<and>
         stop_request Scheduler_tickle Scheduler_stopping (t_scheduler R' th = Some self) s =
           (if junk then Inr (True, s\<lparr>m_stopping := True\<rparr>) else Inl AssertionFailed)"
proof -
  have tick: "tickles Scheduler_tickle n (u :: scheduler) = Inr u" for n u
    by (induction n) (simp_all add: Scheduler_tickle_def)
  from assms obtain f where
    s: "s = (new_scheduler junk)\<lparr>m_schedulerFiber := Some f, m_threadIDs := [- 1], m_threadCount := threads - 1\<rparr>"
    and R: "GetName th (rt_threads R') = ''''" "t_scheduler R' th = Some self"
    by (auto simp: Scheduler_construct_def Let_def result_simps new_scheduler_def GetName_def SetName_def
        split: option.splits)
  have "stop_request Scheduler_tickle Scheduler_stopping True s =
      (if junk then Inr (True, s\<lparr>m_stopping := True\<rparr>) else Inl AssertionFailed)"
    by (simp add: s stop_request_def new_scheduler_def Scheduler_stopping_def tick) (simp add: Scheduler_tickle_def)
  then show ?thesis using R by (simp add: s new_scheduler_def)
qed

definition runtime0 :: runtime where
  "runtime0 = \<lparr>rt_fibers = init_world,
     rt_threads = \<lparr>thread_objs = (\<lambda>_. \<lparr>m_id = - 1, m_thread = 0, m_cb = None, th_name = '''',
                      m_semaphore = new_semaphore 0\<rparr>),
                   thread_locals = (\<lambda>_. foreign_tls), kernel_name = (\<lambda>_. ''''), pthread_log = []\<rparr>,
     t_scheduler = (\<lambda>_. None)\<rparr>"

lemma constructor_forgets_its_arguments_witness:
  "\<exists>s R'. Scheduler_construct False False (Some 9) 0 3 4 True ''io'' runtime0 = Inr (s, R') \<and>
     m_name s = '''' \<and> m_threadCount s = 3 \<and>
     stop_request Scheduler_tickle Scheduler_stopping (t_scheduler R' 3 = Some 0) s = Inl AssertionFailed"
proof -
  obtain s R' where c: "Scheduler_construct False False (Some 9) 0 3 4 True ''io'' runtime0 = Inr (s, R')"
    by (simp add: Scheduler_construct_def runtime0_def Let_def Fiber.GetThis_def new_main_fiber_def
        new_fiber_def init_world_def SetThis_def)
  from constructor_forgets_its_arguments [OF c] c show ?thesis by auto
qed

section \<open>The calling thread\<close>

text \<open>
  Inside \<open>stop\<close> the calling thread executes \<open>run\<close> on the stack of the scheduler fiber \<open>s\<close>; \<open>m\<close> is its
  main fiber, which waits in \<open>stop\<close>.
\<close>

definition caller_scheduling :: "nat \<Rightarrow> nat \<Rightarrow> nat \<Rightarrow> fiber_world \<Rightarrow> bool" where
  "caller_scheduling th m s W \<longleftrightarrow>
     t_thread_fiber (tls W th) = Some m \<and> t_scheduler_fiber (tls W th) = Some s \<and>
     t_fiber (tls W th) = Some s \<and> flow_of W th = OnStack s \<and> m \<noteq> s \<and>
     state_of W s = RUNNING \<and> \<not> m_runInScheduler (fibers W s) \<and>
     m_ctx (fibers W m) = Suspended (Native th)"

lemma stop_enters_run:
  assumes "t_thread_fiber (tls W th) = Some m" and "t_scheduler_fiber (tls W th) = Some s"
    and "flow_of W th = Native th" and "m \<noteq> s" and "state_of W s = READY"
    and "\<not> m_runInScheduler (fibers W s)" and "m_ctx (fibers W s) = StartOf s"
    and "m_schedulerFiber sch = Some s"
  shows "\<exists>W'. stop_resume th sch W = Inr W' \<and> caller_scheduling th m s W'"
  using assms
  by (simp add: stop_resume_def resume_def Let_def partner_def swapcontext_def SetThis_def caller_scheduling_def)

text \<open>
  On the calling thread a task fiber is entered from the scheduler fiber and comes back to it when
  it yields or ends, not to the main fiber; when \<open>run\<close> ends there, the thread is back in \<open>stop\<close> on its
  own stack with its main fiber current and the scheduler fiber finished.
\<close>

lemma caller_thread_levels:
  assumes c: "caller_scheduling th m s W" and f: "f \<noteq> s" "f \<noteq> m" "state_of W f = READY"
    "m_runInScheduler (fibers W f)" "m_ctx (fibers W f) \<in> {StartOf f, Suspended (OnStack f)}"
  shows "\<exists>W1 W2 W3 W4. resume True th f W = Inr W1 \<and> flow_of W1 th = OnStack f \<and>
           t_fiber (tls W1 th) = Some f \<and>
         yield True th f W1 = Inr W2 \<and> caller_scheduling th m s W2 \<and> state_of W2 f = READY \<and>
         main_func_return True th f W1 = Inr W3 \<and> caller_scheduling th m s W3 \<and> state_of W3 f = TERM_state \<and>
         main_func_return True th s W = Inr W4 \<and> flow_of W4 th = Native th \<and>
           t_fiber (tls W4 th) = Some m \<and> state_of W4 s = TERM_state"
proof -
  let ?W1 = "W\<lparr>fibers := (fibers W)(f := (fibers W f)\<lparr>m_state := RUNNING\<rparr>,
                 s := (fibers W s)\<lparr>m_ctx := Suspended (OnStack s)\<rparr>),
               tls := (tls W)(th := (tls W th)\<lparr>t_fiber := Some f\<rparr>),
               flow_of := (flow_of W)(th := OnStack f)\<rparr>"
  have W1: "resume True th f W = Inr ?W1"
    using c f
    by (auto simp: resume_def Let_def partner_def swapcontext_def SetThis_def caller_scheduling_def
        upd_fiber_def upd_tls_def fun_eq_iff)
  have "\<exists>W2. yield True th f ?W1 = Inr W2 \<and> caller_scheduling th m s W2 \<and> state_of W2 f = READY"
    using c f by (auto simp: yield_def Let_def partner_def swapcontext_def SetThis_def caller_scheduling_def)
  moreover have "\<exists>W3. main_func_return True th f ?W1 = Inr W3 \<and> caller_scheduling th m s W3 \<and>
      state_of W3 f = TERM_state"
    using c f by (auto simp: main_func_return_def yield_def Let_def partner_def swapcontext_def SetThis_def
        caller_scheduling_def)
  moreover have "\<exists>W4. main_func_return True th s W = Inr W4 \<and> flow_of W4 th = Native th \<and>
      t_fiber (tls W4 th) = Some m \<and> state_of W4 s = TERM_state"
    using c by (auto simp: main_func_return_def yield_def Let_def partner_def swapcontext_def SetThis_def
        caller_scheduling_def)
  moreover have "flow_of ?W1 th = OnStack f" "t_fiber (tls ?W1 th) = Some f" by simp_all
  ultimately show ?thesis using W1 by blast
qed

definition W_caller :: fiber_world where
  "W_caller = init_world\<lparr>next_fiber := 3,
     fibers := (\<lambda>_. no_fiber)(0 := no_fiber\<lparr>m_state := RUNNING, m_ctx := Suspended (Native 3)\<rparr>,
       1 := no_fiber\<lparr>m_state := RUNNING\<rparr>, 2 := no_fiber\<lparr>m_ctx := StartOf 2, m_runInScheduler := True\<rparr>),
     tls := (\<lambda>_. \<lparr>t_fiber = Some 1, t_thread_fiber = Some 0, t_scheduler_fiber = Some 1\<rparr>),
     flow_of := (\<lambda>_. OnStack 1)\<rparr>"

lemma caller_thread_levels_witness:
  "\<exists>W1. resume True 3 2 W_caller = Inr W1 \<and> flow_of W1 3 = OnStack 2 \<and>
     (\<exists>W2. yield True 3 2 W1 = Inr W2 \<and> caller_scheduling 3 0 1 W2)"
proof -
  have "caller_scheduling 3 0 1 W_caller" by (simp add: caller_scheduling_def W_caller_def no_fiber_def)
  from caller_thread_levels [OF this, of 2] show ?thesis
    by (auto simp: W_caller_def no_fiber_def)
qed

end
