(* ===== verification/IOManager.thy ===== *)
theory IOManager
  imports Scheduler Timer
begin

unbundle bit_operations_syntax

text \<open>
  Model of \<open>src/iomanager/ioscheduler.h\<close> and \<open>src/iomanager/ioscheduler.cc\<close>: the class is the
  scheduler's record extended by its own members and the inherited timers. The results of the system
  calls are arguments, and a successful \<open>epoll_ctl\<close> is logged; the pipe is the number of bytes in it.
  The clock, which several operations read, is a field that other code advances.
\<close>

section \<open>Events and contexts\<close>

abbreviation NONE_event :: "32 word" where "NONE_event \<equiv> 0"
abbreviation READ_event :: "32 word" where "READ_event \<equiv> 1"
abbreviation WRITE_event :: "32 word" where "WRITE_event \<equiv> 4"

abbreviation EPOLLIN :: "32 word" where "EPOLLIN \<equiv> 1"
abbreviation EPOLLOUT :: "32 word" where "EPOLLOUT \<equiv> 4"
abbreviation EPOLLERR :: "32 word" where "EPOLLERR \<equiv> 8"
abbreviation EPOLLHUP :: "32 word" where "EPOLLHUP \<equiv> 16"
abbreviation EPOLLET :: "32 word" where "EPOLLET \<equiv> 2147483648"

datatype ctl_op = CTL_ADD | CTL_MOD | CTL_DEL

record event_context =
  ec_scheduler :: "nat option"
  ec_fiber :: "nat option"
  ec_cb :: "closure option"

definition no_context :: event_context where
  "no_context = \<lparr>ec_scheduler = None, ec_fiber = None, ec_cb = None\<rparr>"

record fd_context =
  fc_read :: event_context
  fc_write :: event_context
  fc_fd :: int
  fc_events :: "32 word"

definition new_fd_context :: "nat \<Rightarrow> fd_context" where
  "new_fd_context i = \<lparr>fc_read = no_context, fc_write = no_context, fc_fd = int i, fc_events = NONE_event\<rparr>"

text \<open>
  \<open>io_self\<close> is the address of the object; \<open>io_foreign\<close> collects what is handed to other schedulers.
\<close>

record iomanager = scheduler +
  io_self :: nat
  io_timers :: timer_manager
  io_clock :: time
  m_epfd :: int
  m_tickleFds :: "int \<times> int"
  m_pendingEventCount :: "64 word"
  m_fdContexts :: "fd_context list"
  pipe_bytes :: nat
  ctl_log :: "(ctl_op \<times> int \<times> 32 word) list"
  io_foreign :: "(nat \<times> sched_arg) list"
  closed_fds :: "int list"

definition upd_ctx :: "nat \<Rightarrow> (fd_context \<Rightarrow> fd_context) \<Rightarrow> iomanager \<Rightarrow> iomanager" where
  "upd_ctx i g m = m\<lparr>m_fdContexts := (m_fdContexts m)[i := g (m_fdContexts m ! i)]\<rparr>"

definition getEventContext :: "32 word \<Rightarrow> fd_context \<Rightarrow> event_context result" where
  "getEventContext event c =
     assert_that (event = READ_event \<or> event = WRITE_event)
       (Inr (if event = READ_event then fc_read c else fc_write c))"

definition set_context :: "32 word \<Rightarrow> event_context \<Rightarrow> fd_context \<Rightarrow> fd_context" where
  "set_context event ec c =
     (if event = READ_event then c\<lparr>fc_read := ec\<rparr> else c\<lparr>fc_write := ec\<rparr>)"

definition resetEventContext :: "32 word \<Rightarrow> fd_context \<Rightarrow> fd_context" where
  "resetEventContext event c = set_context event no_context c"

section \<open>The overridden virtual functions\<close>

text \<open>
  \<open>rt\<close> is the result of the \<open>write\<close> of one byte. The callers below pass 1: the constructor makes only the
  read end of the pipe non-blocking, so a \<open>write\<close> to a full pipe waits for room and does not fail.
\<close>

definition IOManager_tickle :: "int \<Rightarrow> iomanager \<Rightarrow> iomanager result" where
  "IOManager_tickle rt m =
     (if \<not> hasIdleThreads m then Inr m
      else assert_that (rt = 1) (Inr (m\<lparr>pipe_bytes := pipe_bytes m + 1\<rparr>)))"

definition io_getNextTimer :: "iomanager \<Rightarrow> 64 word \<times> iomanager" where
  "io_getNextTimer m =
     (case getNextTimer (io_clock m) (io_timers m) of (ms, M) \<Rightarrow> (ms, m\<lparr>io_timers := M\<rparr>))"

text \<open>
  \<open>stopping\<close> makes three reads, each under its own lock or atomic, and other threads may act between them.
  \<open>IOManager_stopping\<close> is what a call returns in which nothing comes between; the reads one by one are the
  statements \<open>worker_stmt\<close> of \<open>IOManager_Stopping\<close>.
\<close>

definition IOManager_stopping :: "iomanager \<Rightarrow> bool \<times> iomanager" where
  "IOManager_stopping m =
     (case io_getNextTimer m of (timeout, m1) \<Rightarrow>
        (timeout = no_timeout \<and> m_pendingEventCount m1 = 0 \<and> fst (Scheduler_stopping m1), m1))"

definition onTimerInsertedAtFront :: "int \<Rightarrow> iomanager \<Rightarrow> iomanager result" where
  "onTimerInsertedAtFront rt m = IOManager_tickle rt m"

definition io_addTimer ::
  "int \<Rightarrow> 64 word \<Rightarrow> closure option \<Rightarrow> bool \<Rightarrow> iomanager \<Rightarrow> (nat \<times> iomanager) result" where
  "io_addTimer rt ms cb recurring m =
     (case addTimer (io_clock m) ms cb recurring (io_timers m) of (t, at_front, M) \<Rightarrow>
        let m1 = m\<lparr>io_timers := M\<rparr>
        in and_then (if at_front then onTimerInsertedAtFront rt m1 else Inr m1) (\<lambda>m2. Inr (t, m2)))"

section \<open>Construction and destruction\<close>

definition contextResize :: "nat \<Rightarrow> iomanager \<Rightarrow> iomanager" where
  "contextResize n m =
     m\<lparr>m_fdContexts := take n (m_fdContexts m) @
        map new_fd_context [length (m_fdContexts m)..<n]\<rparr>"

text \<open>
  The constructor, on the scheduler \<open>s\<close> and the timers \<open>tm\<close> its base classes have made. \<open>epfd\<close>,
  \<open>fds\<close>, \<open>rts\<close> are the results of \<open>epoll_create\<close>, \<open>pipe\<close>, and of \<open>pipe\<close>, \<open>fcntl\<close> and \<open>epoll_ctl\<close>.
\<close>

definition IOManager_construct ::
  "nat \<Rightarrow> time \<Rightarrow> int \<Rightarrow> int \<times> int \<Rightarrow> int \<times> int \<times> int \<Rightarrow> (nat \<Rightarrow> string \<Rightarrow> (nat \<times> int) result) \<Rightarrow>
   timer_manager \<Rightarrow> scheduler \<Rightarrow> iomanager result" where
  "IOManager_construct self clock epfd fds rts mk tm s =
     assert_that (0 < epfd) (assert_that (fst rts = 0) (assert_that (fst (snd rts) = 0)
       (assert_that (snd (snd rts) = 0)
         (let m = scheduler.extend s
               \<lparr>io_self = self, io_timers = tm, io_clock = clock, m_epfd = epfd, m_tickleFds = fds,
                m_pendingEventCount = 0, m_fdContexts = [], pipe_bytes = 0,
                ctl_log = [(CTL_ADD, fst fds, EPOLLIN OR EPOLLET)], io_foreign = [], closed_fds = []\<rparr>
          in start mk (contextResize 32 m)))))"

text \<open>The destructor after its call of \<open>stop\<close>.\<close>

definition IOManager_destruct :: "iomanager \<Rightarrow> iomanager" where
  "IOManager_destruct m =
     m\<lparr>closed_fds := closed_fds m @ [m_epfd m, fst (m_tickleFds m), snd (m_tickleFds m)],
       m_fdContexts := []\<rparr>"

text \<open>
  The whole destruction of an object on thread \<open>me\<close>: \<open>stop\<close>, the descriptors and contexts, then the
  base class, where \<open>stopping\<close> is the base's again. If \<open>stop\<close> did not return at once, \<open>joined\<close> says
  what the other threads have made of the manager by the time the last of them is joined.
\<close>

definition IOManager_delete ::
  "bool \<Rightarrow> (iomanager \<Rightarrow> iomanager) \<Rightarrow> nat \<Rightarrow> iomanager \<Rightarrow> runtime \<Rightarrow> (iomanager \<times> runtime) result" where
  "IOManager_delete own joined me m R =
     and_then (stop_request (IOManager_tickle 1) IOManager_stopping own m) (\<lambda>(requested, m1).
       let m2 = IOManager_destruct (if requested then snd (stop_take_threads (joined m1)) else m1)
       in and_then (Scheduler_destruct Scheduler_stopping (io_self m2) me m2 R) (\<lambda>R1. Inr (m2, R1)))"

section \<open>Registering and removing events\<close>

definition schedule_to :: "nat option \<Rightarrow> sched_arg \<Rightarrow> iomanager \<Rightarrow> iomanager result" where
  "schedule_to target fc m =
     (case target of
        None \<Rightarrow> Inl NullDereference
      | Some s \<Rightarrow> if s = io_self m then scheduleLock (IOManager_tickle 1) fc (- 1) m
                  else Inr (m\<lparr>io_foreign := io_foreign m @ [(s, fc)]\<rparr>))"

definition triggerEvent :: "32 word \<Rightarrow> nat \<Rightarrow> iomanager \<Rightarrow> iomanager result" where
  "triggerEvent event i m =
     assert_that (fc_events (m_fdContexts m ! i) AND event \<noteq> 0)
       (let m1 = upd_ctx i (\<lambda>c. c\<lparr>fc_events := fc_events c AND NOT event\<rparr>) m
        in and_then (getEventContext event (m_fdContexts m1 ! i)) (\<lambda>ctx.
           and_then (schedule_to (ec_scheduler ctx)
                      (if ec_cb ctx \<noteq> None then CbSwapped (ec_cb ctx) else FiberSwapped (ec_fiber ctx)) m1) (\<lambda>m2.
           Inr (upd_ctx i (resetEventContext event) m2))))"

text \<open>
  The context of a descriptor. The size is compared as an \<open>int\<close>, so a negative descriptor passes the
  test and indexes the vector out of its bounds.
\<close>

definition find_context :: "int \<Rightarrow> iomanager \<Rightarrow> nat option result" where
  "find_context fd m =
     (if i32 (int (length (m_fdContexts m))) > fd
      then if fd < 0 then Inl OutOfBounds else Inr (Some (nat fd))
      else Inr None)"

text \<open>
  \<open>addEvent\<close> on thread \<open>th\<close>, whose scheduler is \<open>cur\<close>. For a descriptor outside the vector the thread
  asks for the exclusive lock while it holds the shared one. \<open>rt\<close> is the result of \<open>epoll_ctl\<close>.
\<close>

definition addEvent ::
  "int \<Rightarrow> bool \<Rightarrow> nat \<Rightarrow> nat option \<Rightarrow> int \<Rightarrow> 32 word \<Rightarrow> closure option \<Rightarrow> iomanager \<Rightarrow> fiber_world \<Rightarrow>
   (int \<times> iomanager \<times> fiber_world) result" where
  "addEvent rt junk th cur fd event cb m W =
     and_then (find_context fd m) (\<lambda>found.
       case found of
         None \<Rightarrow> Inl SelfDeadlock
       | Some i \<Rightarrow>
           let c = m_fdContexts m ! i
           in if fc_events c AND event \<noteq> 0 then Inr (- 1, m, W)
              else let op = (if fc_events c \<noteq> 0 then CTL_MOD else CTL_ADD);
                       evmask = EPOLLET OR fc_events c OR event
                   in if rt \<noteq> 0 then Inr (- 1, m, W)
                      else let m1 = upd_ctx i (\<lambda>c. c\<lparr>fc_events := fc_events c OR event\<rparr>)
                                      (m\<lparr>ctl_log := ctl_log m @ [(op, fd, evmask)],
                                         m_pendingEventCount := m_pendingEventCount m + 1\<rparr>)
                           in and_then (getEventContext event (m_fdContexts m1 ! i)) (\<lambda>ctx.
                              assert_that (ec_scheduler ctx = None \<and> ec_fiber ctx = None \<and> ec_cb ctx = None)
                                (case cb of
                                   Some f \<Rightarrow>
                                     Inr (0, upd_ctx i (set_context event
                                            (ctx\<lparr>ec_scheduler := cur, ec_cb := Some f\<rparr>)) m1, W)
                                 | None \<Rightarrow>
                                     and_then (Fiber.GetThis True junk th W) (\<lambda>(f, W1).
                                     assert_that (state_of W1 f = RUNNING)
                                       (Inr (0, upd_ctx i (set_context event
                                            (ctx\<lparr>ec_scheduler := cur, ec_fiber := Some f\<rparr>)) m1, W1))))))"

text \<open>
  The guard \<open>!(fd_ctx->events)&event\<close> of \<open>delEvent\<close> and \<open>cancelEvent\<close>, with the precedence C++ gives
  it; a \<open>bool\<close> function that returns -1 returns \<open>true\<close>.
\<close>

definition not_events_and :: "32 word \<Rightarrow> 32 word \<Rightarrow> bool" where
  "not_events_and events event \<longleftrightarrow> (if events = 0 then 1 else 0) AND event \<noteq> 0"

definition bool_of_int :: "int \<Rightarrow> bool" where
  "bool_of_int n \<longleftrightarrow> n \<noteq> 0"

definition delEvent :: "int \<Rightarrow> int \<Rightarrow> 32 word \<Rightarrow> iomanager \<Rightarrow> (bool \<times> iomanager) result" where
  "delEvent rt fd event m =
     and_then (find_context fd m) (\<lambda>found.
       case found of
         None \<Rightarrow> Inr (False, m)
       | Some i \<Rightarrow>
           let c = m_fdContexts m ! i
           in if not_events_and (fc_events c) event then Inr (False, m)
              else let new_events = fc_events c AND NOT event;
                       op = (if new_events \<noteq> 0 then CTL_MOD else CTL_DEL);
                       evmask = EPOLLET OR new_events
                   in if rt \<noteq> 0 then Inr (bool_of_int (- 1), m)
                      else let m1 = upd_ctx i (\<lambda>c. c\<lparr>fc_events := new_events\<rparr>)
                                      (m\<lparr>ctl_log := ctl_log m @ [(op, fd, evmask)],
                                         m_pendingEventCount := m_pendingEventCount m - 1\<rparr>)
                           in and_then (getEventContext event (m_fdContexts m1 ! i)) (\<lambda>_.
                              Inr (True, upd_ctx i (resetEventContext event) m1)))"

definition cancelEvent :: "int \<Rightarrow> int \<Rightarrow> 32 word \<Rightarrow> iomanager \<Rightarrow> (bool \<times> iomanager) result" where
  "cancelEvent rt fd event m =
     and_then (find_context fd m) (\<lambda>found.
       case found of
         None \<Rightarrow> Inr (False, m)
       | Some i \<Rightarrow>
           let c = m_fdContexts m ! i
           in if not_events_and (fc_events c) event then Inr (False, m)
              else let new_events = fc_events c AND NOT event;
                       op = (if new_events \<noteq> 0 then CTL_MOD else CTL_DEL);
                       evmask = EPOLLET OR new_events
                   in if rt \<noteq> 0 then Inr (bool_of_int (- 1), m)
                      else and_then (triggerEvent event i
                                      (m\<lparr>ctl_log := ctl_log m @ [(op, fd, evmask)],
                                         m_pendingEventCount := m_pendingEventCount m - 1\<rparr>)) (\<lambda>m1.
                           Inr (True, m1)))"

definition trigger_and_count :: "32 word \<Rightarrow> nat \<Rightarrow> iomanager \<Rightarrow> iomanager result" where
  "trigger_and_count event i m =
     and_then (triggerEvent event i m) (\<lambda>m1.
       Inr (m1\<lparr>m_pendingEventCount := m_pendingEventCount m1 - 1\<rparr>))"

definition cancelAll :: "int \<Rightarrow> int \<Rightarrow> iomanager \<Rightarrow> (bool \<times> iomanager) result" where
  "cancelAll rt fd m =
     and_then (find_context fd m) (\<lambda>found.
       case found of
         None \<Rightarrow> Inr (False, m)
       | Some i \<Rightarrow>
           let c = m_fdContexts m ! i
           in if fc_events c = 0 then Inr (False, m)
              else if rt \<noteq> 0 then Inr (bool_of_int (- 1), m)
              else let m1 = m\<lparr>ctl_log := ctl_log m @ [(CTL_DEL, fd, 0)]\<rparr>
                   in and_then (if fc_events (m_fdContexts m1 ! i) AND READ_event \<noteq> 0
                                then trigger_and_count READ_event i m1 else Inr m1) (\<lambda>m2.
                      and_then (if fc_events (m_fdContexts m2 ! i) AND WRITE_event \<noteq> 0
                                then trigger_and_count WRITE_event i m2 else Inr m2) (\<lambda>m3.
                      assert_that (fc_events (m_fdContexts m3 ! i) = 0) (Inr (True, m3)))))"

section \<open>The idle function\<close>

text \<open>
  Waiting: the timeout given to \<open>epoll_wait\<close>, again after each call that a signal interrupted. Each
  attempt is what the call gave and the clock after it; \<open>None\<close> means it has not returned yet.
\<close>

definition idle_timeout :: "iomanager \<Rightarrow> int \<times> iomanager" where
  "idle_timeout m =
     (case io_getNextTimer m of (next_timeout, m1) \<Rightarrow>
        (i32 (uint (min next_timeout 5000)), m1))"

fun idle_wait :: "(int \<times> bool \<times> time) list \<Rightarrow> iomanager \<Rightarrow> (int \<times> iomanager) option" where
  "idle_wait [] m = None"
| "idle_wait ((rt, eintr, clock) # as) m =
     (case idle_timeout m of (timeout, m1) \<Rightarrow>
        let m2 = m1\<lparr>io_clock := clock\<rparr>
        in if rt < 0 \<and> eintr then idle_wait as m2 else Some (rt, m2))"

text \<open>The expired timers: their functions go into the queue. \<open>None\<close> is the divergence of
  \<open>listExpiredCb\<close>.\<close>

fun schedule_all :: "closure option list \<Rightarrow> iomanager \<Rightarrow> iomanager result" where
  "schedule_all [] m = Inr m"
| "schedule_all (cb # cbs) m =
     and_then (scheduleLock (IOManager_tickle 1) (CbCopied cb) (- 1) m) (schedule_all cbs)"

definition idle_timers :: "time \<Rightarrow> iomanager \<Rightarrow> iomanager result option" where
  "idle_timers now2 m =
     (case listExpiredCb (io_clock m) now2 [] (io_timers m) of
        None \<Rightarrow> None
      | Some (cbs, M) \<Rightarrow> Some (schedule_all cbs (m\<lparr>io_timers := M\<rparr>)))"

text \<open>One ready event: what \<open>epoll_wait\<close> reports, and the result of the \<open>epoll_ctl\<close> that follows.\<close>

datatype ready_source = TicklePipe | OfContext nat

function drain :: "nat \<Rightarrow> nat" where
  "drain n = (if n = 0 then 0 else drain (n - min 256 n))"
  by pat_completeness auto
termination by (relation "measure id") auto

declare drain.simps [simp del]

definition real_events :: "32 word \<Rightarrow> 32 word \<Rightarrow> 32 word" where
  "real_events reported registered =
     (let ev = (if reported AND (EPOLLERR OR EPOLLHUP) \<noteq> 0
                then reported OR ((EPOLLIN OR EPOLLOUT) AND registered) else reported)
      in (if ev AND EPOLLIN \<noteq> 0 then READ_event else 0) OR
         (if ev AND EPOLLOUT \<noteq> 0 then WRITE_event else 0))"

definition idle_event :: "int \<Rightarrow> ready_source \<Rightarrow> 32 word \<Rightarrow> iomanager \<Rightarrow> iomanager result" where
  "idle_event rt2 src reported m =
     (case src of
        TicklePipe \<Rightarrow> Inr (m\<lparr>pipe_bytes := drain (pipe_bytes m)\<rparr>)
      | OfContext i \<Rightarrow>
          let c = m_fdContexts m ! i; real = real_events reported (fc_events c)
          in if fc_events c AND real = NONE_event then Inr m
             else let left_events = fc_events c AND NOT real;
                      op = (if left_events \<noteq> 0 then CTL_MOD else CTL_DEL)
                  in if rt2 \<noteq> 0 then Inr m
                     else let m1 = m\<lparr>ctl_log := ctl_log m @ [(op, fc_fd c, EPOLLET OR left_events)]\<rparr>
                          in and_then (if real AND READ_event \<noteq> 0
                                       then trigger_and_count READ_event i m1 else Inr m1) (\<lambda>m2.
                             if real AND WRITE_event \<noteq> 0
                             then trigger_and_count WRITE_event i m2 else Inr m2))"

fun idle_events :: "(int \<times> ready_source \<times> 32 word) list \<Rightarrow> iomanager \<Rightarrow> iomanager result" where
  "idle_events [] m = Inr m"
| "idle_events ((rt2, src, reported) # es) m =
     and_then (idle_event rt2 src reported m) (idle_events es)"

text \<open>
  One round of \<open>idle\<close> between its test of \<open>stopping\<close> and its \<open>yield\<close>. Of the events reported, the
  first \<open>rt\<close> are handled.
\<close>

definition idle_round ::
  "(int \<times> bool \<times> time) list \<Rightarrow> time \<Rightarrow> (int \<times> ready_source \<times> 32 word) list \<Rightarrow> iomanager \<Rightarrow>
   iomanager result option" where
  "idle_round attempts now2 events m =
     (case idle_wait attempts m of
        None \<Rightarrow> None
      | Some (rt, m1) \<Rightarrow>
          (case idle_timers now2 m1 of
             None \<Rightarrow> None
           | Some r \<Rightarrow> Some (and_then r (idle_events (take (nat rt) events)))))"

end
