(* ===== verification/IOManager_Spec.thy ===== *)
theory IOManager_Spec
  imports IOManager Timer_Spec Fiber_Spec
begin

text \<open>
  What the event operations of \<open>IOManager\<close> do to the contexts, to the count of pending events and to
  the kernel's interest list: the invariant that ties the three together, kept as long as events are
  removed only where they are registered, and what happens otherwise.
\<close>

section \<open>Masks\<close>

definition valid_event :: "32 word \<Rightarrow> bool" where
  "valid_event e \<longleftrightarrow> e = READ_event \<or> e = WRITE_event"

definition valid_mask :: "32 word \<Rightarrow> bool" where
  "valid_mask e \<longleftrightarrow> e = 0 \<or> e = 1 \<or> e = 4 \<or> e = 5"

fun n_events :: "32 word \<Rightarrow> nat" where
  "n_events e = (if e AND READ_event \<noteq> 0 then 1 else 0) + (if e AND WRITE_event \<noteq> 0 then 1 else 0)"

lemma mask_ops:
  assumes "valid_mask e" and "valid_event v"
  shows "valid_mask (e OR v)" and "valid_mask (e AND NOT v)"
    and "e AND v = 0 \<Longrightarrow> n_events (e OR v) = Suc (n_events e)"
    and "e AND v \<noteq> 0 \<Longrightarrow> n_events e = Suc (n_events (e AND NOT v))"
    and "(e OR v) AND v \<noteq> 0" and "(e AND NOT v) AND v = 0"
    and "e AND v = 0 \<Longrightarrow> (e OR v) AND NOT v = e"
    and "e AND v = 0 \<Longrightarrow> e AND NOT v = e"
    and "e OR v \<noteq> 0"
  using assms by (auto simp: valid_mask_def valid_event_def)

lemma mask_other:
  assumes "valid_mask e" and "valid_event v" and "valid_event u" and "u \<noteq> v"
  shows "(e OR v) AND u = e AND u" and "(e AND NOT v) AND u = e AND u"
  using assms by (auto simp: valid_mask_def valid_event_def)

section \<open>The invariant\<close>

text \<open>The kernel's interest list after the successful calls of a log, and whether it accepts them.\<close>

fun kernel_after :: "(ctl_op \<times> int \<times> 32 word) list \<Rightarrow> (int \<rightharpoonup> 32 word) \<Rightarrow> (int \<rightharpoonup> 32 word)" where
  "kernel_after [] k = k"
| "kernel_after ((CTL_DEL, fd, ev) # cs) k = kernel_after cs (k(fd := None))"
| "kernel_after ((op, fd, ev) # cs) k = kernel_after cs (k(fd := Some ev))"

fun ctl_accepted :: "(ctl_op \<times> int \<times> 32 word) list \<Rightarrow> (int \<rightharpoonup> 32 word) \<Rightarrow> bool" where
  "ctl_accepted [] k = True"
| "ctl_accepted ((CTL_ADD, fd, ev) # cs) k = (k fd = None \<and> ctl_accepted cs (k(fd := Some ev)))"
| "ctl_accepted ((CTL_MOD, fd, ev) # cs) k = (k fd \<noteq> None \<and> ctl_accepted cs (k(fd := Some ev)))"
| "ctl_accepted ((CTL_DEL, fd, ev) # cs) k = (k fd \<noteq> None \<and> ctl_accepted cs (k(fd := None)))"

lemma kernel_append:
  "kernel_after (cs @ [c]) k = kernel_after [c] (kernel_after cs k)"
proof (induction cs arbitrary: k)
  case (Cons a cs)
  obtain op fd ev where "a = (op, fd, ev)" by (cases a)
  with Cons show ?case by (cases op) (simp_all add: fun_upd_def)
qed simp

lemma accepted_append:
  "ctl_accepted (cs @ [c]) k \<longleftrightarrow> ctl_accepted cs k \<and> ctl_accepted [c] (kernel_after cs k)"
proof (induction cs arbitrary: k)
  case (Cons a cs)
  obtain op fd ev where "a = (op, fd, ev)" by (cases a)
  with Cons show ?case by (cases op) (simp_all add: fun_upd_def)
qed simp

definition interest :: "iomanager \<Rightarrow> int \<rightharpoonup> 32 word" where
  "interest m = kernel_after (ctl_log m) (\<lambda>_. None)"

definition armed :: "event_context \<Rightarrow> bool" where
  "armed ec \<longleftrightarrow> ec_scheduler ec \<noteq> None \<and> (ec_cb ec = None) \<noteq> (ec_fiber ec = None)"

definition ctx_ok :: "fd_context \<Rightarrow> bool" where
  "ctx_ok c \<longleftrightarrow> valid_mask (fc_events c) \<and>
     (if fc_events c AND READ_event \<noteq> 0 then armed (fc_read c) else fc_read c = no_context) \<and>
     (if fc_events c AND WRITE_event \<noteq> 0 then armed (fc_write c) else fc_write c = no_context)"

definition registered :: "iomanager \<Rightarrow> nat" where
  "registered m = sum_list (map (\<lambda>c. n_events (fc_events c)) (m_fdContexts m))"

definition expected_interest :: "fd_context \<Rightarrow> 32 word option" where
  "expected_interest c = (if fc_events c = 0 then None else Some (EPOLLET OR fc_events c))"

definition io_inv :: "iomanager \<Rightarrow> bool" where
  "io_inv m \<longleftrightarrow>
     length (m_fdContexts m) < 2 ^ 31 \<and>
     (\<forall>i < length (m_fdContexts m). ctx_ok (m_fdContexts m ! i) \<and> fc_fd (m_fdContexts m ! i) = int i \<and>
        (int i \<noteq> fst (m_tickleFds m) \<longrightarrow> interest m (int i) = expected_interest (m_fdContexts m ! i))) \<and>
     ctl_accepted (ctl_log m) (\<lambda>_. None) \<and>
     m_pendingEventCount m = of_nat (registered m)"

lemma io_invD:
  assumes "io_inv m"
  shows inv_len: "length (m_fdContexts m) < 2 ^ 31"
    and inv_ctx: "i < length (m_fdContexts m) \<Longrightarrow> ctx_ok (m_fdContexts m ! i)"
    and inv_fd: "i < length (m_fdContexts m) \<Longrightarrow> fc_fd (m_fdContexts m ! i) = int i"
    and inv_interest: "i < length (m_fdContexts m) \<Longrightarrow> int i \<noteq> fst (m_tickleFds m) \<Longrightarrow>
          interest m (int i) = expected_interest (m_fdContexts m ! i)"
    and inv_log: "ctl_accepted (ctl_log m) (\<lambda>_. None)"
    and inv_pending: "m_pendingEventCount m = of_nat (registered m)"
  using assms by (auto simp: io_inv_def)

lemma registered_update:
  assumes "i < length (m_fdContexts m)" and "m_fdContexts m' = (m_fdContexts m)[i := c]"
  shows "registered m' + n_events (fc_events (m_fdContexts m ! i)) = registered m + n_events (fc_events c)"
proof -
  let ?f = "\<lambda>c. n_events (fc_events c)" and ?xs = "m_fdContexts m"
  have xs: "?xs = take i ?xs @ ?xs ! i # drop (Suc i) ?xs" using assms(1) by (rule id_take_nth_drop)
  have "?xs[i := c] = take i ?xs @ c # drop (Suc i) ?xs" using assms(1) by (rule upd_conv_take_nth_drop)
  then have "registered m' = sum_list (map ?f (take i ?xs)) + ?f c + sum_list (map ?f (drop (Suc i) ?xs))"
    unfolding registered_def assms(2) by simp
  moreover have "registered m = sum_list (map ?f (take i ?xs)) + ?f (?xs ! i) + sum_list (map ?f (drop (Suc i) ?xs))"
    unfolding registered_def by (subst xs) simp
  ultimately show ?thesis by simp
qed

lemma find_context_ok:
  assumes "io_inv m"
  shows "find_context fd m =
    (if fd < 0 then Inl OutOfBounds
     else if fd < int (length (m_fdContexts m)) then Inr (Some (nat fd)) else Inr None)"
proof -
  have "i32 (int (length (m_fdContexts m))) = int (length (m_fdContexts m))"
    using inv_len [OF assms] by (intro i32_id) auto
  then show ?thesis by (simp add: find_context_def)
qed

section \<open>Delivery of one event\<close>

definition pushed :: "sched_task \<Rightarrow> iomanager \<Rightarrow> iomanager" where
  "pushed t m = m\<lparr>m_tasks := m_tasks m @ (if has_work t then [t] else []),
     pipe_bytes := pipe_bytes m + (if m_tasks m = [] \<and> hasIdleThreads m then 1 else 0)\<rparr>"

lemma scheduleLock_io:
  "scheduleLock (IOManager_tickle 1) fc thr m = Inr (pushed (ScheduleTask fc thr) m)"
  by (auto simp: scheduleLock_def IOManager_tickle_def pushed_def Let_def hasIdleThreads_def)

definition context_arg :: "event_context \<Rightarrow> sched_arg" where
  "context_arg ec = (if ec_cb ec \<noteq> None then CbSwapped (ec_cb ec) else FiberSwapped (ec_fiber ec))"

definition context_task :: "event_context \<Rightarrow> sched_task" where
  "context_task ec = ScheduleTask (context_arg ec) (- 1)"

definition delivered :: "event_context \<Rightarrow> iomanager \<Rightarrow> iomanager" where
  "delivered ec m =
     (if ec_scheduler ec = Some (io_self m) then pushed (context_task ec) m
      else m\<lparr>io_foreign := io_foreign m @ [(the (ec_scheduler ec), context_arg ec)]\<rparr>)"

lemma delivered_fields [simp]:
  "m_fdContexts (delivered ec m) = m_fdContexts m" "ctl_log (delivered ec m) = ctl_log m"
  "m_pendingEventCount (delivered ec m) = m_pendingEventCount m"
  "m_tickleFds (delivered ec m) = m_tickleFds m" "io_self (delivered ec m) = io_self m"
  "io_timers (delivered ec m) = io_timers m" "m_activeThreadCount (delivered ec m) = m_activeThreadCount m"
  "m_stopping (delivered ec m) = m_stopping m" "m_idleThreadCount (delivered ec m) = m_idleThreadCount m"
  by (simp_all add: delivered_def pushed_def)

lemma armed_work: "armed ec \<Longrightarrow> has_work (context_task ec)"
  by (auto simp: armed_def context_task_def context_arg_def has_work_def)

definition the_context :: "32 word \<Rightarrow> fd_context \<Rightarrow> event_context" where
  "the_context v c = (if v = READ_event then fc_read c else fc_write c)"

definition without :: "32 word \<Rightarrow> fd_context \<Rightarrow> fd_context" where
  "without v c = resetEventContext v (c\<lparr>fc_events := fc_events c AND NOT v\<rparr>)"

lemma without_events [simp]: "fc_events (without v c) = fc_events c AND NOT v"
  by (simp add: without_def resetEventContext_def set_context_def)

lemma without_fd [simp]: "fc_fd (without v c) = fc_fd c"
  by (simp add: without_def resetEventContext_def set_context_def)

lemma without_ok: "ctx_ok c \<Longrightarrow> valid_event v \<Longrightarrow> ctx_ok (without v c)"
  by (auto simp: ctx_ok_def without_def resetEventContext_def set_context_def valid_event_def valid_mask_def)

lemma context_armed:
  "ctx_ok c \<Longrightarrow> valid_event v \<Longrightarrow> fc_events c AND v \<noteq> 0 \<Longrightarrow> armed (the_context v c)"
  by (auto simp: ctx_ok_def the_context_def valid_event_def)

lemma context_empty:
  "ctx_ok c \<Longrightarrow> valid_event v \<Longrightarrow> fc_events c AND v = 0 \<Longrightarrow> the_context v c = no_context"
  by (auto simp: ctx_ok_def the_context_def valid_event_def)

lemma triggerEvent_spec:
  assumes "i < length (m_fdContexts m)" and "valid_event v"
    and "armed (the_context v (m_fdContexts m ! i))"
  shows "triggerEvent v i m =
    (if fc_events (m_fdContexts m ! i) AND v = 0 then Inl AssertionFailed
     else Inr ((delivered (the_context v (m_fdContexts m ! i)) m)
            \<lparr>m_fdContexts := (m_fdContexts m)[i := without v (m_fdContexts m ! i)]\<rparr>))"
proof (cases "fc_events (m_fdContexts m ! i) AND v = 0")
  case True
  then show ?thesis by (simp add: triggerEvent_def)
next
  case False
  let ?c = "m_fdContexts m ! i" and ?ec = "the_context v (m_fdContexts m ! i)"
  let ?m1 = "upd_ctx i (\<lambda>c. c\<lparr>fc_events := fc_events c AND NOT v\<rparr>) m"
  have get: "getEventContext v (m_fdContexts ?m1 ! i) = Inr ?ec"
    using assms(1,2) by (auto simp: getEventContext_def upd_ctx_def the_context_def valid_event_def)
  obtain s where s: "ec_scheduler ?ec = Some s" using assms(3) by (auto simp: armed_def)
  have "schedule_to (Some s) (context_arg ?ec) ?m1 = Inr (delivered ?ec ?m1)"
    using s by (simp add: schedule_to_def scheduleLock_io delivered_def context_task_def upd_ctx_def)
  then have "triggerEvent v i m = Inr (upd_ctx i (resetEventContext v) (delivered ?ec ?m1))"
    using False get s by (cases "ec_cb ?ec = None") (simp_all add: triggerEvent_def context_arg_def)
  also have "upd_ctx i (resetEventContext v) (delivered ?ec ?m1) =
      (delivered ?ec m)\<lparr>m_fdContexts := (m_fdContexts m)[i := without v ?c]\<rparr>"
    using assms(1) by (simp add: upd_ctx_def delivered_def pushed_def hasIdleThreads_def without_def)
  finally show ?thesis using False by simp
qed

lemma trigger_and_count_spec:
  assumes "i < length (m_fdContexts m)" and "valid_event v" and "ctx_ok (m_fdContexts m ! i)"
    and "fc_events (m_fdContexts m ! i) AND v \<noteq> 0"
  shows "trigger_and_count v i m =
    Inr ((delivered (the_context v (m_fdContexts m ! i)) m)
      \<lparr>m_fdContexts := (m_fdContexts m)[i := without v (m_fdContexts m ! i)],
        m_pendingEventCount := m_pendingEventCount m - 1\<rparr>)"
  using triggerEvent_spec [OF assms(1,2) context_armed [OF assms(3,2,4)]] assms(4)
  by (simp add: trigger_and_count_def)

section \<open>Changes that keep the invariant\<close>

lemma io_inv_cong:
  assumes "m_fdContexts m' = m_fdContexts m" and "ctl_log m' = ctl_log m"
    and "m_pendingEventCount m' = m_pendingEventCount m" and "m_tickleFds m' = m_tickleFds m"
  shows "io_inv m' = io_inv m"
  using assms by (simp add: io_inv_def interest_def registered_def)

definition ctl_for :: "fd_context \<Rightarrow> fd_context \<Rightarrow> ctl_op" where
  "ctl_for c c' = (if fc_events c = 0 then CTL_ADD else if fc_events c' = 0 then CTL_DEL else CTL_MOD)"

lemma io_inv_change:
  assumes inv: "io_inv m" and i: "i < length (m_fdContexts m)" "int i \<noteq> fst (m_tickleFds m)"
    and ctxs: "m_fdContexts m' = (m_fdContexts m)[i := c']" and tick: "m_tickleFds m' = m_tickleFds m"
    and c': "ctx_ok c'" "fc_fd c' = int i"
    and some: "fc_events (m_fdContexts m ! i) \<noteq> 0 \<or> fc_events c' \<noteq> 0"
    and log: "ctl_log m' = ctl_log m @ [(ctl_for (m_fdContexts m ! i) c', int i, ev)]"
    and ev: "fc_events c' \<noteq> 0 \<Longrightarrow> ev = EPOLLET OR fc_events c'"
    and pend: "m_pendingEventCount m' + of_nat (n_events (fc_events (m_fdContexts m ! i))) =
        m_pendingEventCount m + of_nat (n_events (fc_events c'))"
  shows "io_inv m'"
proof -
  let ?c = "m_fdContexts m ! i"
  have old: "interest m (int i) = expected_interest ?c" by (rule inv_interest [OF inv i])
  have kern: "interest m' = (interest m)(int i := expected_interest c')"
    using some ev by (auto simp: interest_def log kernel_append expected_interest_def ctl_for_def fun_eq_iff)
  have acc: "ctl_accepted (ctl_log m') (\<lambda>_. None)"
    using inv_log [OF inv] some old
    by (auto simp: log accepted_append interest_def [symmetric] ctl_for_def expected_interest_def)
  have reg: "of_nat (registered m') + of_nat (n_events (fc_events ?c)) =
      (of_nat (registered m) + of_nat (n_events (fc_events c')) :: 64 word)"
    using registered_update [OF i(1) ctxs] by (metis of_nat_add)
  have "m_pendingEventCount m' = of_nat (registered m')"
    using pend reg inv_pending [OF inv] by (metis add_right_cancel)
  moreover have "ctx_ok (m_fdContexts m' ! j) \<and> fc_fd (m_fdContexts m' ! j) = int j \<and>
      (int j \<noteq> fst (m_tickleFds m') \<longrightarrow> interest m' (int j) = expected_interest (m_fdContexts m' ! j))"
    if "j < length (m_fdContexts m')" for j
  proof (cases "j = i")
    case True
    with i c' show ?thesis by (simp add: ctxs kern)
  next
    case False
    with that inv_ctx [OF inv, of j] inv_fd [OF inv, of j] inv_interest [OF inv, of j] show ?thesis
      by (simp add: ctxs kern tick)
  qed
  ultimately show ?thesis
    using acc inv_len [OF inv] unfolding io_inv_def by (simp add: ctxs)
qed

section \<open>Registering\<close>

definition with_event :: "32 word \<Rightarrow> event_context \<Rightarrow> fd_context \<Rightarrow> fd_context" where
  "with_event v ec c = set_context v ec (c\<lparr>fc_events := fc_events c OR v\<rparr>)"

lemma with_event_simps [simp]:
  "fc_events (with_event v ec c) = fc_events c OR v" "fc_fd (with_event v ec c) = fc_fd c"
  by (simp_all add: with_event_def set_context_def)

lemma with_event_ok:
  "ctx_ok c \<Longrightarrow> valid_event v \<Longrightarrow> armed ec \<Longrightarrow> ctx_ok (with_event v ec c)"
  by (auto simp: ctx_ok_def with_event_def set_context_def valid_event_def valid_mask_def)

lemma with_event_context: "valid_event v \<Longrightarrow> the_context v (with_event v ec c) = ec"
  by (auto simp: the_context_def with_event_def set_context_def valid_event_def)

lemma without_with_event:
  assumes "ctx_ok c" and "valid_event v" and "fc_events c AND v = 0"
  shows "without v (with_event v ec c) = c"
proof -
  have "valid_mask (fc_events c)" using assms(1) by (simp add: ctx_ok_def)
  note mask_ops(7) [OF this assms(2,3)]
  with assms show ?thesis
    by (cases c) (auto simp: ctx_ok_def without_def with_event_def resetEventContext_def set_context_def
        valid_event_def)
qed

text \<open>The manager after \<open>addEvent\<close> has registered \<open>v\<close> on descriptor \<open>i\<close> with the context \<open>ec\<close>.\<close>

definition after_add :: "nat \<Rightarrow> 32 word \<Rightarrow> event_context \<Rightarrow> iomanager \<Rightarrow> iomanager" where
  "after_add i v ec m =
     m\<lparr>ctl_log := ctl_log m @ [(if fc_events (m_fdContexts m ! i) \<noteq> 0 then CTL_MOD else CTL_ADD, int i,
                                EPOLLET OR fc_events (m_fdContexts m ! i) OR v)],
       m_pendingEventCount := m_pendingEventCount m + 1,
       m_fdContexts := (m_fdContexts m)[i := with_event v ec (m_fdContexts m ! i)]\<rparr>"

lemma addEvent_cb_spec:
  assumes inv: "io_inv m" and fd: "0 \<le> fd" "fd < int (length (m_fdContexts m))" and v: "valid_event v"
    and "fc_events (m_fdContexts m ! nat fd) AND v = 0"
  shows "addEvent 0 junk th cur fd v (Some f) m W =
    Inr (0, after_add (nat fd) v \<lparr>ec_scheduler = cur, ec_fiber = None, ec_cb = Some f\<rparr> m, W)"
proof -
  let ?i = "nat fd" let ?c = "m_fdContexts m ! nat fd"
  have i: "?i < length (m_fdContexts m)" using fd by simp
  have "the_context v ?c = no_context" by (rule context_empty [OF inv_ctx [OF inv i] v assms(5)])
  then have "getEventContext v (?c\<lparr>fc_events := fc_events ?c OR v\<rparr>) = Inr no_context"
    using v by (auto simp: getEventContext_def the_context_def valid_event_def)
  then show ?thesis
    using assms i
    by (simp add: addEvent_def find_context_ok Let_def upd_ctx_def after_add_def with_event_def no_context_def)
qed

lemma addEvent_fiber_spec:
  assumes inv: "io_inv m" and fd: "0 \<le> fd" "fd < int (length (m_fdContexts m))" and v: "valid_event v"
    and "fc_events (m_fdContexts m ! nat fd) AND v = 0"
    and this: "Fiber.GetThis True junk th W = Inr (f, W1)" and run: "state_of W1 f = RUNNING"
  shows "addEvent 0 junk th cur fd v None m W =
    Inr (0, after_add (nat fd) v \<lparr>ec_scheduler = cur, ec_fiber = Some f, ec_cb = None\<rparr> m, W1)"
proof -
  let ?i = "nat fd" let ?c = "m_fdContexts m ! nat fd"
  have i: "?i < length (m_fdContexts m)" using fd by simp
  have "the_context v ?c = no_context" by (rule context_empty [OF inv_ctx [OF inv i] v assms(5)])
  then have "getEventContext v (?c\<lparr>fc_events := fc_events ?c OR v\<rparr>) = Inr no_context"
    using v by (auto simp: getEventContext_def the_context_def valid_event_def)
  then show ?thesis
    using assms i
    by (simp add: addEvent_def find_context_ok Let_def upd_ctx_def after_add_def with_event_def no_context_def)
qed

lemma io_inv_after_add:
  assumes inv: "io_inv m" and i: "i < length (m_fdContexts m)" "int i \<noteq> fst (m_tickleFds m)"
    and v: "valid_event v" and new: "fc_events (m_fdContexts m ! i) AND v = 0" and ec: "armed ec"
  shows "io_inv (after_add i v ec m)"
proof -
  let ?c = "m_fdContexts m ! i"
  have ok: "ctx_ok ?c" and mask: "valid_mask (fc_events ?c)"
    using inv_ctx [OF inv i(1)] by (simp_all add: ctx_ok_def)
  show ?thesis
    by (rule io_inv_change [OF inv i, where c' = "with_event v ec ?c" and ev = "EPOLLET OR fc_events ?c OR v"])
      (use mask_ops(3,9) [OF mask v] new with_event_ok [OF ok v ec] inv_fd [OF inv i(1)] in
        \<open>simp_all add: after_add_def ctl_for_def or.assoc del: n_events.simps\<close>)
qed

section \<open>Removing\<close>

definition after_remove :: "nat \<Rightarrow> 32 word \<Rightarrow> iomanager \<Rightarrow> iomanager" where
  "after_remove i v m =
     (let left = fc_events (m_fdContexts m ! i) AND NOT v
      in m\<lparr>ctl_log := ctl_log m @ [(if left \<noteq> 0 then CTL_MOD else CTL_DEL, int i, EPOLLET OR left)],
           m_pendingEventCount := m_pendingEventCount m - 1,
           m_fdContexts := (m_fdContexts m)[i := without v (m_fdContexts m ! i)]\<rparr>)"

lemma guard_registered: "e AND v \<noteq> 0 \<Longrightarrow> \<not> not_events_and e v"
  by (auto simp: not_events_and_def)

lemma delEvent_spec:
  assumes inv: "io_inv m" and fd: "0 \<le> fd" "fd < int (length (m_fdContexts m))" and v: "valid_event v"
    and on: "fc_events (m_fdContexts m ! nat fd) AND v \<noteq> 0"
  shows "delEvent 0 fd v m = Inr (True, after_remove (nat fd) v m)"
proof -
  have "nat fd < length (m_fdContexts m)" using fd by simp
  with assms guard_registered [OF on] show ?thesis
    by (auto simp: delEvent_def find_context_ok Let_def upd_ctx_def after_remove_def without_def
        getEventContext_def valid_event_def)
qed

lemma cancelEvent_spec:
  assumes inv: "io_inv m" and fd: "0 \<le> fd" "fd < int (length (m_fdContexts m))" and v: "valid_event v"
    and on: "fc_events (m_fdContexts m ! nat fd) AND v \<noteq> 0"
  shows "cancelEvent 0 fd v m =
    Inr (True, after_remove (nat fd) v (delivered (the_context v (m_fdContexts m ! nat fd)) m))"
proof -
  let ?i = "nat fd" let ?c = "m_fdContexts m ! nat fd"
  let ?left = "fc_events ?c AND NOT v"
  let ?m = "m\<lparr>ctl_log := ctl_log m @ [(if ?left \<noteq> 0 then CTL_MOD else CTL_DEL, fd, EPOLLET OR ?left)],
              m_pendingEventCount := m_pendingEventCount m - 1\<rparr>"
  have i: "?i < length (m_fdContexts m)" using fd by simp
  have arm: "armed (the_context v ?c)" by (rule context_armed [OF inv_ctx [OF inv i] v on])
  have "triggerEvent v ?i ?m = Inr ((delivered (the_context v ?c) ?m)
      \<lparr>m_fdContexts := (m_fdContexts m)[?i := without v ?c]\<rparr>)"
    using triggerEvent_spec [of ?i ?m v] i v arm on by simp
  also have "(delivered (the_context v ?c) ?m)\<lparr>m_fdContexts := (m_fdContexts m)[?i := without v ?c]\<rparr> =
      after_remove ?i v (delivered (the_context v ?c) m)"
    using fd by (simp add: after_remove_def delivered_def pushed_def hasIdleThreads_def Let_def)
  finally show ?thesis
    using assms guard_registered [OF on] by (simp add: cancelEvent_def find_context_ok Let_def)
qed

lemma io_inv_delivered [simp]: "io_inv (delivered ec m) = io_inv m"
  by (rule io_inv_cong) simp_all

lemma io_inv_after_remove:
  assumes inv: "io_inv m" and i: "i < length (m_fdContexts m)" "int i \<noteq> fst (m_tickleFds m)"
    and v: "valid_event v" and on: "fc_events (m_fdContexts m ! i) AND v \<noteq> 0"
  shows "io_inv (after_remove i v m)"
proof -
  let ?c = "m_fdContexts m ! i"
  have ok: "ctx_ok ?c" and mask: "valid_mask (fc_events ?c)"
    using inv_ctx [OF inv i(1)] by (simp_all add: ctx_ok_def)
  have "fc_events ?c \<noteq> 0" using on by auto
  with mask_ops(4) [OF mask v on] without_ok [OF ok v] inv_fd [OF inv i(1)] show ?thesis
    by (intro io_inv_change [OF inv i, where c' = "without v ?c" and ev = "EPOLLET OR (fc_events ?c AND NOT v)"])
      (simp_all add: after_remove_def ctl_for_def Let_def del: n_events.simps)
qed

lemma without_idle:
  assumes "ctx_ok c" and "valid_event v" and "fc_events c AND v = 0"
  shows "without v c = c"
proof -
  have "valid_mask (fc_events c)" using assms(1) by (simp add: ctx_ok_def)
  note mask_ops(8) [OF this assms(2,3)]
  with assms show ?thesis
    by (cases c) (auto simp: ctx_ok_def without_def resetEventContext_def set_context_def valid_event_def)
qed

section \<open>Several events at once\<close>

text \<open>The events \<open>real\<close> of descriptor \<open>i\<close> fire: first READ, then WRITE.\<close>

definition fire :: "32 word \<Rightarrow> 32 word \<Rightarrow> nat \<Rightarrow> iomanager \<Rightarrow> iomanager" where
  "fire v real i m =
     (if real AND v \<noteq> 0
      then (delivered (the_context v (m_fdContexts m ! i)) m)
             \<lparr>m_fdContexts := (m_fdContexts m)[i := without v (m_fdContexts m ! i)],
               m_pendingEventCount := m_pendingEventCount m - 1\<rparr>
      else m)"

definition fire_all :: "32 word \<Rightarrow> nat \<Rightarrow> iomanager \<Rightarrow> iomanager" where
  "fire_all real i m = fire WRITE_event real i (fire READ_event real i m)"

lemma fire_step:
  assumes "i < length (m_fdContexts m)" and "valid_event v" and "ctx_ok (m_fdContexts m ! i)"
    and "real AND v \<noteq> 0 \<longrightarrow> fc_events (m_fdContexts m ! i) AND v \<noteq> 0"
  shows "(if real AND v \<noteq> 0 then trigger_and_count v i m else Inr m) = Inr (fire v real i m)"
  using trigger_and_count_spec [OF assms(1,2,3)] assms(4) by (simp add: fire_def)

definition fired :: "32 word \<Rightarrow> fd_context \<Rightarrow> fd_context" where
  "fired real c =
     (let c1 = (if real AND READ_event \<noteq> 0 then without READ_event c else c)
      in if real AND WRITE_event \<noteq> 0 then without WRITE_event c1 else c1)"

lemma fire_all_fields:
  assumes "i < length (m_fdContexts m)"
  shows "m_fdContexts (fire_all real i m) = (m_fdContexts m)[i := fired real (m_fdContexts m ! i)]"
    and "ctl_log (fire_all real i m) = ctl_log m"
    and "m_tickleFds (fire_all real i m) = m_tickleFds m"
    and "m_pendingEventCount (fire_all real i m) = m_pendingEventCount m - of_nat (n_events real)"
  using assms by (auto simp: fire_all_def fire_def fired_def Let_def)

lemma fired_mask:
  assumes "valid_mask e" and "valid_mask real" and "real AND NOT e = 0"
  shows "n_events e = n_events real + n_events (e AND NOT real)"
    and "fc_events c = e \<Longrightarrow> fc_events (fired real c) = e AND NOT real"
    and "real AND READ_event \<noteq> 0 \<longrightarrow> e AND READ_event \<noteq> 0"
    and "real AND WRITE_event \<noteq> 0 \<longrightarrow> e AND WRITE_event \<noteq> 0"
    and "real \<noteq> 0 \<longrightarrow> e \<noteq> 0"
    and "valid_mask (e AND NOT real)"
proof -
  from assms consider "real = 0" | "real = 1" "e = 1 \<or> e = 5" | "real = 4" "e = 4 \<or> e = 5"
    | "real = 5" "e = 5"
    unfolding valid_mask_def by (elim disjE; simp)
  note cases_of = this
  show "n_events e = n_events real + n_events (e AND NOT real)" using cases_of by cases auto
  show "fc_events c = e \<Longrightarrow> fc_events (fired real c) = e AND NOT real"
    using cases_of by cases (auto simp: fired_def Let_def)
  show "real AND READ_event \<noteq> 0 \<longrightarrow> e AND READ_event \<noteq> 0"
    "real AND WRITE_event \<noteq> 0 \<longrightarrow> e AND WRITE_event \<noteq> 0" "real \<noteq> 0 \<longrightarrow> e \<noteq> 0"
    using cases_of by (cases; auto)+
  show "valid_mask (e AND NOT real)" using cases_of assms(1) by cases (auto simp: valid_mask_def)
qed

lemma fired_ok: "ctx_ok c \<Longrightarrow> ctx_ok (fired real c)"
  by (auto simp: fired_def Let_def valid_event_def intro!: without_ok)

lemma fired_fd [simp]: "fc_fd (fired real c) = fc_fd c"
  by (simp add: fired_def Let_def)

lemma two_fires:
  assumes i: "i < length (m_fdContexts m)" and ok: "ctx_ok (m_fdContexts m ! i)"
    and real: "valid_mask real" "real AND NOT (fc_events (m_fdContexts m ! i)) = 0"
  shows "and_then (if real AND READ_event \<noteq> 0 then trigger_and_count READ_event i m else Inr m) (\<lambda>m2.
           if real AND WRITE_event \<noteq> 0 then trigger_and_count WRITE_event i m2 else Inr m2) =
         Inr (fire_all real i m)"
proof -
  let ?c = "m_fdContexts m ! i" and ?m = "fire READ_event real i m"
  have mask: "valid_mask (fc_events ?c)" using ok by (simp add: ctx_ok_def)
  note sub = fired_mask [OF mask real]
  have "(if real AND READ_event \<noteq> 0 then trigger_and_count READ_event i m else Inr m) = Inr ?m"
    using sub(3) by (intro fire_step [OF i _ ok]) (simp_all add: valid_event_def)
  moreover have "(if real AND WRITE_event \<noteq> 0 then trigger_and_count WRITE_event i ?m else Inr ?m) =
      Inr (fire WRITE_event real i ?m)"
  proof (rule fire_step)
    show "i < length (m_fdContexts ?m)" using i by (simp add: fire_def)
    show "ctx_ok (m_fdContexts ?m ! i)" using i ok without_ok [OF ok] by (simp add: fire_def valid_event_def)
    show "real AND WRITE_event \<noteq> 0 \<longrightarrow> fc_events (m_fdContexts ?m ! i) AND WRITE_event \<noteq> 0"
      using i sub(4) mask by (auto simp: fire_def valid_mask_def)
  qed (simp add: valid_event_def)
  ultimately show ?thesis by (simp add: fire_all_def)
qed

lemma io_inv_fire_all:
  assumes inv: "io_inv m" and i: "i < length (m_fdContexts m)" "int i \<noteq> fst (m_tickleFds m)"
    and real: "valid_mask real" "real \<noteq> 0" "real AND NOT (fc_events (m_fdContexts m ! i)) = 0"
    and log: "left = fc_events (m_fdContexts m ! i) AND NOT real"
      "left \<noteq> 0 \<Longrightarrow> ev = EPOLLET OR left"
  shows "io_inv (fire_all real i
           (m\<lparr>ctl_log := ctl_log m @ [(if left \<noteq> 0 then CTL_MOD else CTL_DEL, int i, ev)]\<rparr>))"
    (is "io_inv (fire_all real i ?m)")
proof -
  let ?c = "m_fdContexts m ! i"
  have ok: "ctx_ok ?c" and mask: "valid_mask (fc_events ?c)"
    using inv_ctx [OF inv i(1)] by (simp_all add: ctx_ok_def)
  note sub = fired_mask [OF mask real(1,3)]
  have ev: "fc_events (fired real ?c) = left" using sub(2) [of ?c] log(1) by simp
  have nz: "fc_events ?c \<noteq> 0" using sub(5) real(2) by blast
  note fields = fire_all_fields [of i ?m real]
  show ?thesis
  proof (rule io_inv_change [OF inv i, where c' = "fired real ?c" and ev = ev])
    show "m_pendingEventCount (fire_all real i ?m) + of_nat (n_events (fc_events ?c)) =
        m_pendingEventCount m + of_nat (n_events (fc_events (fired real ?c)))"
      using fields(4) i(1) sub(1) ev log(1) by (simp del: n_events.simps)
  qed (use fields i ok fired_ok [OF ok, of real] inv_fd [OF inv i(1)] ev nz log(2) in
      \<open>simp_all add: ctl_for_def\<close>)
qed

end
