(* ===== verification/IOManager_Props.thy ===== *)
theory IOManager_Props
  imports IOManager_Spec
begin

text \<open>
  The properties of the event operations: the invariant over every sequence of operations, what each
  of them delivers, the round trip from \<open>addEvent\<close> to the queue, and the cases the code gets wrong.
\<close>

section \<open>Reported events\<close>

lemma and_read: "(e :: 32 word) AND READ_event = 0 \<longleftrightarrow> \<not> bit e 0"
  using and_exp_eq_0_iff_not_bit [of e 0] by simp

lemma and_write: "(e :: 32 word) AND WRITE_event = 0 \<longleftrightarrow> \<not> bit e 2"
  using and_exp_eq_0_iff_not_bit [of e 2] by simp

lemma real_events_valid: "valid_mask (real_events reported e)"
  by (simp add: real_events_def valid_mask_def Let_def)

lemma bits_of_masks:
  "bit (READ_event) n \<longleftrightarrow> n = 0" "bit (WRITE_event) n \<longleftrightarrow> n = 2"
  "bit (EPOLLERR) n \<longleftrightarrow> n = 3" "bit (EPOLLHUP) n \<longleftrightarrow> n = 4"
proof -
  have four: "WRITE_event = 2 ^ 2" and eight: "EPOLLERR = 2 ^ 3" and sixteen: "EPOLLHUP = 2 ^ 4" by simp_all
  show "bit (READ_event) n \<longleftrightarrow> n = 0" by (simp add: bit_1_iff)
  show "bit (WRITE_event) n \<longleftrightarrow> n = 2" unfolding four bit_exp_iff by (auto simp: possible_bit_word)
  show "bit (EPOLLERR) n \<longleftrightarrow> n = 3" unfolding eight bit_exp_iff by (auto simp: possible_bit_word)
  show "bit (EPOLLHUP) n \<longleftrightarrow> n = 4" unfolding sixteen bit_exp_iff by (auto simp: possible_bit_word)
qed

text \<open>The kernel reports events of the mask it was given, and errors and hang-ups besides.\<close>

definition kernel_reports :: "32 word \<Rightarrow> 32 word \<Rightarrow> bool" where
  "kernel_reports e reported \<longleftrightarrow> reported AND NOT (e OR EPOLLERR OR EPOLLHUP) = 0"

lemma reported_registered:
  assumes "kernel_reports e reported"
  shows "bit reported 0 \<Longrightarrow> bit e 0" and "bit reported 2 \<Longrightarrow> bit e 2"
proof -
  have "\<not> bit (reported AND NOT (e OR EPOLLERR OR EPOLLHUP)) n" for n
    using assms by (simp add: kernel_reports_def)
  from this [of 0] this [of 2] show "bit reported 0 \<Longrightarrow> bit e 0" "bit reported 2 \<Longrightarrow> bit e 2"
    by (auto simp: bit_and_iff bit_or_iff bit_not_iff bits_of_masks possible_bit_word)
qed

lemma real_events_bits:
  "real_events reported e AND READ_event \<noteq> 0 \<longleftrightarrow>
     bit reported 0 \<or> (reported AND (EPOLLERR OR EPOLLHUP) \<noteq> 0 \<and> bit e 0)"
  "real_events reported e AND WRITE_event \<noteq> 0 \<longleftrightarrow>
     bit reported 2 \<or> (reported AND (EPOLLERR OR EPOLLHUP) \<noteq> 0 \<and> bit e 2)"
  by (auto simp: real_events_def Let_def and_read and_write bit_or_iff bit_and_iff bits_of_masks
      split: if_splits)

lemma mask_subset:
  assumes "valid_mask real" and "valid_mask e"
    and "real AND READ_event \<noteq> 0 \<Longrightarrow> e AND READ_event \<noteq> 0"
    and "real AND WRITE_event \<noteq> 0 \<Longrightarrow> e AND WRITE_event \<noteq> 0"
  shows "real AND NOT e = 0" and "e AND real = real"
  using assms unfolding valid_mask_def by (elim disjE; simp)+

lemma real_subset:
  assumes "kernel_reports e reported" and "valid_mask e"
  shows "real_events reported e AND NOT e = 0" and "e AND real_events reported e = real_events reported e"
proof -
  have r: "real_events reported e AND READ_event \<noteq> 0 \<Longrightarrow> e AND READ_event \<noteq> 0"
    and w: "real_events reported e AND WRITE_event \<noteq> 0 \<Longrightarrow> e AND WRITE_event \<noteq> 0"
    using reported_registered [OF assms(1)] unfolding real_events_bits by (auto simp: and_read and_write)
  show "real_events reported e AND NOT e = 0" "e AND real_events reported e = real_events reported e"
    by (rule mask_subset [OF real_events_valid assms(2)]; erule r w)+
qed

section \<open>The idle function and \<open>cancelAll\<close>\<close>

lemma idle_event_spec:
  assumes inv: "io_inv m" and i: "i < length (m_fdContexts m)"
    and rep: "kernel_reports (fc_events (m_fdContexts m ! i)) reported"
  shows "idle_event rt2 (OfContext i) reported m =
    (let e = fc_events (m_fdContexts m ! i); real = real_events reported e; left = e AND NOT real
     in if real = 0 \<or> rt2 \<noteq> 0 then Inr m
        else Inr (fire_all real i (m\<lparr>ctl_log := ctl_log m @
               [(if left \<noteq> 0 then CTL_MOD else CTL_DEL, int i, EPOLLET OR left)]\<rparr>)))"
proof -
  let ?c = "m_fdContexts m ! i"
  let ?real = "real_events reported (fc_events ?c)"
  let ?left = "fc_events ?c AND NOT ?real"
  let ?m = "m\<lparr>ctl_log := ctl_log m @ [(if ?left \<noteq> 0 then CTL_MOD else CTL_DEL, int i, EPOLLET OR ?left)]\<rparr>"
  have mask: "valid_mask (fc_events ?c)" using inv_ctx [OF inv i] by (simp add: ctx_ok_def)
  note sub = real_subset [OF rep mask]
  have "and_then (if ?real AND READ_event \<noteq> 0 then trigger_and_count READ_event i ?m else Inr ?m) (\<lambda>m2.
          if ?real AND WRITE_event \<noteq> 0 then trigger_and_count WRITE_event i m2 else Inr m2) =
        Inr (fire_all ?real i ?m)"
    by (rule two_fires) (use i inv_ctx [OF inv i] real_events_valid sub(1) in simp_all)
  then show ?thesis
    using sub(2) inv_fd [OF inv i] by (simp add: idle_event_def Let_def)
qed

lemma cancelAll_spec:
  assumes inv: "io_inv m" and fd: "0 \<le> fd" "fd < int (length (m_fdContexts m))"
    and some: "fc_events (m_fdContexts m ! nat fd) \<noteq> 0"
  shows "cancelAll 0 fd m =
    Inr (True, fire_all (fc_events (m_fdContexts m ! nat fd)) (nat fd)
                 (m\<lparr>ctl_log := ctl_log m @ [(CTL_DEL, fd, 0)]\<rparr>))"
proof -
  let ?i = "nat fd" let ?c = "m_fdContexts m ! ?i" let ?e = "fc_events ?c"
  let ?m = "m\<lparr>ctl_log := ctl_log m @ [(CTL_DEL, fd, 0)]\<rparr>" let ?m2 = "fire READ_event ?e ?i ?m"
  have i: "?i < length (m_fdContexts m)" using fd by simp
  have ok: "ctx_ok ?c" and mask: "valid_mask ?e" using inv_ctx [OF inv i] by (simp_all add: ctx_ok_def)
  have r: "(if ?e AND READ_event \<noteq> 0 then trigger_and_count READ_event ?i ?m else Inr ?m) = Inr ?m2"
    by (rule fire_step) (use i ok in \<open>simp_all add: valid_event_def\<close>)
  have e2: "fc_events (m_fdContexts ?m2 ! ?i) AND WRITE_event \<noteq> 0 \<longleftrightarrow> ?e AND WRITE_event \<noteq> 0"
    using i mask by (auto simp: fire_def valid_mask_def)
  have w: "(if ?e AND WRITE_event \<noteq> 0 then trigger_and_count WRITE_event ?i ?m2 else Inr ?m2) =
      Inr (fire_all ?e ?i ?m)"
    unfolding fire_all_def
  proof (rule fire_step)
    show "?i < length (m_fdContexts ?m2)" using i by (simp add: fire_def)
    show "ctx_ok (m_fdContexts ?m2 ! ?i)" using i ok without_ok [OF ok] by (simp add: fire_def valid_event_def)
  qed (use e2 in \<open>simp_all add: valid_event_def\<close>)
  have "fc_events (m_fdContexts (fire_all ?e ?i ?m) ! ?i) = 0"
    using fire_all_fields(1) [of ?i ?m ?e] fired_mask(2) [OF mask mask, of ?c] i by simp
  with r w e2 some inv fd show ?thesis
    by (simp add: cancelAll_def find_context_ok Let_def)
qed

section \<open>Every sequence of operations\<close>

text \<open>
  What the program and the idle functions do to the manager, one step each: events are registered by
  threads that have a scheduler, on descriptors of the table other than the tickle pipe, and removed
  where they are registered; \<open>rt\<close> is any result of \<open>epoll_ctl\<close>. \<open>other\<close> is everything that leaves the
  contexts, the count and the log alone: the workers, the timers, the pipe, the clock.
\<close>

definition usable :: "int \<Rightarrow> iomanager \<Rightarrow> bool" where
  "usable fd m \<longleftrightarrow> 0 \<le> fd \<and> fd < int (length (m_fdContexts m)) \<and> fd \<noteq> fst (m_tickleFds m)"

definition is_registered :: "int \<Rightarrow> 32 word \<Rightarrow> iomanager \<Rightarrow> bool" where
  "is_registered fd v m \<longleftrightarrow> fc_events (m_fdContexts m ! nat fd) AND v \<noteq> 0"

inductive io_op :: "iomanager \<Rightarrow> iomanager \<Rightarrow> bool" where
  add: "usable fd m \<Longrightarrow> valid_event v \<Longrightarrow> addEvent rt junk th (Some s) fd v cb m W = Inr (r, m', W') \<Longrightarrow>
    io_op m m'"
| del: "usable fd m \<Longrightarrow> valid_event v \<Longrightarrow> is_registered fd v m \<Longrightarrow> delEvent rt fd v m = Inr (r, m') \<Longrightarrow>
    io_op m m'"
| cancel: "usable fd m \<Longrightarrow> valid_event v \<Longrightarrow> is_registered fd v m \<Longrightarrow> cancelEvent rt fd v m = Inr (r, m') \<Longrightarrow>
    io_op m m'"
| cancel_all: "usable fd m \<Longrightarrow> cancelAll rt fd m = Inr (r, m') \<Longrightarrow> io_op m m'"
| ready: "usable (int i) m \<Longrightarrow> kernel_reports (fc_events (m_fdContexts m ! i)) reported \<Longrightarrow>
    idle_event rt (OfContext i) reported m = Inr m' \<Longrightarrow> io_op m m'"
| other: "m_fdContexts m' = m_fdContexts m \<Longrightarrow> ctl_log m' = ctl_log m \<Longrightarrow>
    m_pendingEventCount m' = m_pendingEventCount m \<Longrightarrow> m_tickleFds m' = m_tickleFds m \<Longrightarrow> io_op m m'"

definition same_shape :: "iomanager \<Rightarrow> iomanager \<Rightarrow> bool" where
  "same_shape m m' \<longleftrightarrow> length (m_fdContexts m') = length (m_fdContexts m) \<and> m_tickleFds m' = m_tickleFds m"

lemma same_shape_refl [simp]: "same_shape m m"
  by (simp add: same_shape_def)

lemma shape_after:
  "same_shape m (after_add i v ec m)" "same_shape m (after_remove i v m)"
  "same_shape m (after_remove i v (delivered ec m))"
  "i < length (m_fdContexts m) \<Longrightarrow> same_shape m (fire_all real i (m\<lparr>ctl_log := l\<rparr>))"
  using fire_all_fields [of i "m\<lparr>ctl_log := l\<rparr>" real]
  by (simp_all add: same_shape_def after_add_def after_remove_def Let_def)

text \<open>An \<open>addEvent\<close> that returns has changed nothing or registered exactly the event.\<close>

lemma addEvent_outcome:
  assumes inv: "io_inv m" and u: "usable fd m" and v: "valid_event v"
    and r: "addEvent rt junk th (Some s) fd v cb m W = Inr (r, m', W')"
  obtains "m' = m"
  | ec where "fc_events (m_fdContexts m ! nat fd) AND v = 0" and "armed ec" and "m' = after_add (nat fd) v ec m"
proof -
  let ?i = "nat fd" let ?c = "m_fdContexts m ! nat fd"
  have fd: "0 \<le> fd" "fd < int (length (m_fdContexts m))" and i: "?i < length (m_fdContexts m)"
    using u by (simp_all add: usable_def nat_less_iff)
  show thesis
  proof (cases "fc_events ?c AND v = 0 \<and> rt = 0")
    case False
    with r inv fd have "m' = m" by (auto simp: addEvent_def find_context_ok Let_def split: if_splits)
    then show thesis by (rule that(1))
  next
    case True
    show thesis
    proof (cases cb)
      case (Some f)
      with r addEvent_cb_spec [OF inv fd v, of junk th "Some s" f W] True
      have "m' = after_add ?i v \<lparr>ec_scheduler = Some s, ec_fiber = None, ec_cb = Some f\<rparr> m" by simp
      with True show thesis by (intro that(2)) (simp_all add: armed_def)
    next
      case None
      have "the_context v ?c = no_context" using True by (intro context_empty [OF inv_ctx [OF inv i(1)] v]) simp
      then have "getEventContext v (?c\<lparr>fc_events := fc_events ?c OR v\<rparr>) = Inr no_context"
        using v by (auto simp: getEventContext_def the_context_def valid_event_def)
      with r True None inv fd i obtain f W1 where f: "Fiber.GetThis True junk th W = Inr (f, W1)"
        "state_of W1 f = RUNNING"
        by (auto simp: addEvent_def find_context_ok Let_def upd_ctx_def result_simps)
      with r addEvent_fiber_spec [OF inv fd v _ f, of "Some s"] True None
      have "m' = after_add ?i v \<lparr>ec_scheduler = Some s, ec_fiber = Some f, ec_cb = None\<rparr> m" by simp
      with True show thesis by (intro that(2)) (simp_all add: armed_def)
    qed
  qed
qed

lemma io_op_add:
  assumes inv: "io_inv m" and u: "usable fd m" and v: "valid_event v"
    and r: "addEvent rt junk th (Some s) fd v cb m W = Inr (r, m', W')"
  shows "io_inv m' \<and> same_shape m m'"
  using inv u v r
proof (cases rule: addEvent_outcome)
  case 1
  with inv show ?thesis by simp
next
  case (2 ec)
  have i: "nat fd < length (m_fdContexts m)" "int (nat fd) \<noteq> fst (m_tickleFds m)"
    using u by (simp_all add: usable_def nat_less_iff)
  from io_inv_after_add [OF inv i v 2(1,2)] 2(3) show ?thesis by (simp add: shape_after)
qed

lemma io_op_del:
  assumes inv: "io_inv m" and "usable fd m" and v: "valid_event v" and on: "is_registered fd v m"
    and r: "delEvent rt fd v m = Inr (b, m')"
  shows "io_inv m' \<and> same_shape m m'"
proof (cases "rt = 0")
  case True
  note u = assms(2)[unfolded usable_def] and on = on[unfolded is_registered_def]
  from True r delEvent_spec [OF inv _ _ v on] u have "m' = after_remove (nat fd) v m" by simp
  with io_inv_after_remove [OF inv _ _ v on] u show ?thesis by (auto simp: shape_after)
next
  case False
  with r assms(2) inv guard_registered [OF on[unfolded is_registered_def]] have "m' = m"
    by (simp add: delEvent_def find_context_ok Let_def usable_def)
  with inv show ?thesis by simp
qed

lemma io_op_cancel:
  assumes inv: "io_inv m" and "usable fd m" and v: "valid_event v" and on: "is_registered fd v m"
    and r: "cancelEvent rt fd v m = Inr (b, m')"
  shows "io_inv m' \<and> same_shape m m'"
proof (cases "rt = 0")
  case True
  note u = assms(2)[unfolded usable_def] and on = on[unfolded is_registered_def]
  from True r cancelEvent_spec [OF inv _ _ v on] u
  have "m' = after_remove (nat fd) v (delivered (the_context v (m_fdContexts m ! nat fd)) m)" by simp
  with io_inv_after_remove [of "delivered (the_context v (m_fdContexts m ! nat fd)) m" "nat fd" v] inv v u on
  show ?thesis by (auto simp: shape_after)
next
  case False
  with r assms(2) inv guard_registered [OF on[unfolded is_registered_def]] have "m' = m"
    by (simp add: cancelEvent_def find_context_ok Let_def usable_def)
  with inv show ?thesis by simp
qed

lemma io_op_cancel_all:
  assumes inv: "io_inv m" and u: "usable fd m" and r: "cancelAll rt fd m = Inr (b, m')"
  shows "io_inv m' \<and> same_shape m m'"
proof -
  let ?e = "fc_events (m_fdContexts m ! nat fd)"
  note u = u[unfolded usable_def]
  have i: "nat fd < length (m_fdContexts m)" "int (nat fd) \<noteq> fst (m_tickleFds m)" using u by (simp_all add: nat_less_iff)
  show ?thesis
  proof (cases "rt = 0 \<and> ?e \<noteq> 0")
    case True
    have "valid_mask ?e" using inv_ctx [OF inv i(1)] by (simp add: ctx_ok_def)
    with io_inv_fire_all [OF inv i, of ?e 0 0] True r cancelAll_spec [OF inv, of fd] u i
    show ?thesis by (auto simp: shape_after)
  next
    case False
    with inv r u have "m' = m" by (auto simp: cancelAll_def find_context_ok Let_def split: if_splits)
    with inv show ?thesis by simp
  qed
qed

lemma io_op_ready:
  assumes inv: "io_inv m" and "usable (int i) m"
    and rep: "kernel_reports (fc_events (m_fdContexts m ! i)) reported"
    and r: "idle_event rt (OfContext i) reported m = Inr m'"
  shows "io_inv m' \<and> same_shape m m'"
proof -
  let ?e = "fc_events (m_fdContexts m ! i)" let ?real = "real_events reported ?e"
  have i: "i < length (m_fdContexts m)" "int i \<noteq> fst (m_tickleFds m)"
    using assms(2) by (simp_all add: usable_def)
  have mask: "valid_mask ?e" using inv_ctx [OF inv i(1)] by (simp add: ctx_ok_def)
  show ?thesis
  proof (cases "?real = 0 \<or> rt \<noteq> 0")
    case True
    with r inv idle_event_spec [OF inv i(1) rep, of rt] show ?thesis by (simp add: Let_def)
  next
    case False
    with r idle_event_spec [OF inv i(1) rep, of rt]
      io_inv_fire_all [OF inv i real_events_valid, of reported ?e _ "EPOLLET OR (?e AND NOT ?real)"]
      real_subset [OF rep mask] i
    show ?thesis by (auto simp: Let_def shape_after)
  qed
qed

lemma io_op_inv: "io_op m m' \<Longrightarrow> io_inv m \<Longrightarrow> io_inv m' \<and> same_shape m m'"
proof (induction rule: io_op.induct)
  case (add fd m v rt junk th s cb W r m' W')
  show ?case by (rule io_op_add [OF add(4,1,2,3)])
next
  case (del fd m v rt r m')
  show ?case by (rule io_op_del [OF del(5,1-4)])
next
  case (cancel fd m v rt r m')
  show ?case by (rule io_op_cancel [OF cancel(5,1-4)])
next
  case (cancel_all fd m rt r m')
  show ?case by (rule io_op_cancel_all [OF cancel_all(3,1,2)])
next
  case (ready i m reported rt m')
  show ?case by (rule io_op_ready [OF ready(4,1-3)])
next
  case (other m' m)
  then show ?case using io_inv_cong [of m' m] by (simp add: same_shape_def)
qed

end
