(* ===== verification/IOManager_Theorems.thy ===== *)
theory IOManager_Theorems
  imports IOManager_Props
begin

text \<open>
  The properties of \<open>IOManager\<close> as a table of events: over every sequence of operations from its
  construction, for each operation, and for the misuses the code does not survive.
\<close>

section \<open>Reachable managers\<close>

inductive io_reach :: "iomanager \<Rightarrow> bool" where
  construct: "IOManager_construct self clock epfd fds rts mk tm s = Inr m \<Longrightarrow> io_reach m"
| op: "io_reach m \<Longrightarrow> io_op m m' \<Longrightarrow> io_reach m'"

lemma start_loop_keeps:
  "start_loop mk i n (m :: iomanager) = Inr m' \<Longrightarrow>
     m_fdContexts m' = m_fdContexts m \<and> ctl_log m' = ctl_log m \<and>
     m_pendingEventCount m' = m_pendingEventCount m \<and> m_tickleFds m' = m_tickleFds m"
proof (induction n arbitrary: i m)
  case (Suc n)
  then obtain p tid where "start_loop mk (Suc i) n
      (m\<lparr>m_threads := (m_threads m)[i := p], m_threadIDs := m_threadIDs m @ [tid]\<rparr>) = Inr m'"
    by (auto simp: result_simps)
  from Suc.IH [OF this] show ?case by simp
qed simp

lemma construct_fields:
  assumes "IOManager_construct self clock epfd fds rts mk tm s = Inr m"
  shows "m_fdContexts m = map new_fd_context [0..<32] \<and>
         ctl_log m = [(CTL_ADD, fst fds, EPOLLIN OR EPOLLET)] \<and>
         m_pendingEventCount m = 0 \<and> m_tickleFds m = fds"
  using assms
  by (auto simp: IOManager_construct_def Let_def result_simps start_def contextResize_def scheduler.extend_def
      split: if_splits dest!: start_loop_keeps)

lemma construct_inv:
  assumes "IOManager_construct self clock epfd fds rts mk tm s = Inr m"
  shows "io_inv m"
proof -
  note f = construct_fields [OF assms]
  have "ctx_ok (new_fd_context i)" for i by (simp add: ctx_ok_def new_fd_context_def valid_mask_def)
  moreover have "registered m = 0"
    using f by (simp add: registered_def o_def new_fd_context_def)
  ultimately show ?thesis
    using f by (auto simp: io_inv_def interest_def expected_interest_def new_fd_context_def)
qed

lemma io_reach_inv: "io_reach m \<Longrightarrow> io_inv m"
  by (induction rule: io_reach.induct) (blast intro: construct_inv dest: io_op_inv)+

lemma io_reach_length: "io_reach m \<Longrightarrow> length (m_fdContexts m) = 32"
proof (induction rule: io_reach.induct)
  case (construct self clock epfd fds rts mk tm s m)
  then show ?case by (auto dest: construct_fields)
next
  case (op m m')
  then show ?case using io_op_inv [OF op(2) io_reach_inv [OF op(1)]] by (simp add: same_shape_def)
qed

lemma registered_bound: "registered m \<le> 2 * length (m_fdContexts m)"
proof -
  have "sum_list (map (\<lambda>c. n_events (fc_events c)) cs) \<le> 2 * length cs" for cs
  proof (induction cs)
    case (Cons c cs)
    have "n_events (fc_events c) \<le> 2" by simp
    with Cons show ?case by (simp del: n_events.simps)
  qed simp
  then show ?thesis by (simp add: registered_def)
qed

text \<open>
  C9. The three views of the registered events agree, after any sequence of registrations by threads that
  have a scheduler, removals of events that are registered, calls of \<open>cancelAll\<close>, and reports that are current
  when they are treated, on descriptors of the table and whatever \<open>epoll_ctl\<close> returns (a removal of an event
  that is not registered breaks the agreement: C39): \<open>m_pendingEventCount\<close> is the number of
  events set in the contexts, the kernel's interest list has for each descriptor exactly the mask of
  its context, edge-triggered, and none where the mask is empty, and every ADD, MOD and DEL that was
  issued is one the kernel accepts in the state it is in.
\<close>

theorem events_pending_and_kernel_agree:
  assumes "io_reach m"
  shows "unat (m_pendingEventCount m) = registered m \<and> ctl_accepted (ctl_log m) (\<lambda>_. None) \<and>
         (\<forall>fd. usable fd m \<longrightarrow> interest m fd = expected_interest (m_fdContexts m ! nat fd))"
proof -
  have inv: "io_inv m" by (rule io_reach_inv [OF assms])
  have "registered m < 2 ^ 64" using registered_bound [of m] io_reach_length [OF assms] by simp
  then have "unat (m_pendingEventCount m) = registered m" using inv_pending [OF inv] by (simp add: unat_of_nat)
  moreover have "interest m fd = expected_interest (m_fdContexts m ! nat fd)" if "usable fd m" for fd
    using inv_interest [OF inv, of "nat fd"] that by (simp add: usable_def nat_less_iff)
  ultimately show ?thesis using inv_log [OF inv] by blast
qed

text \<open>A manager on descriptors 3 (epoll), 4 and 5 (pipe); READ on descriptor 7 calls function 9.\<close>

definition io0 :: iomanager where
  "io0 = (case IOManager_construct 1 0 3 (4, 5) (0, 0, 0) (\<lambda>_ _. Inl LogicError) (new_manager 0)
     (new_scheduler False) of Inr m \<Rightarrow> m | Inl _ \<Rightarrow> undefined)"

lemma io0_construct:
  "IOManager_construct 1 0 3 (4, 5) (0, 0, 0) (\<lambda>_ _. Inl LogicError) (new_manager 0) (new_scheduler False) =
     Inr io0"
  by (simp add: io0_def IOManager_construct_def start_def new_scheduler_def scheduler.extend_def
      contextResize_def Let_def)

lemma io0_reach: "io_reach io0"
  by (rule io_reach.construct [OF io0_construct])

lemma io0_fields [simp]:
  "m_fdContexts io0 = map new_fd_context [0..<32]" "m_tickleFds io0 = (4, 5)" "m_pendingEventCount io0 = 0"
  "io_self io0 = 1" "m_tasks io0 = []" "m_idleThreadCount io0 = 0" "io_timers io0 = new_manager 0"
  "m_stopping io0 = False"
  by (simp_all add: io0_def IOManager_construct_def start_def new_scheduler_def scheduler.extend_def
      contextResize_def Let_def)

definition io1 :: iomanager where
  "io1 = after_add 7 READ_event \<lparr>ec_scheduler = Some 1, ec_fiber = None, ec_cb = Some (UserFn 9)\<rparr> io0"

lemma io1_add: "addEvent 0 False 0 (Some 1) 7 READ_event (Some (UserFn 9)) io0 W = Inr (0, io1, W)"
  using addEvent_cb_spec [OF io_reach_inv [OF io0_reach], of 7 READ_event]
  by (simp add: io1_def valid_event_def new_fd_context_def)

lemma io1_reach: "io_reach io1"
  by (rule io_reach.op [OF io0_reach io_op.add [OF _ _ io1_add]]) (simp_all add: usable_def valid_event_def)

lemma io1_context [simp]:
  "fc_events (m_fdContexts io1 ! 7) = READ_event" "length (m_fdContexts io1) = 32"
  "m_pendingEventCount io1 = 1" "m_tickleFds io1 = (4, 5)" "m_tasks io1 = []" "io_self io1 = 1"
  by (simp_all add: io1_def after_add_def new_fd_context_def)

lemma events_pending_and_kernel_agree_witness:
  "unat (m_pendingEventCount io1) = registered io1 \<and> interest io1 7 = Some (EPOLLET OR READ_event)"
  using events_pending_and_kernel_agree [OF io1_reach]
  by (simp add: usable_def expected_interest_def del: n_events.simps)

section \<open>Delivery\<close>

text \<open>What the contexts of a descriptor hold for the events \<open>real\<close>, READ before WRITE.\<close>

definition contexts_of :: "32 word \<Rightarrow> fd_context \<Rightarrow> event_context list" where
  "contexts_of real c = map (\<lambda>v. the_context v c) (filter (\<lambda>v. real AND v \<noteq> 0) [READ_event, WRITE_event])"

lemma without_other:
  "the_context WRITE_event (without READ_event c) = the_context WRITE_event c"
  by (simp add: the_context_def without_def resetEventContext_def set_context_def)

lemma delivered_tasks:
  "armed ec \<Longrightarrow> m_tasks (delivered ec m) =
     m_tasks m @ (if ec_scheduler ec = Some (io_self m) then [context_task ec] else [])"
  by (simp add: delivered_def pushed_def armed_work)

lemma fire_all_tasks:
  assumes i: "i < length (m_fdContexts m)" and ok: "ctx_ok (m_fdContexts m ! i)"
    and real: "real AND READ_event \<noteq> 0 \<longrightarrow> fc_events (m_fdContexts m ! i) AND READ_event \<noteq> 0"
      "real AND WRITE_event \<noteq> 0 \<longrightarrow> fc_events (m_fdContexts m ! i) AND WRITE_event \<noteq> 0"
  shows "m_tasks (fire_all real i m) = m_tasks m @
    map context_task (filter (\<lambda>ec. ec_scheduler ec = Some (io_self m)) (contexts_of real (m_fdContexts m ! i)))"
proof -
  let ?c = "m_fdContexts m ! i"
  have armed: "real AND READ_event \<noteq> 0 \<Longrightarrow> armed (the_context READ_event ?c)"
    "real AND WRITE_event \<noteq> 0 \<Longrightarrow> armed (the_context WRITE_event ?c)"
    using real context_armed [OF ok] by (auto simp: valid_event_def)
  then show ?thesis
    using i by (auto simp: fire_all_def fire_def contexts_of_def delivered_tasks without_other)
qed

lemma ready_delivered:
  assumes "io_reach m" and "usable (int i) m" and "kernel_reports (fc_events (m_fdContexts m ! i)) reported"
  shows "\<exists>m'. idle_event rt (OfContext i) reported m = Inr m' \<and>
    (let c = m_fdContexts m ! i; real = real_events reported (fc_events c)
     in if rt \<noteq> 0 \<or> real = 0 then m' = m
        else m_tasks m' = m_tasks m @ map context_task
               (filter (\<lambda>ec. ec_scheduler ec = Some (io_self m)) (contexts_of real c)) \<and>
             m_fdContexts m' = (m_fdContexts m)[i := fired real c] \<and>
             fc_events (fired real c) = fc_events c AND NOT real \<and>
             m_pendingEventCount m' = m_pendingEventCount m - of_nat (n_events real) \<and>
             interest m' (int i) = expected_interest (fired real c))"
proof -
  let ?c = "m_fdContexts m ! i" let ?real = "real_events reported (fc_events ?c)"
  let ?left = "fc_events ?c AND NOT ?real"
  let ?m = "m\<lparr>ctl_log := ctl_log m @ [(if ?left \<noteq> 0 then CTL_MOD else CTL_DEL, int i, EPOLLET OR ?left)]\<rparr>"
  have inv: "io_inv m" by (rule io_reach_inv [OF assms(1)])
  have i: "i < length (m_fdContexts m)" "int i \<noteq> fst (m_tickleFds m)" using assms(2) by (simp_all add: usable_def)
  have ok: "ctx_ok ?c" and mask: "valid_mask (fc_events ?c)"
    using inv_ctx [OF inv i(1)] by (simp_all add: ctx_ok_def)
  note sub = real_subset [OF assms(3) mask] and spec = idle_event_spec [OF inv i(1) assms(3), of rt]
  show ?thesis
  proof (cases "rt \<noteq> 0 \<or> ?real = 0")
    case True
    with spec show ?thesis by (auto simp: Let_def)
  next
    case False
    note fm = fired_mask [OF mask real_events_valid sub(1)]
    have r: "idle_event rt (OfContext i) reported m = Inr (fire_all ?real i ?m)"
      using spec False by (simp add: Let_def)
    have "io_inv (fire_all ?real i ?m)"
      by (rule io_inv_fire_all [OF inv i real_events_valid _ sub(1) refl]) (use False in auto)
    from inv_interest [OF this, of i] fire_all_fields [of i ?m ?real] i have
      "interest (fire_all ?real i ?m) (int i) = expected_interest (fired ?real ?c)" by simp
    moreover have "m_tasks (fire_all ?real i ?m) = m_tasks m @ map context_task
        (filter (\<lambda>ec. ec_scheduler ec = Some (io_self m)) (contexts_of ?real ?c))"
      using fire_all_tasks [of i ?m ?real] i ok fm(3,4) by simp
    ultimately show ?thesis
      using r False fire_all_fields [of i ?m ?real] i fm(2) [of ?c]
      by (simp add: Let_def del: n_events.simps)
  qed
qed

text \<open>
  C10. A ready event that the kernel reports is delivered exactly once, when the report is current as it is
  treated: for each event of the report
  that is registered, errors and hang-ups counting as both, what was registered for it goes into the
  queue of its scheduler, READ before WRITE; its context is emptied, its bit leaves the mask and the
  kernel's list, and the count drops by one. When \<open>epoll_ctl\<close> fails nothing
  changes, and nothing is lost.
\<close>

theorem ready_events_delivered:
  assumes "io_reach m" and "usable (int i) m" and "kernel_reports (fc_events (m_fdContexts m ! i)) reported"
  shows "\<exists>m'. idle_event rt (OfContext i) reported m = Inr m' \<and>
    (let c = m_fdContexts m ! i; real = real_events reported (fc_events c)
     in if rt \<noteq> 0 \<or> real = 0 then m' = m
        else m_tasks m' = m_tasks m @ map context_task
               (filter (\<lambda>ec. ec_scheduler ec = Some (io_self m)) (contexts_of real c)) \<and>
             m_fdContexts m' = (m_fdContexts m)[i := fired real c] \<and>
             fc_events (fired real c) = fc_events c AND NOT real \<and>
             m_pendingEventCount m' = m_pendingEventCount m - of_nat (n_events real) \<and>
             interest m' (int i) = expected_interest (fired real c))"
  using assms by (rule ready_delivered)

lemma ready_events_delivered_witness:
  "\<exists>m'. idle_event 0 (OfContext 7) (EPOLLIN OR EPOLLHUP) io1 = Inr m' \<and>
     m_tasks m' = [\<lparr>st_fiber = None, st_cb = Some (UserFn 9), st_thread = - 1\<rparr>] \<and>
     m_pendingEventCount m' = 0"
proof -
  have "kernel_reports (fc_events (m_fdContexts io1 ! 7)) (EPOLLIN OR EPOLLHUP)"
    by (simp add: kernel_reports_def)
  from ready_events_delivered [OF io1_reach _ this, of 0] show ?thesis
    by (auto simp: usable_def real_events_def Let_def contexts_of_def io1_def after_add_def with_event_def
        set_context_def the_context_def new_fd_context_def context_task_def context_arg_def)
qed

text \<open>Count and interest list follow from the contexts.\<close>

lemma contexts_determine:
  assumes "io_inv m" and "io_inv n" and "m_fdContexts n = m_fdContexts m" and "m_tickleFds n = m_tickleFds m"
    and "usable fd m"
  shows "m_pendingEventCount n = m_pendingEventCount m \<and> interest n fd = interest m fd"
  using inv_pending [OF assms(1)] inv_pending [OF assms(2)] inv_interest [OF assms(1), of "nat fd"]
    inv_interest [OF assms(2), of "nat fd"] assms(3-5)
  by (simp add: registered_def usable_def nat_less_iff)

text \<open>One event with a callback, registered on the manager \<open>m\<close>, is taken off again in each of the three ways.\<close>

lemma ready_restores:
  assumes reach: "io_reach (after_add i v ec m)" and u: "usable (int i) m" and v: "valid_event v"
    and ok: "ctx_ok (m_fdContexts m ! i)" and new: "fc_events (m_fdContexts m ! i) AND v = 0"
    and ec: "ec_scheduler ec = Some (io_self m)"
  obtains m2 where "idle_event 0 (OfContext i) v (after_add i v ec m) = Inr m2"
    and "m_tasks m2 = m_tasks m @ [context_task ec]" and "m_fdContexts m2 = m_fdContexts m"
    and "io_inv m2" and "m_tickleFds m2 = m_tickleFds m"
proof -
  let ?c = "m_fdContexts m ! i" and ?m1 = "after_add i v ec m"
  have i: "i < length (m_fdContexts m)" and ui: "usable (int i) ?m1"
    using u by (simp_all add: usable_def after_add_def)
  have c1: "m_fdContexts ?m1 ! i = with_event v ec ?c" using i by (simp add: after_add_def)
  have rep: "kernel_reports (fc_events (m_fdContexts ?m1 ! i)) v"
    unfolding kernel_reports_def c1 with_event_simps
    by (rule bit_word_eqI) (simp add: bit_and_iff bit_or_iff bit_not_iff)
  have real: "real_events v (fc_events (m_fdContexts ?m1 ! i)) = v"
    using v by (auto simp: valid_event_def real_events_def Let_def)
  from ready_delivered [OF reach ui rep, of 0] obtain m2 where
    m2: "idle_event 0 (OfContext i) v ?m1 = Inr m2"
      "m_tasks m2 = m_tasks ?m1 @ map context_task (filter (\<lambda>ec. ec_scheduler ec = Some (io_self ?m1))
         (contexts_of v (m_fdContexts ?m1 ! i)))"
      "m_fdContexts m2 = (m_fdContexts ?m1)[i := fired v (m_fdContexts ?m1 ! i)]"
    unfolding Let_def real using v by (auto simp: valid_event_def simp del: n_events.simps)
  have "contexts_of v (with_event v ec ?c) = [ec]" "fired v (with_event v ec ?c) = without v (with_event v ec ?c)"
    using v with_event_context [OF v, of ec ?c] by (auto simp: contexts_of_def fired_def Let_def valid_event_def)
  then have "m_tasks m2 = m_tasks m @ [context_task ec]" "m_fdContexts m2 = m_fdContexts m"
    using m2(2,3) without_with_event [OF ok v new] c1 ec by (simp_all add: after_add_def)
  moreover have "io_inv m2" "m_tickleFds m2 = m_tickleFds m"
    using io_op_inv [OF io_op.ready [OF ui rep m2(1)] io_reach_inv [OF reach]]
    by (simp_all add: same_shape_def after_add_def)
  ultimately show thesis using that m2(1) by blast
qed

lemma removal_restores:
  fixes m :: iomanager
  assumes inv: "io_inv m" and u: "usable fd m" and v: "valid_event v"
    and new: "fc_events (m_fdContexts m ! nat fd) AND v = 0"
    and inv1: "io_inv (after_add (nat fd) v ec m)" and arm: "armed ec" "ec_scheduler ec = Some (io_self m)"
  shows "\<exists>m3 m4. cancelEvent 0 fd v (after_add (nat fd) v ec m) = Inr (True, m3) \<and>
    delEvent 0 fd v (after_add (nat fd) v ec m) = Inr (True, m4) \<and> io_inv m3 \<and> io_inv m4 \<and>
    m_fdContexts m3 = m_fdContexts m \<and> m_tasks m3 = m_tasks m @ [context_task ec] \<and> m_tickleFds m3 = m_tickleFds m \<and>
    m_fdContexts m4 = m_fdContexts m \<and> m_tasks m4 = m_tasks m \<and> m_tickleFds m4 = m_tickleFds m"
proof -
  let ?i = "nat fd" let ?c = "m_fdContexts m ! ?i" let ?m1 = "after_add ?i v ec m"
  have fd: "0 \<le> fd" "fd < int (length (m_fdContexts m))" and i: "?i < length (m_fdContexts m)"
    "int ?i \<noteq> fst (m_tickleFds m)"
    using u by (simp_all add: usable_def nat_less_iff)
  have ok: "ctx_ok ?c" using inv_ctx [OF inv i(1)] .
  have c1: "m_fdContexts ?m1 ! ?i = with_event v ec ?c" and len: "length (m_fdContexts ?m1) = length (m_fdContexts m)"
    and tick: "m_tickleFds ?m1 = m_tickleFds m" and same: "m_tasks ?m1 = m_tasks m" "io_self ?m1 = io_self m"
    using i by (simp_all add: after_add_def)
  have on: "fc_events (m_fdContexts ?m1 ! ?i) AND v \<noteq> 0"
    using mask_ops(5) [OF conjunct1 [OF ok [unfolded ctx_ok_def]] v] by (simp add: c1)
  have again: "(m_fdContexts ?m1)[?i := without v (with_event v ec ?c)] = m_fdContexts m"
    using without_with_event [OF ok v new] by (simp add: after_add_def)
  let ?m3 = "after_remove ?i v (delivered ec ?m1)" and ?m4 = "after_remove ?i v ?m1"
  have "cancelEvent 0 fd v ?m1 = Inr (True, ?m3)" "delEvent 0 fd v ?m1 = Inr (True, ?m4)"
    using cancelEvent_spec [OF inv1 _ _ v on] delEvent_spec [OF inv1 _ _ v on] fd len
    by (simp_all add: c1 with_event_context [OF v])
  moreover have "m_fdContexts ?m3 = m_fdContexts m" "m_tasks ?m3 = m_tasks m @ [context_task ec]"
    "m_tickleFds ?m3 = m_tickleFds m" "m_fdContexts ?m4 = m_fdContexts m" "m_tasks ?m4 = m_tasks m"
    "m_tickleFds ?m4 = m_tickleFds m"
    using again c1 same arm tick by (simp_all add: after_remove_def Let_def delivered_tasks)
  moreover have "io_inv ?m3" "io_inv ?m4"
    by (rule io_inv_after_remove; use inv1 i on v len tick in simp)+
  ultimately show ?thesis by blast
qed

text \<open>
  C11. Registering and delivering are inverse: an event registered with a callback on a free slot and
  then reported ready, or cancelled, puts exactly that callback into the queue and leaves contexts,
  count and interest list as they were before; deleting it does the same without the callback.
\<close>

theorem add_then_ready_roundtrip:
  assumes "io_reach m" and "usable fd m" and v: "valid_event v" and "\<not> is_registered fd v m"
  shows "\<exists>m1 m2 m3 m4.
    addEvent 0 junk th (Some (io_self m)) fd v (Some f) m W = Inr (0, m1, W) \<and>
      m_pendingEventCount m1 = m_pendingEventCount m + 1 \<and>
    idle_event 0 (OfContext (nat fd)) v m1 = Inr m2 \<and> cancelEvent 0 fd v m1 = Inr (True, m3) \<and>
    delEvent 0 fd v m1 = Inr (True, m4) \<and>
    m_tasks m2 = m_tasks m @ [\<lparr>st_fiber = None, st_cb = Some f, st_thread = - 1\<rparr>] \<and>
    m_tasks m3 = m_tasks m2 \<and> m_tasks m4 = m_tasks m \<and>
    (\<forall>n \<in> {m2, m3, m4}. m_fdContexts n = m_fdContexts m \<and> m_pendingEventCount n = m_pendingEventCount m \<and>
       interest n fd = interest m fd)"
proof -
  let ?i = "nat fd" let ?c = "m_fdContexts m ! ?i"
  let ?ec = "\<lparr>ec_scheduler = Some (io_self m), ec_fiber = None, ec_cb = Some f\<rparr>"
  let ?m1 = "after_add ?i v ?ec m"
  have inv: "io_inv m" by (rule io_reach_inv [OF assms(1)])
  have fd: "0 \<le> fd" "fd < int (length (m_fdContexts m))" and ui: "usable (int ?i) m"
    and ok: "ctx_ok ?c"
    using assms(2) inv_ctx [OF inv, of ?i] by (simp_all add: usable_def nat_less_iff)
  have new: "fc_events ?c AND v = 0" using assms(4) by (simp add: is_registered_def)
  have add: "addEvent 0 junk th (Some (io_self m)) fd v (Some f) m W = Inr (0, ?m1, W)"
    by (rule addEvent_cb_spec [OF inv fd v new])
  then have reach: "io_reach ?m1" using io_reach.op [OF assms(1) io_op.add [OF assms(2) v]] by blast
  have pend: "m_pendingEventCount ?m1 = m_pendingEventCount m + 1" by (simp add: after_add_def)
  have task: "context_task ?ec = \<lparr>st_fiber = None, st_cb = Some f, st_thread = - 1\<rparr>"
    by (simp add: context_task_def context_arg_def)
  obtain m2 where m2: "idle_event 0 (OfContext ?i) v ?m1 = Inr m2" "m_tasks m2 = m_tasks m @ [context_task ?ec]"
    "m_fdContexts m2 = m_fdContexts m" "io_inv m2" "m_tickleFds m2 = m_tickleFds m"
    by (rule ready_restores [OF reach ui v ok new]) simp_all
  obtain m3 m4 where m3: "cancelEvent 0 fd v ?m1 = Inr (True, m3)" "io_inv m3" "m_fdContexts m3 = m_fdContexts m"
      "m_tasks m3 = m_tasks m @ [context_task ?ec]" "m_tickleFds m3 = m_tickleFds m"
    and m4: "delEvent 0 fd v ?m1 = Inr (True, m4)" "io_inv m4" "m_fdContexts m4 = m_fdContexts m"
      "m_tasks m4 = m_tasks m" "m_tickleFds m4 = m_tickleFds m"
    using removal_restores [OF inv assms(2) v new io_reach_inv [OF reach]] by (auto simp: armed_def)
  from m2 m3 m4 have "\<forall>n \<in> {m2, m3, m4}. m_fdContexts n = m_fdContexts m \<and>
      m_pendingEventCount n = m_pendingEventCount m \<and> interest n fd = interest m fd"
    using contexts_determine [OF inv _ _ _ assms(2)] by blast
  with add pend m2(1,2) m3(1,4) m4(1,4) task show ?thesis
    by (intro exI [of _ ?m1] exI [of _ m2] exI [of _ m3] exI [of _ m4]) simp
qed

lemma add_then_ready_roundtrip_witness:
  "\<exists>m1 m2. addEvent 0 False 0 (Some 1) 7 WRITE_event (Some (UserFn 8)) io1 init_world = Inr (0, m1, init_world) \<and>
     idle_event 0 (OfContext 7) WRITE_event m1 = Inr m2 \<and>
     m_tasks m2 = [\<lparr>st_fiber = None, st_cb = Some (UserFn 8), st_thread = - 1\<rparr>] \<and>
     m_pendingEventCount m2 = 1"
proof -
  have "usable 7 io1" "valid_event WRITE_event" "\<not> is_registered 7 WRITE_event io1"
    by (simp_all add: usable_def valid_event_def is_registered_def)
  from add_then_ready_roundtrip [OF io1_reach this, of False 0 "UserFn 8" init_world] show ?thesis by auto
qed

section \<open>Misuse\<close>

text \<open>
  C39. The guard of \<open>delEvent\<close> and \<open>cancelEvent\<close> does not guard: \<open>!(events)&event\<close> is never true for
  WRITE, and never when another event is registered. Removing an event that is not registered while
  the other one is makes \<open>delEvent\<close> report success, count one pending event too few and leave the
  event that is registered registered; \<open>cancelEvent\<close> then aborts the program.
\<close>

theorem unregistered_removal:
  assumes "io_reach m" and "usable fd m" and v: "valid_event v" and "\<not> is_registered fd v m"
    and "fc_events (m_fdContexts m ! nat fd) \<noteq> 0"
  shows "(\<exists>m'. delEvent 0 fd v m = Inr (True, m') \<and>
            m_pendingEventCount m' = m_pendingEventCount m - 1 \<and>
            m_fdContexts m' = m_fdContexts m \<and> registered m' = registered m) \<and>
         cancelEvent 0 fd v m = Inl AssertionFailed"
proof -
  let ?i = "nat fd" let ?c = "m_fdContexts m ! nat fd"
  have inv: "io_inv m" by (rule io_reach_inv [OF assms(1)])
  have fd: "0 \<le> fd" "fd < int (length (m_fdContexts m))" and i: "?i < length (m_fdContexts m)"
    using assms(2) by (simp_all add: usable_def nat_less_iff)
  have off: "fc_events ?c AND v = 0" using assms(4) by (simp add: is_registered_def)
  have ok: "ctx_ok ?c" and mask: "valid_mask (fc_events ?c)"
    using inv_ctx [OF inv i] by (simp_all add: ctx_ok_def)
  have guard: "\<not> not_events_and (fc_events ?c) v" using assms(5) by (simp add: not_events_and_def)
  have get: "getEventContext v c \<noteq> Inl e" for c e
    using v by (auto simp: getEventContext_def valid_event_def)
  have same: "(m_fdContexts m)[?i := resetEventContext v (?c\<lparr>fc_events := fc_events ?c\<rparr>)] = m_fdContexts m"
  proof -
    have "resetEventContext v (?c\<lparr>fc_events := fc_events ?c\<rparr>) = without v ?c"
      using mask_ops(8) [OF mask v off] by (simp add: without_def)
    then show ?thesis using without_idle [OF ok v off] by simp
  qed
  obtain ec where ec: "getEventContext v (?c\<lparr>fc_events := fc_events ?c\<rparr>) = Inr ec"
    using get by (metis sum.exhaust)
  have "\<exists>m'. delEvent 0 fd v m = Inr (True, m') \<and> m_fdContexts m' = m_fdContexts m \<and>
      m_pendingEventCount m' = m_pendingEventCount m - 1"
    using inv fd i guard same ec mask_ops(8) [OF mask v off] assms(5)
    by (simp add: delEvent_def find_context_ok Let_def upd_ctx_def)
  moreover have "cancelEvent 0 fd v m = Inl AssertionFailed"
    using inv fd guard off mask_ops(8) [OF mask v off]
    by (simp add: cancelEvent_def find_context_ok Let_def triggerEvent_def)
  ultimately show ?thesis by (auto simp: registered_def)
qed

lemma unregistered_removal_witness:
  "(\<exists>m'. delEvent 0 7 WRITE_event io1 = Inr (True, m') \<and> m_pendingEventCount m' = 0 \<and>
      fc_events (m_fdContexts m' ! 7) = READ_event) \<and>
   cancelEvent 0 7 WRITE_event io1 = Inl AssertionFailed"
proof -
  have "usable 7 io1" "valid_event WRITE_event" "\<not> is_registered 7 WRITE_event io1"
    "fc_events (m_fdContexts io1 ! nat 7) \<noteq> 0"
    by (simp_all add: usable_def valid_event_def is_registered_def)
  from unregistered_removal [OF io1_reach this] show ?thesis by auto
qed

text \<open>The idle function triggers what was reported, not what is registered.\<close>

lemma unregistered_trigger_aborts:
  assumes ok: "ctx_ok (m_fdContexts m ! i)" and i: "i < length (m_fdContexts m)"
    and v: "valid_event v" "valid_event u" "u \<noteq> v" and e: "fc_events (m_fdContexts m ! i) = u"
  shows "idle_event 0 (OfContext i) (u OR v) m = Inl AssertionFailed"
proof (cases "v = READ_event")
  case True
  with v have u: "u = WRITE_event" by (simp add: valid_event_def)
  with True e i show ?thesis
    by (simp add: idle_event_def real_events_def Let_def trigger_and_count_def triggerEvent_def)
next
  case False
  with v have vu: "v = WRITE_event" "u = READ_event" by (auto simp: valid_event_def)
  let ?m1 = "m\<lparr>ctl_log := ctl_log m @ [(CTL_DEL, fc_fd (m_fdContexts m ! i), EPOLLET)]\<rparr>"
  have "trigger_and_count READ_event i ?m1 = Inr (fire READ_event READ_event i ?m1)"
    using fire_step [of i ?m1 READ_event READ_event] i ok e vu by (simp add: valid_event_def)
  then show ?thesis
    using i e vu
    by (simp add: idle_event_def real_events_def Let_def fire_def trigger_and_count_def [of WRITE_event]
        triggerEvent_def)
qed

lemma both_registered:
  assumes "io_inv m" and "i < length (m_fdContexts m)" and "valid_event v" "valid_event u" "u \<noteq> v"
    and "is_registered (int i) v m" "is_registered (int i) u m"
  shows "fc_events (m_fdContexts m ! i) = u OR v" and "(u OR v) AND NOT v = u"
proof -
  have "ctx_ok (m_fdContexts m ! i)" by (rule inv_ctx [OF assms(1,2)])
  then show "fc_events (m_fdContexts m ! i) = u OR v"
    using assms(3-) by (auto simp: is_registered_def ctx_ok_def valid_mask_def valid_event_def)
  show "(u OR v) AND NOT v = u" using assms(3-5) by (auto simp: valid_event_def)
qed

text \<open>
  An event that another thread cancels after \<open>epoll_wait\<close> returned and before the idle function
  locks the context aborts the program if the report also has the event that stays registered.
\<close>

lemma stale_report_aborts:
  assumes "io_reach m" and "usable (int i) m" and v: "valid_event v" "valid_event u" "u \<noteq> v"
    and "is_registered (int i) v m" and "is_registered (int i) u m"
    and "cancelEvent 0 (int i) v m = Inr (True, m')"
  shows "idle_event 0 (OfContext i) (u OR v) m' = Inl AssertionFailed"
proof -
  let ?c = "m_fdContexts m ! i"
  have inv: "io_inv m" by (rule io_reach_inv [OF assms(1)])
  have i: "0 \<le> int i" "int i < int (length (m_fdContexts m))" "i < length (m_fdContexts m)"
    using assms(2) by (simp_all add: usable_def)
  note both = both_registered [OF inv i(3) v assms(6,7)]
  have on: "fc_events ?c AND v \<noteq> 0" using assms(6) by (simp add: is_registered_def)
  have "m' = after_remove i v (delivered (the_context v ?c) m)"
    using cancelEvent_spec [OF inv i(1,2) v(1), unfolded nat_int, OF on] assms(8) by simp
  then have c': "m_fdContexts m' ! i = without v ?c" "i < length (m_fdContexts m')"
    using i(3) by (simp_all add: after_remove_def Let_def)
  have "ctx_ok (without v ?c)" by (rule without_ok [OF inv_ctx [OF inv i(3)] v(1)])
  with c' both show ?thesis by (intro unregistered_trigger_aborts [OF _ _ v]) simp_all
qed

definition io2 :: iomanager where
  "io2 = after_add 7 WRITE_event \<lparr>ec_scheduler = Some 1, ec_fiber = None, ec_cb = Some (UserFn 8)\<rparr> io1"

lemma io2_reach: "io_reach io2"
proof -
  have "addEvent 0 False 0 (Some 1) 7 WRITE_event (Some (UserFn 8)) io1 init_world = Inr (0, io2, init_world)"
    using addEvent_cb_spec [OF io_reach_inv [OF io1_reach], of 7 WRITE_event]
    by (simp add: io2_def valid_event_def)
  from io_reach.op [OF io1_reach io_op.add [OF _ _ this]] show ?thesis by (simp add: usable_def valid_event_def)
qed

lemma io2_context [simp]:
  "fc_events (m_fdContexts io2 ! 7) = 5" "length (m_fdContexts io2) = 32" "m_tickleFds io2 = (4, 5)"
  by (simp_all add: io2_def after_add_def)

lemma stale_report_aborts_witness:
  "\<exists>m'. cancelEvent 0 7 READ_event io2 = Inr (True, m') \<and>
     idle_event 0 (OfContext 7) (EPOLLOUT OR EPOLLIN) m' = Inl AssertionFailed"
proof -
  have v: "usable (int 7) io2" "valid_event READ_event" "valid_event WRITE_event" "WRITE_event \<noteq> READ_event"
    "is_registered (int 7) READ_event io2" "is_registered (int 7) WRITE_event io2"
    by (simp_all add: usable_def valid_event_def is_registered_def)
  obtain m' where m': "cancelEvent 0 (int 7) READ_event io2 = Inr (True, m')"
    using cancelEvent_spec [OF io_reach_inv [OF io2_reach], of "int 7" READ_event] by (simp add: valid_event_def)
  from stale_report_aborts [OF io2_reach v m'] m' show ?thesis by auto
qed

text \<open>
  C40. Descriptors outside the table of 32 contexts: \<open>addEvent\<close> deadlocks on the table's lock instead
  of growing the table, the others find nothing; a negative descriptor passes the test of all four
  and indexes the table out of its bounds. A failed \<open>epoll_ctl\<close> makes the three removals answer
  \<open>true\<close> although nothing was removed.
\<close>

theorem descriptor_outside_table:
  assumes "io_reach m"
  shows "(32 \<le> fd \<longrightarrow> addEvent rt junk th cur fd v cb m W = Inl SelfDeadlock \<and>
            delEvent rt fd v m = Inr (False, m) \<and> cancelEvent rt fd v m = Inr (False, m) \<and>
            cancelAll rt fd m = Inr (False, m)) \<and>
         (fd < 0 \<longrightarrow> addEvent rt junk th cur fd v cb m W = Inl OutOfBounds \<and>
            delEvent rt fd v m = Inl OutOfBounds \<and> cancelEvent rt fd v m = Inl OutOfBounds \<and>
            cancelAll rt fd m = Inl OutOfBounds) \<and>
         (usable fd m \<and> is_registered fd v m \<and> rt \<noteq> 0 \<longrightarrow>
            delEvent rt fd v m = Inr (True, m) \<and> cancelEvent rt fd v m = Inr (True, m) \<and>
            cancelAll rt fd m = Inr (True, m))"
proof -
  have inv: "io_inv m" and len: "length (m_fdContexts m) = 32"
    by (rule io_reach_inv [OF assms], rule io_reach_length [OF assms])
  note find = find_context_ok [OF inv, of fd, unfolded len]
  have "32 \<le> fd \<Longrightarrow> find_context fd m = Inr None" "fd < 0 \<Longrightarrow> find_context fd m = Inl OutOfBounds"
    using find by simp_all
  then have a: "32 \<le> fd \<longrightarrow> addEvent rt junk th cur fd v cb m W = Inl SelfDeadlock \<and>
            delEvent rt fd v m = Inr (False, m) \<and> cancelEvent rt fd v m = Inr (False, m) \<and>
            cancelAll rt fd m = Inr (False, m)"
    and b: "fd < 0 \<longrightarrow> addEvent rt junk th cur fd v cb m W = Inl OutOfBounds \<and>
            delEvent rt fd v m = Inl OutOfBounds \<and> cancelEvent rt fd v m = Inl OutOfBounds \<and>
            cancelAll rt fd m = Inl OutOfBounds"
    by (simp_all add: addEvent_def delEvent_def cancelEvent_def cancelAll_def)
  have "usable fd m \<and> is_registered fd v m \<and> rt \<noteq> 0 \<longrightarrow>
      delEvent rt fd v m = Inr (True, m) \<and> cancelEvent rt fd v m = Inr (True, m) \<and>
      cancelAll rt fd m = Inr (True, m)"
    using find guard_registered
    by (auto simp: usable_def is_registered_def len delEvent_def cancelEvent_def cancelAll_def bool_of_int_def Let_def)
  with a b show ?thesis by blast
qed

lemma descriptor_outside_table_witness:
  "addEvent 0 False 0 (Some 1) 40 READ_event (Some (UserFn 1)) io1 init_world = Inl SelfDeadlock \<and>
   addEvent 0 False 0 (Some 1) (- 1) READ_event None io1 init_world = Inl OutOfBounds \<and>
   delEvent (- 1) 7 READ_event io1 = Inr (True, io1)"
  using descriptor_outside_table [OF io1_reach, of 40 0 False 0 "Some 1" READ_event "Some (UserFn 1)" init_world]
    descriptor_outside_table [OF io1_reach, of "- 1" 0 False 0 "Some 1" READ_event None init_world]
    descriptor_outside_table [OF io1_reach, of 7 "- 1" _ _ _ READ_event]
  by (simp add: usable_def is_registered_def)

end
