(* ===== verification/Fiber_Caller.thy ===== *)
theory Fiber_Caller
  imports Fiber_Spec
begin

text \<open>
  The thread that constructs a scheduler and takes part in it (\<open>use_caller\<close>). Its task fibers switch
  with the scheduler fiber \<open>s\<close>, on whose stack \<open>run\<close> executes, while its main fiber \<open>m\<close> waits in
  \<open>stop\<close>. Seen from the tasks there is no difference to a thread of the pool: \<open>as_pool\<close> reads the
  stack of \<open>s\<close> as the thread's own flow and \<open>m\<close> as the fiber it switches with, and every operation
  of the fiber module commutes with it.
\<close>

section \<open>The view of the calling thread as one of the pool\<close>

text \<open>\<open>rs\<close> stands for the scheduler fiber in that view: a fiber that nobody resumes.\<close>

definition as_pool :: "nat \<Rightarrow> nat \<Rightarrow> nat \<Rightarrow> fiber \<Rightarrow> fiber_world \<Rightarrow> fiber_world" where
  "as_pool th m s rs W =
     W\<lparr>fibers := (fibers W)(m := (fibers W m)\<lparr>m_ctx := Suspended (Native th)\<rparr>, s := rs),
       tls := (tls W)(th := (tls W th)\<lparr>t_scheduler_fiber := Some m,
                t_fiber := (if t_fiber (tls W th) = Some s then Some m else t_fiber (tls W th))\<rparr>),
       flow_of := (flow_of W)(th := if flow_of W th = OnStack s then Native th else flow_of W th)\<rparr>"

text \<open>
  The thread before \<open>stop\<close> and after it, in \<open>run\<close> itself, and in a task. No other thread has either
  of the two fibers.
\<close>

definition caller_ok :: "nat \<Rightarrow> nat \<Rightarrow> nat \<Rightarrow> fiber_world \<Rightarrow> bool" where
  "caller_ok th m s W \<longleftrightarrow>
     m \<noteq> s \<and> m < next_fiber W \<and> s < next_fiber W \<and>
     t_thread_fiber (tls W th) = Some m \<and> t_scheduler_fiber (tls W th) = Some s \<and>
     (\<forall>t. t \<noteq> th \<longrightarrow> t_scheduler_fiber (tls W t) \<notin> {Some m, Some s}) \<and>
     \<not> m_runInScheduler (fibers W s) \<and> m_ctx (fibers W m) = Suspended (Native th) \<and>
     (case flow_of W th of
        Native t \<Rightarrow> t = th \<and> t_fiber (tls W th) = Some m
      | OnStack f \<Rightarrow> t_fiber (tls W th) = Some f \<and> state_of W s = RUNNING \<and>
          (f \<noteq> s \<longrightarrow> m_ctx (fibers W s) = Suspended (OnStack s)))"

text \<open>What every operation of a task or of another thread leaves to the calling thread.\<close>

definition keeps :: "nat \<Rightarrow> nat \<Rightarrow> nat \<Rightarrow> fiber_world \<Rightarrow> fiber_world \<Rightarrow> bool" where
  "keeps th m s W W' \<longleftrightarrow>
     caller_ok th m s W' \<and> (flow_of W' th = Native th \<longleftrightarrow> flow_of W th = Native th) \<and>
     (flow_of W th = Native th \<longrightarrow> fibers W' s = fibers W s)"

lemma as_pool_simps [simp]:
  "next_fiber (as_pool th m s rs W) = next_fiber W"
  "f \<noteq> m \<Longrightarrow> f \<noteq> s \<Longrightarrow> fibers (as_pool th m s rs W) f = fibers W f"
  "t \<noteq> th \<Longrightarrow> tls (as_pool th m s rs W) t = tls W t"
  "t \<noteq> th \<Longrightarrow> flow_of (as_pool th m s rs W) t = flow_of W t"
  "t_scheduler_fiber (tls (as_pool th m s rs W) t) = (if t = th then Some m else t_scheduler_fiber (tls W t))"
  "t_thread_fiber (tls (as_pool th m s rs W) t) = t_thread_fiber (tls W t)"
  by (auto simp: as_pool_def)

lemma as_pool_flow: "f \<noteq> s \<Longrightarrow> flow_of (as_pool th m s rs W) t = OnStack f \<longleftrightarrow> flow_of W t = OnStack f"
  by (auto simp: as_pool_def)

lemma as_pool_task:
  assumes "caller_ok th m s W"
  shows "is_task (as_pool th m s rs W) f \<longleftrightarrow> f = s \<or> is_task W f \<and> f \<noteq> m"
  using assms by (auto simp: is_task_def caller_ok_def split: if_splits)

section \<open>Every operation commutes with the view\<close>

text \<open>A task fiber other than the scheduler fiber, as the tasks of the pool are.\<close>

lemma task_plain:
  assumes "fw_inv (as_pool th m s rs W)" and "is_task (as_pool th m s rs W) f" and "f \<noteq> s"
  shows "f \<noteq> m" and "m_runInScheduler (fibers W f)"
    and "state_of W f = READY \<Longrightarrow> m_ctx (fibers W f) \<in> {StartOf f, Suspended (OnStack f)}"
proof -
  show "f \<noteq> m" using assms(2) by (auto simp: is_task_def) (metis as_pool_simps(5))
  with fw_inv_task [OF assms(1,2)] assms(3)
  show "m_runInScheduler (fibers W f)"
    "state_of W f = READY \<Longrightarrow> m_ctx (fibers W f) \<in> {StartOf f, Suspended (OnStack f)}"
    by (simp_all add: task_ok_def)
qed

text \<open>The two switches with the fiber \<open>p\<close>, whatever flow is saved and restored.\<close>

definition entered :: "nat \<Rightarrow> nat \<Rightarrow> nat \<Rightarrow> fiber_world \<Rightarrow> fiber_world" where
  "entered t p f W =
     W\<lparr>fibers := (fibers W)(f := (fibers W f)\<lparr>m_state := RUNNING\<rparr>,
                           p := (fibers W p)\<lparr>m_ctx := Suspended (flow_of W t)\<rparr>),
       tls := (tls W)(t := (tls W t)\<lparr>t_fiber := Some f\<rparr>),
       flow_of := (flow_of W)(t := OnStack f)\<rparr>"

definition left :: "nat \<Rightarrow> nat \<Rightarrow> flow \<Rightarrow> nat \<Rightarrow> fiber_world \<Rightarrow> fiber_world" where
  "left t p fl f W =
     W\<lparr>fibers := (fibers W)(f := (fibers W f)\<lparr>m_state :=
            (if state_of W f = TERM_state then state_of W f else READY), m_ctx := Suspended (flow_of W t)\<rparr>),
       tls := (tls W)(t := (tls W t)\<lparr>t_fiber := Some p\<rparr>),
       flow_of := (flow_of W)(t := fl)\<rparr>"

lemma resume_entered:
  assumes "state_of W f = READY" and "m_runInScheduler (fibers W f)"
    and "m_ctx (fibers W f) \<in> {StartOf f, Suspended (OnStack f)}"
    and "t_scheduler_fiber (tls W t) = Some p" and "p \<noteq> f"
  shows "resume True t f W = Inr (entered t p f W)"
  using assms
  by (auto simp: resume_def Let_def SetThis_def partner_def swapcontext_def entered_def upd_fiber_def upd_tls_def)

lemma resume_alone:
  assumes "state_of W f = READY" and "m_runInScheduler (fibers W f)"
    and "t_scheduler_fiber (tls W t) = None"
  shows "resume True t f W = Inl NullDereference"
  using assms by (simp add: resume_def Let_def SetThis_def partner_def swapcontext_def)

lemma yield_left:
  assumes "state_of W f \<noteq> READY" and "m_runInScheduler (fibers W f)"
    and "t_scheduler_fiber (tls W t) = Some p" and "p \<noteq> f" and "m_ctx (fibers W p) = Suspended fl"
  shows "yield True t f W = Inr (left t p fl f W)"
  using assms
  by (cases "state_of W f")
    (auto simp: yield_def Let_def SetThis_def partner_def swapcontext_def left_def upd_fiber_def upd_tls_def
      fun_eq_iff)

lemma entered_as_pool:
  assumes "m \<noteq> s" and "f \<noteq> m" and "f \<noteq> s"
  shows "flow_of W th = OnStack s \<Longrightarrow>
      as_pool th m s rs (entered th s f W) = entered th m f (as_pool th m s rs W)"
    and "t \<noteq> th \<Longrightarrow> p \<noteq> m \<Longrightarrow> p \<noteq> s \<Longrightarrow>
      as_pool th m s rs (entered t p f W) = entered t p f (as_pool th m s rs W)"
  using assms by (auto simp: as_pool_def entered_def fun_eq_iff)

lemma left_as_pool:
  assumes "m \<noteq> s" and "f \<noteq> m" and "f \<noteq> s"
  shows "flow_of W th = OnStack f \<Longrightarrow>
      as_pool th m s rs (left th s (OnStack s) f W) = left th m (Native th) f (as_pool th m s rs W)"
    and "t \<noteq> th \<Longrightarrow> p \<noteq> m \<Longrightarrow> p \<noteq> s \<Longrightarrow>
      as_pool th m s rs (left t p fl f W) = left t p fl f (as_pool th m s rs W)"
  using assms by (auto simp: as_pool_def left_def fun_eq_iff)

lemma resume_as_pool:
  assumes ok: "caller_ok th m s W" and inv: "fw_inv (as_pool th m s rs W)"
    and f: "is_task (as_pool th m s rs W) f" "f \<noteq> s" and t: "t = th \<Longrightarrow> flow_of W th = OnStack s"
  shows "resume True t f (as_pool th m s rs W) = and_then (resume True t f W) (\<lambda>W'. Inr (as_pool th m s rs W'))"
    (is "?A = ?B")
    and "resume True t f W = Inr W' \<Longrightarrow> keeps th m s W W'"
proof -
  let ?V = "as_pool th m s rs W"
  note f' = task_plain [OF inv f]
  have ms: "m \<noteq> s" using ok by (simp add: caller_ok_def)
  have same: "fibers ?V f = fibers W f" using f f' by simp
  consider (no) "state_of W f \<noteq> READY" | (alone) "state_of W f = READY" "t_scheduler_fiber (tls W t) = None"
    | (own) "state_of W f = READY" "t = th" | (other) p where "state_of W f = READY" "t \<noteq> th"
      "t_scheduler_fiber (tls W t) = Some p" by fastforce
  then have "?A = ?B \<and> (resume True t f W = Inr W' \<longrightarrow> keeps th m s W W')"
  proof cases
    case no
    then show ?thesis using same by (simp add: resume_def)
  next
    case alone
    then have "t \<noteq> th" using ok by (auto simp: caller_ok_def)
    then show ?thesis using alone resume_alone [of W f t] resume_alone [of ?V f t] same f' by simp
  next
    case own
    have "resume True th f W = Inr (entered th s f W)"
      using own f f' ok by (intro resume_entered) (auto simp: caller_ok_def)
    moreover have "resume True th f ?V = Inr (entered th m f ?V)"
      using own f' same by (intro resume_entered) auto
    moreover have "keeps th m s W (entered th s f W)"
      using ok own t f f' by (auto simp: keeps_def caller_ok_def entered_def)
    ultimately show ?thesis using own t entered_as_pool(1) [OF ms f'(1) f(2)] by auto
  next
    case (other p)
    have p: "p \<noteq> m" "p \<noteq> s" using ok other by (auto simp: caller_ok_def)
    have "p \<noteq> f" using f(1) other by (auto simp: is_task_def dest: spec [of _ t])
    then have "resume True t f W = Inr (entered t p f W)" "resume True t f ?V = Inr (entered t p f ?V)"
      using other f' same by (auto intro!: resume_entered)
    moreover have "keeps th m s W (entered t p f W)"
      using ok other p f f' by (auto simp: keeps_def caller_ok_def entered_def split: flow.splits)
    ultimately show ?thesis using entered_as_pool(2) [OF ms f'(1) f(2) other(2) p] by auto
  qed
  then show "?A = ?B" "resume True t f W = Inr W' \<Longrightarrow> keeps th m s W W'" by blast+
qed

text \<open>Leaving a fiber: \<open>yield\<close>, or the end of \<open>MainFunc\<close>.\<close>

lemma yield_as_pool:
  assumes ok: "caller_ok th m s W" and inv: "fw_inv (as_pool th m s rs W)"
    and fl: "flow_of W t = OnStack f" and f: "f \<noteq> s"
    and upd: "\<And>b. m_runInScheduler (upd b) = m_runInScheduler b" "state_of W f = RUNNING \<Longrightarrow> m_state (upd (fibers W f)) \<noteq> READY"
  defines "W1 \<equiv> upd_fiber f upd W"
  shows "\<exists>W'. yield True t f W1 = Inr W' \<and> keeps th m s W W' \<and>
           yield True t f (upd_fiber f upd (as_pool th m s rs W)) = Inr (as_pool th m s rs W')"
proof -
  let ?V = "as_pool th m s rs W" let ?V1 = "upd_fiber f upd ?V"
  have ms: "m \<noteq> s" using ok by (simp add: caller_ok_def)
  have "flow_of ?V t = OnStack f" using fl f by (simp add: as_pool_flow)
  from thread_on_stack [OF inv this] obtain p where p: "t_scheduler_fiber (tls ?V t) = Some p"
    "is_task ?V f" "state_of ?V f = RUNNING" "m_ctx (fibers ?V p) = Suspended (Native t)" "p \<noteq> f"
    by metis
  note f' = task_plain [OF inv p(2) f]
  have run: "state_of W f = RUNNING" using p(3) f f' by simp
  have V1: "?V1 = as_pool th m s rs W1" using f f'(1) by (auto simp: W1_def as_pool_def fun_eq_iff)
  have st: "state_of W1 f \<noteq> READY" "m_runInScheduler (fibers W1 f)" using upd run f'(2) by (auto simp: W1_def)
  show ?thesis
  proof (cases "t = th")
    case True
    have "p = m" using p(1) True by simp
    have "m_ctx (fibers W s) = Suspended (OnStack s)" using ok fl f True by (simp add: caller_ok_def)
    then have "yield True th f W1 = Inr (left th s (OnStack s) f W1)"
      using st ok f by (intro yield_left) (auto simp: W1_def caller_ok_def)
    moreover have "yield True th f ?V1 = Inr (left th m (Native th) f ?V1)"
      using p True \<open>p = m\<close> upd run f' f by (intro yield_left) auto
    moreover have "keeps th m s W (left th s (OnStack s) f W1)"
      using ok True f f'(1) fl by (auto simp: keeps_def caller_ok_def left_def W1_def)
    ultimately show ?thesis
      using True V1 fl left_as_pool(1) [OF ms f'(1) f] by (auto simp: W1_def)
  next
    case False
    have t: "t_scheduler_fiber (tls W t) = Some p" using p(1) False by simp
    have pms: "p \<noteq> m" "p \<noteq> s" using ok t False by (auto simp: caller_ok_def)
    have "yield True t f W1 = Inr (left t p (Native t) f W1)"
      using st t p(4,5) pms by (intro yield_left) (auto simp: W1_def)
    moreover have "yield True t f ?V1 = Inr (left t p (Native t) f ?V1)"
      using p(1,4,5) upd run f' f by (intro yield_left) auto
    moreover have "keeps th m s W (left t p (Native t) f W1)"
      using ok False f f'(1) fl by (auto simp: keeps_def caller_ok_def left_def W1_def split: flow.splits)
    ultimately show ?thesis
      using V1 left_as_pool(2) [OF ms f'(1) f False pms] by auto
  qed
qed

text \<open>A fiber that is neither of the two, and new ones.\<close>

lemma upd_as_pool:
  "f \<noteq> m \<Longrightarrow> f \<noteq> s \<Longrightarrow> as_pool th m s rs (upd_fiber f upd W) = upd_fiber f upd (as_pool th m s rs W)"
  "as_pool th m s rs (W\<lparr>next_fiber := n\<rparr>) = (as_pool th m s rs W)\<lparr>next_fiber := n\<rparr>"
  "as_pool th m s rs (W\<lparr>s_fiber_id := j\<rparr>) = (as_pool th m s rs W)\<lparr>s_fiber_id := j\<rparr>"
  "as_pool th m s rs (W\<lparr>s_fiber_count := j\<rparr>) = (as_pool th m s rs W)\<lparr>s_fiber_count := j\<rparr>"
  "as_pool th m s rs (W\<lparr>blocks := bs\<rparr>) = (as_pool th m s rs W)\<lparr>blocks := bs\<rparr>"
  "t \<noteq> th \<Longrightarrow> as_pool th m s rs (upd_tls t h W) = upd_tls t h (as_pool th m s rs W)"
  "s_fiber_count (as_pool th m s rs W) = s_fiber_count W" "blocks (as_pool th m s rs W) = blocks W"
  "s_fiber_id (as_pool th m s rs W) = s_fiber_id W"
  by (auto simp: as_pool_def upd_fiber_def upd_tls_def fun_eq_iff)

lemma keeps_upd:
  assumes "caller_ok th m s W" and "fibers W' m = fibers W m" and "fibers W' s = fibers W s"
    and "tls W' th = tls W th" and "flow_of W' = flow_of W" and "next_fiber W \<le> next_fiber W'"
    and "\<And>t. t \<noteq> th \<Longrightarrow> t_scheduler_fiber (tls W' t) \<notin> {Some m, Some s}"
  shows "keeps th m s W W'"
  using assms by (auto simp: keeps_def caller_ok_def split: flow.splits)

lemma new_fiber_as_pool:
  assumes "caller_ok th m s W"
  shows "new_fiber cb sz r mem True (as_pool th m s rs W) =
      and_then (new_fiber cb sz r mem True W) (\<lambda>(f, W'). Inr (f, as_pool th m s rs W'))"
    and "new_fiber cb sz r mem True W = Inr (f, W') \<Longrightarrow> keeps th m s W W'"
proof -
  have new: "next_fiber W \<noteq> m" "next_fiber W \<noteq> s" using assms by (auto simp: caller_ok_def)
  show "new_fiber cb sz r mem True (as_pool th m s rs W) =
      and_then (new_fiber cb sz r mem True W) (\<lambda>(f, W'). Inr (f, as_pool th m s rs W'))"
    using new by (cases mem) (simp_all add: new_fiber_def Let_def upd_as_pool)
  show "new_fiber cb sz r mem True W = Inr (f, W') \<Longrightarrow> keeps th m s W W'"
    using new assms by (intro keeps_upd [OF assms]) (auto simp: new_fiber_Inr caller_ok_def)
qed

lemma GetThis_as_pool:
  assumes "caller_ok th m s W"
  shows "and_then (Fiber.GetThis True junk t (as_pool th m s rs W)) (\<lambda>(f, V). Inr V) =
      and_then (Fiber.GetThis True junk t W) (\<lambda>(f, W'). Inr (as_pool th m s rs W'))"
    and "Fiber.GetThis True junk t W = Inr (f, W') \<Longrightarrow> keeps th m s W W'"
proof -
  have new: "next_fiber W \<noteq> m" "next_fiber W \<noteq> s" using assms by (auto simp: caller_ok_def)
  have th: "t_fiber (tls W th) \<noteq> None" using assms by (auto simp: caller_ok_def split: flow.splits)
  show "and_then (Fiber.GetThis True junk t (as_pool th m s rs W)) (\<lambda>(f, V). Inr V) =
      and_then (Fiber.GetThis True junk t W) (\<lambda>(f, W'). Inr (as_pool th m s rs W'))"
  proof (cases "t = th")
    case True
    have "t_fiber (tls (as_pool th m s rs W) th) \<noteq> None" using th by (auto simp: as_pool_def)
    with th True show ?thesis by (auto simp: GetThis_def)
  next
    case False
    with new show ?thesis
      by (cases "t_fiber (tls W t)")
        (simp_all add: GetThis_def new_main_fiber_def Let_def SetThis_def upd_as_pool)
  qed
  show "Fiber.GetThis True junk t W = Inr (f, W') \<Longrightarrow> keeps th m s W W'"
    using new assms th by (intro keeps_upd [OF assms])
      (auto simp: GetThis_def new_main_fiber_def Let_def SetThis_def caller_ok_def
        split: option.splits if_splits)
qed

lemma reset_as_pool:
  assumes "caller_ok th m s W" and "f \<noteq> m" and "f \<noteq> s"
  shows "reset_fiber True f cb (as_pool th m s rs W) =
      and_then (reset_fiber True f cb W) (\<lambda>W'. Inr (as_pool th m s rs W'))"
    and "reset_fiber True f cb W = Inr W' \<Longrightarrow> keeps th m s W W'"
proof -
  show "reset_fiber True f cb (as_pool th m s rs W) =
      and_then (reset_fiber True f cb W) (\<lambda>W'. Inr (as_pool th m s rs W'))"
    using assms by (simp add: reset_fiber_def assert_that_def upd_as_pool)
  show "reset_fiber True f cb W = Inr W' \<Longrightarrow> keeps th m s W W'"
    using assms by (intro keeps_upd [OF assms(1)])
      (auto simp: reset_fiber_def assert_that_def caller_ok_def split: if_splits)
qed

section \<open>Entering and leaving run\<close>

text \<open>\<open>stop\<close> resumes the scheduler fiber, and the end of its \<open>MainFunc\<close> gives the thread back to \<open>stop\<close>.\<close>

lemma enter_as_pool:
  assumes "caller_ok th m s W" and "flow_of W th = Native th" and "state_of W s = READY"
    and "m_ctx (fibers W s) = StartOf s"
  shows "\<exists>W'. resume True th s W = Inr W' \<and> caller_ok th m s W' \<and> flow_of W' th = OnStack s \<and>
           as_pool th m s rs W' = as_pool th m s rs W"
  using assms
  by (auto simp: resume_def Let_def SetThis_def partner_def swapcontext_def caller_ok_def as_pool_def
      upd_fiber_def upd_tls_def fun_eq_iff)

lemma leave_as_pool:
  assumes "caller_ok th m s W" and "flow_of W th = OnStack s"
  shows "\<exists>W'. main_func_return True th s W = Inr W' \<and> caller_ok th m s W' \<and> flow_of W' th = Native th \<and>
           state_of W' s = TERM_state \<and> as_pool th m s rs W' = as_pool th m s rs W"
  using assms
  by (auto simp: main_func_return_def yield_def Let_def SetThis_def partner_def swapcontext_def caller_ok_def
      as_pool_def upd_fiber_def upd_tls_def fun_eq_iff)

end
