(* ===== verification/Scheduler_Caller.thy ===== *)
theory Scheduler_Caller
  imports Scheduler_Theorems Scheduler_Control Fiber_Caller
begin

text \<open>
  The scheduler as it is constructed by default: the calling thread takes part (\<open>use_caller\<close>). Its
  steps are those of the system of \<open>Scheduler_Steps\<close>, and three of its own: \<open>stop\<close> resumes the
  scheduler fiber, \<open>run\<close> begins on it, and its end gives the thread back to \<open>stop\<close>. Every run of this
  system is one of the pool in which the calling thread is a worker like the others.
\<close>

section \<open>The steps of a scheduler with its calling thread\<close>

definition as_pool_sys :: "nat \<Rightarrow> nat \<Rightarrow> nat \<Rightarrow> fiber \<Rightarrow> 's sys \<Rightarrow> 's sys" where
  "as_pool_sys th m s rs x = x\<lparr>sw := as_pool th m s rs (sw x)\<rparr>"

text \<open>
  \<open>th\<close> is the calling thread, \<open>m\<close> its main fiber, \<open>s\<close> its scheduler fiber. As elsewhere the main
  fiber of a thread is not scheduled. \<open>run\<close> begins on \<open>th\<close> only in \<open>stop\<close>, which resumes the scheduler fiber
  once it has not returned at its first test and its assertion has held: the scheduler is the one of the
  calling thread, so \<open>m_useCaller\<close>, which no constructor sets, has to be true.
\<close>

inductive caller_step ::
  "('a scheduler_scheme \<Rightarrow> 'a scheduler_scheme result) \<Rightarrow> ('a scheduler_scheme \<Rightarrow> bool \<times> 'a scheduler_scheme) \<Rightarrow>
   ('a scheduler_scheme \<Rightarrow> sched_task list \<Rightarrow> 'a scheduler_scheme \<Rightarrow> bool) \<Rightarrow> nat \<Rightarrow> nat \<Rightarrow> nat \<Rightarrow>
   'a scheduler_scheme sys \<Rightarrow> action list \<Rightarrow> 'a scheduler_scheme sys \<Rightarrow> bool"
  for tickle stopping act th m s where
  pool: "sched_step tickle stopping act x as x' \<Longrightarrow> (workers x th = None \<Longrightarrow> workers x' th = None) \<Longrightarrow>
    \<forall>t. Pushed t \<in> set as \<longrightarrow> st_fiber t \<noteq> Some m \<Longrightarrow>
    caller_step tickle stopping act th m s x as x'"
| enter: "workers x th = None \<Longrightarrow> flow_of (sw x) th = Native th \<Longrightarrow> m_schedulerFiber (ss x) = Some s \<Longrightarrow>
    stop_request tickle stopping True (ss x) = Inr (True, a) \<Longrightarrow> stop_resume th a (sw x) = Inr W \<Longrightarrow>
    caller_step tickle stopping act th m s x [] (x\<lparr>ss := a, sw := W\<rparr>)"
| begin_run: "workers x th = None \<Longrightarrow> flow_of (sw x) th = OnStack s \<Longrightarrow>
    card (dom (workers x)) < 2 ^ 64 - 1 \<Longrightarrow> run_prologue junk mem th (ss x) (sw x) = Inr (i, W) \<Longrightarrow>
    caller_step tickle stopping act th m s x []
      (x\<lparr>sw := W, workers := (workers x)(th := Some (i, AtLoop))\<rparr>)"
| leave: "workers x th = Some (i, Ended) \<Longrightarrow> flow_of (sw x) th = OnStack s \<Longrightarrow>
    main_func_return True th s (sw x) = Inr W \<Longrightarrow>
    caller_step tickle stopping act th m s x [] (x\<lparr>sw := W\<rparr>)"

text \<open>A run from the fiber world \<open>W0\<close> the constructor has left.\<close>

inductive caller_run for tickle stopping act th m s s0 W0 where
  start: "caller_run tickle stopping act th m s s0 W0 [] (sys_start s0\<lparr>sw := W0\<rparr>)"
| step: "caller_run tickle stopping act th m s s0 W0 tr x \<Longrightarrow>
    caller_step tickle stopping act th m s x as x' \<Longrightarrow>
    caller_run tickle stopping act th m s s0 W0 (tr @ as) x'"

section \<open>The invariant\<close>

text \<open>Nobody names the scheduler fiber.\<close>

definition unnamed :: "nat \<Rightarrow> 'a scheduler_scheme sys \<Rightarrow> bool" where
  "unnamed s x \<longleftrightarrow>
     (\<forall>t i pc. workers x t = Some (i, pc) \<longrightarrow> s \<notin> owned i pc \<and> s \<notin> mentions pc) \<and>
     (\<forall>t \<in> set (m_tasks (ss x)). st_fiber t \<noteq> Some s)"

definition caller_inv :: "nat \<Rightarrow> nat \<Rightarrow> nat \<Rightarrow> fiber \<Rightarrow> 'a scheduler_scheme sys \<Rightarrow> bool" where
  "caller_inv th m s rs x \<longleftrightarrow>
     sys_inv (as_pool_sys th m s rs x) \<and> caller_ok th m s (sw x) \<and> unnamed s x \<and>
     (\<forall>i pc. workers x th = Some (i, pc) \<longrightarrow> pc \<noteq> Ended \<longrightarrow> flow_of (sw x) th \<noteq> Native th) \<and>
     (workers x th = None \<longrightarrow> flow_of (sw x) th = Native th \<longrightarrow>
        state_of (sw x) s = READY \<and> m_ctx (fibers (sw x) s) = StartOf s)"

lemma as_pool_sys_simps [simp]:
  "ss (as_pool_sys th m s rs x) = ss x" "workers (as_pool_sys th m s rs x) = workers x"
  "mutex_of (as_pool_sys th m s rs x) = mutex_of x"
  "sw (as_pool_sys th m s rs x) = as_pool th m s rs (sw x)"
  "as_pool_sys th m s rs (x\<lparr>ss := a\<rparr>) = (as_pool_sys th m s rs x)\<lparr>ss := a\<rparr>"
  "as_pool_sys th m s rs (x\<lparr>workers := w\<rparr>) = (as_pool_sys th m s rs x)\<lparr>workers := w\<rparr>"
  "as_pool_sys th m s rs (x\<lparr>mutex_of := u\<rparr>) = (as_pool_sys th m s rs x)\<lparr>mutex_of := u\<rparr>"
  "as_pool_sys th m s rs (x\<lparr>sw := W\<rparr>) = (as_pool_sys th m s rs x)\<lparr>sw := as_pool th m s rs W\<rparr>"
  "as_pool_sys th m s rs (goto t pc x) = goto t pc (as_pool_sys th m s rs x)"
  "blocked pc (as_pool_sys th m s rs x) = blocked pc x"
  by (auto simp: as_pool_sys_def goto_def blocked_def split: option.splits worker_pc.splits)

lemma as_pool_sys_same [simp]: "(as_pool_sys th m s rs x)\<lparr>ss := ss x\<rparr> = as_pool_sys th m s rs x"
  by (simp add: as_pool_sys_def)

lemma goto_fields [simp]:
  "ss (goto t pc x) = ss x" "sw (goto t pc x) = sw x" "mutex_of (goto t pc x) = mutex_of x"
  by (simp_all add: goto_def split: option.splits)

lemma unnamed_plain:
  assumes "caller_ok th m s (sw x)" and "plain x f" and "f \<noteq> m"
  shows "plain (as_pool_sys th m s rs x) f"
  using assms by (simp add: plain_def as_pool_task)

lemma caller_task:
  assumes "caller_inv th m s rs x" and "workers x t = Some (i, pc)" and "f \<in> owned i pc \<or> f \<in> mentions pc"
  shows "is_task (as_pool th m s rs (sw x)) f" and "f \<noteq> s" and "f \<noteq> m" and "fibers (as_pool th m s rs (sw x)) f = fibers (sw x) f"
proof -
  have inv: "sys_inv (as_pool_sys th m s rs x)" using assms(1) by (simp add: caller_inv_def)
  have w: "workers (as_pool_sys th m s rs x) t = Some (i, pc)" using assms(2) by simp
  show task: "is_task (as_pool th m s rs (sw x)) f"
    using sys_worker [OF inv w] assms(3) plain_task [of "as_pool_sys th m s rs x" f] by (auto simp: worker_ok_def)
  show s: "f \<noteq> s" using assms by (auto simp: caller_inv_def unnamed_def)
  show "f \<noteq> m" using sys_fw [OF inv] task s by (auto dest: task_plain(1))
  with s show "fibers (as_pool th m s rs (sw x)) f = fibers (sw x) f" by simp
qed

lemma own_flow:
  assumes "caller_inv th m s rs x" and "workers x t = Some (i, pc)" and "pc \<noteq> Ended"
  shows "stack_at t i pc = Native t \<Longrightarrow> t = th \<Longrightarrow> flow_of (sw x) th = OnStack s"
    and "stack_at t i pc = OnStack f \<Longrightarrow> f \<noteq> s \<Longrightarrow> flow_of (sw x) t = OnStack f"
proof -
  have "worker_ok (as_pool_sys th m s rs x) t i pc"
    using assms by (intro sys_worker) (simp_all add: caller_inv_def)
  then have fl: "flow_of (as_pool th m s rs (sw x)) t = stack_at t i pc" by (simp add: worker_ok_def)
  show "stack_at t i pc = Native t \<Longrightarrow> t = th \<Longrightarrow> flow_of (sw x) th = OnStack s"
    using fl assms by (auto simp: as_pool_def caller_inv_def split: if_splits)
  show "stack_at t i pc = OnStack f \<Longrightarrow> f \<noteq> s \<Longrightarrow> flow_of (sw x) t = OnStack f"
    using fl by (simp add: as_pool_flow)
qed

section \<open>Every statement is one of the pool\<close>

lemma keeps_refl: "caller_ok th m s W \<Longrightarrow> keeps th m s W W"
  by (simp add: keeps_def)

text \<open>A statement, executed on the pool's view of the system, does the same there.\<close>

definition agrees ::
  "nat \<Rightarrow> nat \<Rightarrow> nat \<Rightarrow> fiber \<Rightarrow> 'a scheduler_scheme sys \<Rightarrow> 'a scheduler_scheme sys result \<Rightarrow>
   'a scheduler_scheme sys result \<Rightarrow> bool" where
  "agrees th m s rs x r rA \<longleftrightarrow>
     rA = and_then r (\<lambda>x'. Inr (as_pool_sys th m s rs x')) \<and> (\<forall>x'. r = Inr x' \<longrightarrow> keeps th m s (sw x) (sw x'))"

lemma agreesI:
  assumes "caller_ok th m s (sw x)" and "rA = and_then r (\<lambda>x'. Inr (as_pool_sys th m s rs x'))"
    and "\<And>x'. r = Inr x' \<Longrightarrow> sw x' = sw x"
  shows "agrees th m s rs x r rA"
  using assms keeps_refl [OF assms(1)] by (simp add: agrees_def)

lemma caller_world:
  assumes "caller_inv th m s rs x"
  shows "caller_ok th m s (sw x)" and "fw_inv (as_pool th m s rs (sw x))"
  using assms sys_fw [of "as_pool_sys th m s rs x"] by (simp_all add: caller_inv_def)

lemma enter_agrees:
  assumes inv: "caller_inv th m s rs x" and w: "workers x t = Some (i, pc)" and "pc \<noteq> Ended"
    and f: "f \<in> owned i pc \<or> f \<in> mentions pc" and "stack_at t i pc = Native t"
  shows "agrees th m s rs x (and_then (resume True t f (sw x)) (\<lambda>W. Inr (goto t pc' (x\<lparr>sw := W\<rparr>))))
    (and_then (resume True t f (as_pool th m s rs (sw x))) (\<lambda>W. Inr (goto t pc' ((as_pool_sys th m s rs x)\<lparr>sw := W\<rparr>))))"
  using resume_as_pool [OF caller_world [OF inv], where f = f and t = t] caller_task [OF inv w f]
    own_flow(1) [OF inv w assms(3,5)]
  by (cases "resume True t f (sw x)") (auto simp: agrees_def)

lemma leave_agrees:
  assumes inv: "caller_inv th m s rs x" and w: "workers x t = Some (i, pc)" and "pc \<noteq> Ended"
    and "stack_at t i pc = OnStack i" and "\<And>b. m_runInScheduler (upd b) = m_runInScheduler b"
    and "state_of (sw x) i = RUNNING \<Longrightarrow> m_state (upd (fibers (sw x) i)) \<noteq> READY"
  shows "agrees th m s rs x (and_then (yield True t i (upd_fiber i upd (sw x))) (\<lambda>W. Inr (goto t pc' (x\<lparr>ss := a, sw := W\<rparr>))))
    (and_then (yield True t i (upd_fiber i upd (as_pool th m s rs (sw x))))
      (\<lambda>W. Inr (goto t pc' ((as_pool_sys th m s rs x)\<lparr>ss := a, sw := W\<rparr>))))"
  using yield_as_pool [OF caller_world [OF inv] own_flow(2) [OF inv w assms(3,4)] _ assms(5,6)]
    caller_task(2) [OF inv w, of i]
  by (auto simp: agrees_def)

lemma chosen_agrees:
  assumes inv: "caller_inv th m s rs x" and w: "workers x t = Some (i, Chosen tk)"
  shows "agrees th m s rs x (run_stmt tickle stopping stale mem t i (Chosen tk) x)
    (run_stmt tickle stopping stale mem t i (Chosen tk) (as_pool_sys th m s rs x))"
proof (cases "st_fiber tk = None \<and> st_cb tk \<noteq> None")
  case True
  note nf = new_fiber_as_pool [OF caller_world(1) [OF inv], where cb = "st_cb tk" and sz = 0 and r = True and mem = mem]
  with True show ?thesis
    by (cases "new_fiber (st_cb tk) 0 True mem True (sw x)") (auto simp: agrees_def case_prod_beta)
next
  case False
  have "fibers (as_pool th m s rs (sw x)) i = fibers (sw x) i" using caller_task(4) [OF inv w, of i] by simp
  with False show ?thesis
    by (intro agreesI [OF caller_world(1) [OF inv]]) (auto split: option.splits if_splits)
qed

lemma stmt_agrees:
  assumes inv: "caller_inv th m s rs x" and w: "workers x t = Some (i, pc)"
    and pc: "pc \<noteq> Ended" "\<forall>f. pc \<noteq> Inside f"
  shows "agrees th m s rs x (run_stmt tickle stopping stale mem t i pc x)
    (run_stmt tickle stopping stale mem t i pc (as_pool_sys th m s rs x))"
proof -
  note same = agreesI [OF caller_world(1) [OF inv]]
  show ?thesis
  proof (cases pc)
    case AtLoop
    then show ?thesis by (cases "run_take stale (GetThreadID t) (ss x)") (auto simp: case_prod_beta intro!: same)
  next
    case (Picked tm tk)
    then show ?thesis by (cases "tickle (ss x)") (auto intro!: same)
  next
    case (Chosen tk)
    with chosen_agrees [OF inv] w show ?thesis by simp
  next
    case (Locked f)
    from Locked have "fibers (as_pool th m s rs (sw x)) f = fibers (sw x) f" using caller_task(4) [OF inv w, of f] by simp
    with Locked enter_agrees [OF inv w pc(1), of f] show ?thesis by (auto intro!: same)
  next
    case (FreshLocked f)
    with enter_agrees [OF inv w pc(1), of f] show ?thesis by simp
  next
    case IdleEnter
    with enter_agrees [OF inv w pc(1), of i] show ?thesis by simp
  next
    case IdleCheck
    note leave = leave_agrees [OF inv w pc(1), of "\<lambda>b. b\<lparr>fb_cb := None, m_state := TERM_state\<rparr>"]
    show ?thesis
    proof (cases "fst (stopping (ss x))")
      case True
      with leave IdleCheck show ?thesis by (simp add: case_prod_beta main_func_return_def)
    next
      case False
      with IdleCheck show ?thesis by (auto simp: case_prod_beta intro!: same)
    qed
  next
    case IdleWork
    with leave_agrees [OF inv w pc(1), of "\<lambda>b. b" _ "ss x"] show ?thesis by simp
  qed (use pc in \<open>auto intro!: same\<close>)
qed

lemma stmt_as_pool:
  assumes "caller_inv th m s rs x" and "workers x t = Some (i, pc)" and "pc \<noteq> Ended" and "\<forall>f. pc \<noteq> Inside f"
    and "run_stmt tickle stopping stale mem t i pc x = Inr x'"
  shows "run_stmt tickle stopping stale mem t i pc (as_pool_sys th m s rs x) = Inr (as_pool_sys th m s rs x')"
    and "keeps th m s (sw x) (sw x')"
  using stmt_agrees [OF assms(1-4), of tickle stopping stale mem] assms(5) by (simp_all add: agrees_def)

lemma prologue_as_pool:
  assumes ok: "caller_ok th m s W"
  shows "run_prologue junk mem t a (as_pool th m s rs W) =
      and_then (run_prologue junk mem t a W) (\<lambda>(i, W'). Inr (i, as_pool th m s rs W'))"
    and "run_prologue junk mem t a W = Inr (i, W') \<Longrightarrow>
      keeps th m s W W' \<and> i \<noteq> s \<and> \<not> is_task (as_pool th m s rs W) i"
proof -
  let ?get = "\<lambda>W. if GetThreadID t \<noteq> m_rootThread a
    then and_then (Fiber.GetThis True junk t W) (\<lambda>(_, W1). Inr W1) else Inr W"
  have get: "?get (as_pool th m s rs W) = and_then (?get W) (\<lambda>W1. Inr (as_pool th m s rs W1))"
    using GetThis_as_pool(1) [OF ok, of junk t rs] by (cases "Fiber.GetThis True junk t W") (auto simp: case_prod_beta)
  have keep: "keeps th m s W W1 \<and> next_fiber W \<le> next_fiber W1" if "?get W = Inr W1" for W1
    using that GetThis_as_pool(2) [OF ok, of junk t] keeps_refl [OF ok]
    by (auto simp: result_simps GetThis_def new_main_fiber_def Let_def SetThis_def
        split: if_splits option.splits)
  show "run_prologue junk mem t a (as_pool th m s rs W) =
      and_then (run_prologue junk mem t a W) (\<lambda>(i, W'). Inr (i, as_pool th m s rs W'))"
  proof (cases "?get W")
    case (Inr W1)
    then have "caller_ok th m s W1" using keep by (simp add: keeps_def)
    with Inr get show ?thesis by (simp add: run_prologue_def new_fiber_as_pool(1))
  qed (use get in \<open>simp add: run_prologue_def\<close>)
  assume "run_prologue junk mem t a W = Inr (i, W')"
  then obtain W1 where W1: "?get W = Inr W1" and i: "new_fiber (Some BoundIdle) 0 True mem True W1 = Inr (i, W')"
    by (auto simp: run_prologue_def result_simps)
  have k: "keeps th m s W W1" "caller_ok th m s W1" "next_fiber W \<le> next_fiber W1"
    using keep [OF W1] by (simp_all add: keeps_def)
  have "i = next_fiber W1" using i by (auto simp: new_fiber_Inr)
  with k new_fiber_as_pool(2) [OF k(2) i] ok
  show "keeps th m s W W' \<and> i \<noteq> s \<and> \<not> is_task (as_pool th m s rs W) i"
    by (auto simp: keeps_def caller_ok_def is_task_def)
qed

lemma caller_plain:
  assumes "caller_inv th m s rs x" and "plain x f"
  shows "f \<noteq> s" and "f \<noteq> m \<Longrightarrow> plain (as_pool_sys th m s rs x) f"
  using assms unnamed_plain [of th m s x f rs] by (auto simp: caller_inv_def plain_def is_task_def caller_ok_def)

section \<open>The simulation\<close>

context virtual_ops
begin

lemma unnamed_push:
  assumes "unnamed s x" and "workers x' = workers x" and "m_tasks (ss x') = m_tasks (ss x) @ ts"
    and "\<forall>t \<in> set ts. st_fiber t \<noteq> Some s"
  shows "unnamed s x'"
  using assms by (auto simp: unnamed_def)

lemma unnamed_moves:
  assumes "unnamed s x" and "worker_moves t i pc pc' V V'" and "is_task (sw V) s"
    and "workers V = workers x" and "m_tasks (ss V) = m_tasks (ss x)"
  shows "unnamed s V'"
proof -
  have w: "workers x t = Some (i, pc)" "workers V' = (workers x)(t := Some (i, pc'))"
    using assms(2,4) by (simp_all add: worker_moves_def)
  have old: "s \<notin> owned i pc" "s \<notin> mentions pc" "\<forall>t \<in> set (m_tasks (ss x)). st_fiber t \<noteq> Some s"
    using assms(1) w(1) by (auto simp: unnamed_def)
  then have "s \<notin> owned i pc'" "s \<notin> mentions pc'" "set (m_tasks (ss V')) \<subseteq> set (m_tasks (ss x))"
    using assms(2,3,5) by (auto simp: worker_moves_def)
  with assms(1) w show ?thesis by (auto simp: unnamed_def)
qed

text \<open>A worker's statement, and the two ways a function gives up its fiber.\<close>

lemma move_as_pool:
  assumes inv: "caller_inv th m s rs x" and mv: "worker_moves t i pc pc' (as_pool_sys th m s rs x) (as_pool_sys th m s rs x')"
    and k: "keeps th m s (sw x) (sw x')" and "pc \<noteq> Ended"
  shows "caller_inv th m s rs x'"
proof -
  have s: "is_task (as_pool th m s rs (sw x)) s" using inv by (simp add: caller_inv_def as_pool_task)
  have "unnamed s (as_pool_sys th m s rs x')"
    using inv unnamed_moves [OF _ mv, of s x] s by (simp add: caller_inv_def)
  then have "unnamed s x'" by (simp add: unnamed_def)
  moreover have "workers x t = Some (i, pc)" "workers x' = (workers x)(t := Some (i, pc'))"
    using mv by (simp_all add: worker_moves_def)
  ultimately show ?thesis
    using inv k sys_inv_moves [OF _ mv] assms(4) by (auto simp: caller_inv_def keeps_def split: if_splits)
qed

lemma env_as_pool:
  assumes inv: "caller_inv th m s rs x"
    and step: "sched_step tickle stopping act (as_pool_sys th m s rs x) as (as_pool_sys th m s rs x')"
    and "workers x' = workers x" and "keeps th m s (sw x) (sw x')"
    and "m_tasks (ss x') = m_tasks (ss x) @ ts" and "\<forall>t \<in> set ts. st_fiber t \<noteq> Some s"
  shows "sched_step tickle stopping act (as_pool_sys th m s rs x) as (as_pool_sys th m s rs x') \<and>
         caller_inv th m s rs x'"
  using assms unnamed_push [of s x x' ts] step_inv [OF step] by (auto simp: caller_inv_def keeps_def)

lemma inside_as_pool:
  assumes inv: "caller_inv th m s rs x" and w: "workers x t = Some (i, Inside f)"
    and upd: "\<And>b. m_runInScheduler (upd b) = m_runInScheduler b"
      "state_of (sw x) f = RUNNING \<Longrightarrow> m_state (upd (fibers (sw x) f)) \<noteq> READY"
    and r: "yield True t f (upd_fiber f upd (sw x)) = Inr W"
  shows "yield True t f (upd_fiber f upd (as_pool th m s rs (sw x))) = Inr (as_pool th m s rs W)"
    and "keeps th m s (sw x) W"
proof -
  have ok: "caller_ok th m s (sw x)" and fw: "fw_inv (as_pool th m s rs (sw x))"
    using inv sys_fw [of "as_pool_sys th m s rs x"] by (simp_all add: caller_inv_def)
  have "f \<noteq> s" using caller_task(2) [OF inv w, of f] by simp
  with own_flow(2) [OF inv w, of f] have "flow_of (sw x) t = OnStack f" by simp
  from yield_as_pool [OF ok fw this \<open>f \<noteq> s\<close> upd] r
  show "yield True t f (upd_fiber f upd (as_pool th m s rs (sw x))) = Inr (as_pool th m s rs W)"
    "keeps th m s (sw x) W" by auto
qed

lemma leave_inside:
  assumes inv: "caller_inv th m s rs x" and w: "workers x t = Some (i, Inside f)"
    and r: "yield True t f (sw x) = Inr W \<or> main_func_return True t f (sw x) = Inr W"
  shows "sched_step tickle stopping act (as_pool_sys th m s rs x) []
           (as_pool_sys th m s rs (goto t (Returned f) (x\<lparr>sw := W\<rparr>))) \<and>
         caller_inv th m s rs (goto t (Returned f) (x\<lparr>sw := W\<rparr>))"
proof -
  let ?A = "as_pool_sys th m s rs" let ?x = "goto t (Returned f) (x\<lparr>sw := W\<rparr>)"
  have sinv: "sys_inv (?A x)" using inv by (simp add: caller_inv_def)
  have wA: "workers (?A x) t = Some (i, Inside f)" using w by simp
  let ?fin = "\<lambda>b. b\<lparr>fb_cb := None, m_state := TERM_state\<rparr>"
  have V: "yield True t f (as_pool th m s rs (sw x)) = Inr (as_pool th m s rs W) \<or>
      main_func_return True t f (as_pool th m s rs (sw x)) = Inr (as_pool th m s rs W)"
    and k: "keeps th m s (sw x) W"
    using r inside_as_pool [OF inv w, of "\<lambda>b. b"] inside_as_pool [OF inv w, of ?fin]
    by (auto simp: main_func_return_def)
  then have "worker_moves t i (Inside f) (Returned f) (?A x) (?A ?x)"
    using inside_leaves [OF sinv wA, of "as_pool th m s rs W"] by simp
  moreover have "sched_step tickle stopping act (?A x) [] (?A ?x)"
    using V sched_step.fiber_yield [OF wA] sched_step.fiber_end [OF wA] by auto
  ultimately show ?thesis using move_as_pool [OF inv] k by simp
qed

lemma spawn_as_pool:
  assumes inv: "caller_inv th m s rs x" and w: "workers x t = None"
    and n: "card (dom (workers x)) < 2 ^ 64 - 1" and r: "run_prologue junk mem t (ss x) (sw x) = Inr (i, W)"
    and native: "flow_of (sw x) t = (if t = th then OnStack s else Native t)"
  shows "sched_step tickle stopping act (as_pool_sys th m s rs x) []
           (as_pool_sys th m s rs (x\<lparr>sw := W, workers := (workers x)(t := Some (i, AtLoop))\<rparr>)) \<and>
         caller_inv th m s rs (x\<lparr>sw := W, workers := (workers x)(t := Some (i, AtLoop))\<rparr>)"
proof -
  let ?A = "as_pool_sys th m s rs" let ?x = "x\<lparr>sw := W, workers := (workers x)(t := Some (i, AtLoop))\<rparr>"
  have ok: "caller_ok th m s (sw x)" using inv by (simp add: caller_inv_def)
  note pro = prologue_as_pool(2) [OF ok r]
  have V: "run_prologue junk mem t (ss x) (as_pool th m s rs (sw x)) = Inr (i, as_pool th m s rs W)"
    by (simp add: prologue_as_pool(1) [OF ok] r)
  have "flow_of (as_pool th m s rs (sw x)) t = Native t"
    using native by (auto simp: as_pool_def)
  then have step: "sched_step tickle stopping act (?A x) [] (?A ?x)"
    using sched_step.spawn [of "?A x" t] w n V by simp
  moreover have "unnamed s ?x" using inv pro by (auto simp: caller_inv_def unnamed_def)
  ultimately show ?thesis
    using step_inv [OF step] inv pro native by (auto simp: caller_inv_def keeps_def split: if_splits)
qed

text \<open>What happens outside the workers.\<close>

lemma operation_as_pool:
  assumes inv: "caller_inv th m s rs x" and a: "act (ss x) ts a"
    and f: "\<forall>u \<in> set ts. \<forall>f. st_fiber u = Some f \<longrightarrow> plain x f \<and> f \<noteq> m"
  shows "sched_step tickle stopping act (as_pool_sys th m s rs x) (map Pushed ts) (as_pool_sys th m s rs (x\<lparr>ss := a\<rparr>)) \<and>
    caller_inv th m s rs (x\<lparr>ss := a\<rparr>)"
proof -
  have f': "f \<noteq> s \<and> plain (as_pool_sys th m s rs x) f" if "u \<in> set ts" "st_fiber u = Some f" for u f
    using f that caller_plain [OF inv, of f] by auto
  have "sched_step tickle stopping act (as_pool_sys th m s rs x) (map Pushed ts) (as_pool_sys th m s rs (x\<lparr>ss := a\<rparr>))"
    using a sched_step.operation [of act "as_pool_sys th m s rs x" ts a] f' by simp
  from env_as_pool [OF inv this, of ts] show ?thesis
    using keeps_refl [OF caller_world(1) [OF inv]] f' truncate_updD [OF conjunct1 [OF act_keeps [OF a]]] by auto
qed

lemma schedule_as_pool:
  assumes inv: "caller_inv th m s rs x" and a: "scheduleLock tickle fc k (ss x) = Inr a"
    and f: "\<forall>f. st_fiber (ScheduleTask fc k) = Some f \<longrightarrow> plain x f \<and> f \<noteq> m"
  shows "sched_step tickle stopping act (as_pool_sys th m s rs x)
      (if has_work (ScheduleTask fc k) then [Pushed (ScheduleTask fc k)] else []) (as_pool_sys th m s rs (x\<lparr>ss := a\<rparr>)) \<and>
    caller_inv th m s rs (x\<lparr>ss := a\<rparr>)"
proof -
  let ?task = "ScheduleTask fc k" let ?x = "x\<lparr>ss := a\<rparr>"
  have f': "f \<noteq> s \<and> plain (as_pool_sys th m s rs x) f" if "st_fiber ?task = Some f" for f
    using f that caller_plain [OF inv, of f] by auto
  have step: "sched_step tickle stopping act (as_pool_sys th m s rs x)
      (if has_work ?task then [Pushed ?task] else []) (as_pool_sys th m s rs ?x)"
    using a sched_step.schedule [of ?task fc k "as_pool_sys th m s rs x"] f' by simp
  have "m_tasks (ss ?x) = m_tasks (ss x) @ (if has_work ?task then [?task] else [])"
    using truncate_updD [OF schedule_keeps [OF a]] by simp
  moreover have "st_fiber ?task \<noteq> Some s" using f' by blast
  ultimately show ?thesis
    using env_as_pool [OF inv step] keeps_refl [OF caller_world(1) [OF inv]] by simp
qed

lemma stop_as_pool:
  assumes inv: "caller_inv th m s rs x" and a: "stop_request tickle stopping own (ss x) = Inr (b, a)"
  shows "sched_step tickle stopping act (as_pool_sys th m s rs x) [] (as_pool_sys th m s rs (x\<lparr>ss := a\<rparr>)) \<and>
    caller_inv th m s rs (x\<lparr>ss := a\<rparr>)"
proof -
  have "sched_step tickle stopping act (as_pool_sys th m s rs x) [] (as_pool_sys th m s rs (x\<lparr>ss := a\<rparr>))"
    using a sched_step.stop [where x = "as_pool_sys th m s rs x" and own = own] by simp
  moreover have "m_tasks a = m_tasks (ss x)"
    using stop_keeps [OF a] by (simp add: scheduler.truncate_def split: if_splits)
  ultimately show ?thesis
    using env_as_pool [OF inv, where ts = "[]" and x' = "x\<lparr>ss := a\<rparr>"] keeps_refl [OF caller_world(1) [OF inv]] by simp
qed

lemma reset_as_pool_sys:
  assumes inv: "caller_inv th m s rs x" and "plain x f" and r: "reset_fiber True f cb (sw x) = Inr W"
  shows "reset_fiber True f cb (as_pool th m s rs (sw x)) = Inr (as_pool th m s rs W)" and "keeps th m s (sw x) W"
    and "plain (as_pool_sys th m s rs x) f"
proof -
  note ok = caller_world [OF inv]
  have "f \<noteq> m"
  proof
    assume "f = m"
    have "state_of (as_pool th m s rs (sw x)) m = RUNNING"
      using fw_inv_thread [OF ok(2), of th] by (simp add: thread_ok_def)
    then have "state_of (sw x) m = RUNNING" using ok by (simp add: as_pool_def caller_ok_def)
    with r \<open>f = m\<close> show False by (simp add: reset_fiber_def assert_that_def split: if_splits)
  qed
  note f = caller_plain [OF inv assms(2)]
  show "reset_fiber True f cb (as_pool th m s rs (sw x)) = Inr (as_pool th m s rs W)"
    by (simp add: reset_as_pool(1) [OF ok(1) \<open>f \<noteq> m\<close> f(1)] r)
  show "keeps th m s (sw x) W" by (rule reset_as_pool(2) [OF ok(1) \<open>f \<noteq> m\<close> f(1) r])
  show "plain (as_pool_sys th m s rs x) f" by (rule f(2) [OF \<open>f \<noteq> m\<close>])
qed

lemma fiber_as_pool:
  assumes inv: "caller_inv th m s rs x" and "keeps th m s (sw x) W"
    and "sched_step tickle stopping act (as_pool_sys th m s rs x) [] (as_pool_sys th m s rs (x\<lparr>sw := W\<rparr>))"
  shows "sched_step tickle stopping act (as_pool_sys th m s rs x) [] (as_pool_sys th m s rs (x\<lparr>sw := W\<rparr>)) \<and>
    caller_inv th m s rs (x\<lparr>sw := W\<rparr>)"
  using env_as_pool [OF inv assms(3), of "[]"] assms(2) by simp

lemma caller_step_pool:
  assumes step: "sched_step tickle stopping act x as x'" and inv: "caller_inv th m s rs x"
    and th: "workers x th = None \<Longrightarrow> workers x' th = None" and pm: "\<forall>t. Pushed t \<in> set as \<longrightarrow> st_fiber t \<noteq> Some m"
  shows "sched_step tickle stopping act (as_pool_sys th m s rs x) as (as_pool_sys th m s rs x') \<and>
         caller_inv th m s rs x'"
  using step
proof (cases rule: sched_step.cases)
  note ok = caller_world(1) [OF inv]
  case (spawn t junk mem i W)
  then have "t \<noteq> th" using th by auto
  with spawn spawn_as_pool [OF inv spawn(3,5,6)] show ?thesis by simp
next
  case (stmt t i pc stale mem)
  have sinv: "sys_inv (as_pool_sys th m s rs x)" using inv by (simp add: caller_inv_def)
  note st = stmt_as_pool [OF inv stmt(2,3,4,6)]
  from stmt_moves [OF sinv _ stmt(3,4) _ st(1)] obtain pc'
    where "worker_moves t i pc pc' (as_pool_sys th m s rs x) (as_pool_sys th m s rs x')" using stmt by auto
  from move_as_pool [OF inv this st(2) stmt(3)] show ?thesis
    using sched_step.stmt [OF _ stmt(3,4) _ st(1)] stmt by auto
next
  case (fiber_yield t i f W)
  with leave_inside [OF inv fiber_yield(3)] show ?thesis by simp
next
  case (fiber_end t i f W)
  with leave_inside [OF inv fiber_end(3)] show ?thesis by simp
next
  case (operation ts a)
  with pm operation_as_pool [OF inv operation(3)] show ?thesis by auto
next
  case (schedule task fc k a)
  with pm schedule_as_pool [OF inv schedule(5)] show ?thesis by (auto simp: has_work_def split: if_splits)
next
  case (stop own b a)
  with stop_as_pool [OF inv stop(3)] show ?thesis by simp
next
  case (attach t junk f W)
  obtain g where "Fiber.GetThis True junk t (as_pool th m s rs (sw x)) = Inr (g, as_pool th m s rs W)"
    using GetThis_as_pool(1) [OF caller_world(1) [OF inv], of junk t rs] attach(4) by (auto simp: result_simps)
  with attach sched_step.attach [of "as_pool_sys th m s rs x" t]
  show ?thesis by (simp add: fiber_as_pool [OF inv GetThis_as_pool(2) [OF caller_world(1) [OF inv] attach(4)]])
next
  case (create cb sz mem f W)
  note new = new_fiber_as_pool [OF caller_world(1) [OF inv]]
  from create sched_step.create [of cb sz mem "as_pool_sys th m s rs x"]
  show ?thesis by (simp add: new(1) fiber_as_pool [OF inv new(2) [OF create(3)]])
next
  case (reset f cb W)
  note rs = reset_as_pool_sys [OF inv reset(3,4)]
  from reset rs(1,3) sched_step.reset [of "as_pool_sys th m s rs x" f cb]
  show ?thesis by (simp add: fiber_as_pool [OF inv rs(2)])
qed

lemma caller_step_sim:
  assumes step: "caller_step tickle stopping act th m s x as x'" and inv: "caller_inv th m s rs x"
  shows "(sched_step tickle stopping act (as_pool_sys th m s rs x) as (as_pool_sys th m s rs x') \<or>
           as = [] \<and> as_pool_sys th m s rs x' = as_pool_sys th m s rs x) \<and>
         caller_inv th m s rs x'"
  using step
proof (cases rule: caller_step.cases)
  case pool
  with caller_step_pool [OF pool(1) inv] show ?thesis by blast
next
  case (enter a W)
  let ?y = "x\<lparr>ss := a\<rparr>"
  from stop_as_pool [OF inv enter(6)]
  have stop: "sched_step tickle stopping act (as_pool_sys th m s rs x) [] (as_pool_sys th m s rs ?y)"
    and y: "caller_inv th m s rs ?y" by blast+
  have "caller_ok th m s (sw x)" "state_of (sw x) s = READY" "m_ctx (fibers (sw x) s) = StartOf s"
    using inv enter by (simp_all add: caller_inv_def)
  moreover have "m_schedulerFiber a = Some s" using env_keeps_members(5) [OF enter(6)] enter(5) by simp
  ultimately have W: "caller_ok th m s W" "flow_of W th = OnStack s" "as_pool th m s rs W = as_pool th m s rs (sw x)"
    using enter_as_pool [of th m s "sw x" rs] enter(4,7) by (auto simp: stop_resume_def)
  have x': "x' = ?y\<lparr>sw := W\<rparr>" using enter(2) by simp
  then have same: "as_pool_sys th m s rs x' = as_pool_sys th m s rs ?y"
    using W(3) by (simp add: as_pool_sys_def)
  with y have "sys_inv (as_pool_sys th m s rs x')" by (simp add: caller_inv_def)
  then have "caller_inv th m s rs x'" using y enter W x' by (simp add: caller_inv_def unnamed_def)
  with stop same enter(1) show ?thesis by simp
next
  case (begin_run junk mem i W)
  with spawn_as_pool [OF inv begin_run(3,5,6)] show ?thesis by simp
next
  case (leave i W)
  have "caller_ok th m s (sw x)" using inv by (simp add: caller_inv_def)
  from leave_as_pool [OF this leave(4), of rs] leave
  have W: "caller_ok th m s W" "as_pool th m s rs W = as_pool th m s rs (sw x)" by auto
  have "as_pool_sys th m s rs x' = as_pool_sys th m s rs x" using leave W by (simp add: as_pool_sys_def)
  moreover from this inv have "sys_inv (as_pool_sys th m s rs x')" by (simp add: caller_inv_def)
  then have "caller_inv th m s rs x'" using inv leave W by (simp add: caller_inv_def unnamed_def)
  ultimately show ?thesis using leave by simp
qed

end

section \<open>The start\<close>

text \<open>
  The constructor with \<open>use_caller\<close>, on a thread that has no fibers: its main fiber is 0, the
  scheduler fiber 1. \<open>W0\<close> is the fiber world it leaves.
\<close>

definition pool_fiber :: "fiber_world \<Rightarrow> fiber" where
  "pool_fiber W0 = (fibers W0 1)\<lparr>m_runInScheduler := True\<rparr>"

lemma construct_caller:
  assumes "Scheduler_construct junk junk2 mem self th threads True name R = Inr (sc, R')"
    and "rt_fibers R = init_world" and "rt_fibers R' = W0"
  shows "m_schedulerFiber sc = Some 1" and "caller_ok th 0 1 W0" and "flow_of W0 = Native"
    and "state_of W0 1 = READY" and "m_ctx (fibers W0 1) = StartOf 1"
    and "\<exists>W1. Fiber.GetThis True junk2 th init_world = Inr (0, W1) \<and>
           new_fiber (Some BoundRun) 0 True mem True W1 = Inr (1, as_pool th 0 1 (pool_fiber W0) W0)"
  using assms
  by (auto simp: Scheduler_construct_def Let_def result_simps GetThis_def new_main_fiber_def new_fiber_def
      init_world_def SetThis_def SetSchedulerFiber_def caller_ok_def as_pool_def pool_fiber_def
      upd_fiber_def upd_tls_def fun_eq_iff split: if_splits option.splits)

context virtual_ops
begin

lemma caller_start:
  assumes "Scheduler_construct junk junk2 mem self th threads True name R = Inr (sc, R')"
    and "rt_fibers R = init_world" and "rt_fibers R' = W0" and fresh: "sched_fresh s0"
  defines "x0 \<equiv> sys_start s0\<lparr>sw := W0\<rparr>"
  shows "sched_run tickle stopping act s0 [] (as_pool_sys th 0 1 (pool_fiber W0) x0) \<and>
         caller_inv th 0 1 (pool_fiber W0) x0"
proof -
  note c = construct_caller [OF assms(1-3)]
  from c(6) obtain W1 where W1: "Fiber.GetThis True junk2 th init_world = Inr (0, W1)"
    "new_fiber (Some BoundRun) 0 True mem True W1 = Inr (1, as_pool th 0 1 (pool_fiber W0) W0)" by blast
  have "sched_run tickle stopping act s0 [] (sys_start s0)" by (rule sched_run.start)
  from sched_run.step [OF this sched_step.attach [of _ th junk2 0 W1]] W1(1)
  have "sched_run tickle stopping act s0 [] (sys_start s0\<lparr>sw := W1\<rparr>)" by (simp add: sys_start_def)
  from sched_run.step [OF this sched_step.create [of "Some BoundRun" 0 mem _ 1]] W1(2)
  have run: "sched_run tickle stopping act s0 [] (as_pool_sys th 0 1 (pool_fiber W0) x0)"
    by (simp add: x0_def sys_start_def as_pool_sys_def)
  from run_inv [OF run fresh] c(2-5) fresh
  have "caller_inv th 0 1 (pool_fiber W0) x0"
    by (auto simp: caller_inv_def unnamed_def x0_def sys_start_def sched_fresh_def)
  with run show ?thesis by blast
qed

lemma caller_run_pool:
  assumes "Scheduler_construct junk junk2 mem self th threads True name R = Inr (sc, R')"
    and "rt_fibers R = init_world" and "rt_fibers R' = W0" and fresh: "sched_fresh s0"
    and "caller_run tickle stopping act th 0 1 s0 W0 tr x"
  shows "sched_run tickle stopping act s0 tr (as_pool_sys th 0 1 (pool_fiber W0) x) \<and>
         caller_inv th 0 1 (pool_fiber W0) x"
  using assms(5)
proof (induction rule: caller_run.induct)
  case start
  show ?case using caller_start [OF assms(1-4)] .
next
  case (step tr x as x')
  then have "caller_inv th 0 1 (pool_fiber W0) x" by blast
  from caller_step_sim [OF step.hyps(2) this] step.IH sched_run.step [of tickle stopping act s0 tr]
  show ?case by (auto simp del: as_pool_sys_simps)
qed

text \<open>So a statement of any worker of the system succeeds, as do those of the calling thread around \<open>run\<close>.\<close>

lemma caller_no_abort:
  assumes inv: "caller_inv th m s rs x" and w: "workers x t = Some (i, pc)" and mem: "mem \<noteq> None"
  shows "(\<exists>x'. run_stmt tickle stopping stale mem t i pc x = Inr x') \<and>
         (\<forall>f. pc = Inside f \<longrightarrow> (\<exists>W. yield True t f (sw x) = Inr W) \<and>
            (\<exists>W. main_func_return True t f (sw x) = Inr W))"
proof (cases "pc = Ended \<or> (\<exists>f. pc = Inside f)")
  case False
  have "sys_inv (as_pool_sys th m s rs x)" using inv by (simp add: caller_inv_def)
  from no_abort [OF this _ mem, of t i pc stale] w obtain V where
    "run_stmt tickle stopping stale mem t i pc (as_pool_sys th m s rs x) = Inr V" by auto
  with stmt_agrees [OF inv w, of tickle stopping stale mem, unfolded agrees_def] False
  have "\<exists>x'. run_stmt tickle stopping stale mem t i pc x = Inr x'"
    by (cases "run_stmt tickle stopping stale mem t i pc x") auto
  with False show ?thesis by blast
next
  case True
  show ?thesis
  proof (cases pc)
    case (Inside f)
    have ok: "caller_ok th m s (sw x)" and fw: "fw_inv (as_pool th m s rs (sw x))"
      using inv sys_fw [of "as_pool_sys th m s rs x"] by (simp_all add: caller_inv_def)
    have f: "f \<noteq> s" using caller_task(2) [OF inv w, of f] Inside by simp
    have fl: "flow_of (sw x) t = OnStack f" using own_flow(2) [OF inv w, of f] f Inside by simp
    have "upd_fiber f (\<lambda>b. b) W = W" for W by (simp add: upd_fiber_def)
    with yield_as_pool [OF ok fw fl f, of "\<lambda>b. b"]
      yield_as_pool [OF ok fw fl f, of "\<lambda>b. b\<lparr>fb_cb := None, m_state := TERM_state\<rparr>"] Inside
    show ?thesis by (auto simp: main_func_return_def)
  qed (use True in auto)
qed

text \<open>
  \<open>stop\<close> by the calling thread: it returns at once if \<open>stopping()\<close> holds, otherwise its assertion on
  \<open>m_useCaller\<close> decides whether it enters \<open>run\<close>.
\<close>

lemma stop_by_caller:
  assumes inv: "caller_inv th m s rs x" and "workers x th = None" and "flow_of (sw x) th = Native th"
    and sf: "m_schedulerFiber (ss x) = Some s"
  shows "if fst (stopping (ss x)) then \<exists>a. stop_request tickle stopping True (ss x) = Inr (False, a)
    else if \<not> m_useCaller (ss x) then stop_request tickle stopping True (ss x) = Inl AssertionFailed
    else \<exists>a W. stop_request tickle stopping True (ss x) = Inr (True, a) \<and> m_stopping a \<and>
      stop_resume th a (sw x) = Inr W \<and> flow_of W th = OnStack s \<and>
      caller_step tickle stopping act th m s x [] (x\<lparr>ss := a, sw := W\<rparr>)"
proof -
  obtain q s0 where q: "stopping (ss x) = (q, s0)" by (cases "stopping (ss x)")
  have tickles: "\<exists>s'. tickles tickle n u = Inr s'" for n u
  proof (induction n arbitrary: u)
    case (Suc n)
    with tickle_total [of u] show ?case by auto
  qed simp
  have use: "m_useCaller s0 = m_useCaller (ss x)" using env_keeps_members(2) [OF q] by simp
  show ?thesis
  proof (cases "q \<or> \<not> m_useCaller (ss x)")
    case True
    then show ?thesis using q use by (auto simp: stop_request_def Let_def assert_that_def)
  next
    case False
    obtain s2 where s2: "tickles tickle (unat (m_threadCount s0)) (s0\<lparr>m_stopping := True\<rparr>) = Inr s2"
      using tickles by blast
    obtain a where "stop_request tickle stopping True (ss x) = Inr (True, a)"
      using False q use s2 tickle_total [of s2]
      by (cases "m_schedulerFiber s2") (auto simp: stop_request_def Let_def assert_that_def)
    moreover from this have "m_stopping a" "m_schedulerFiber a = Some s"
      using stop_keeps [of True "ss x" True a] env_keeps_members(5) [of True "ss x" True a] sf
      by (auto simp: scheduler.truncate_def)
    moreover obtain W where "resume True th s (sw x) = Inr W" "flow_of W th = OnStack s"
      using enter_as_pool [of th m s "sw x" rs] inv assms(2,3) by (auto simp: caller_inv_def)
    ultimately have r: "stop_request tickle stopping True (ss x) = Inr (True, a) \<and> m_stopping a \<and>
        stop_resume th a (sw x) = Inr W \<and> flow_of W th = OnStack s" by (simp add: stop_resume_def)
    with caller_step.enter [OF assms(2,3) sf, of tickle stopping a W act] False q show ?thesis by auto
  qed
qed

lemma caller_all:
  assumes c: "Scheduler_construct junk junk2 mem self th threads True name R = Inr (sc, R')"
    and R: "rt_fibers R = init_world" and fresh: "sched_fresh s0" and sf: "m_schedulerFiber s0 = Some 1"
    and run: "caller_run tickle stopping act th 0 1 s0 (rt_fibers R') tr x"
  shows "(\<exists>V. sched_run tickle stopping act s0 tr V \<and>
            ss V = ss x \<and> workers V = workers x \<and> mutex_of V = mutex_of x) \<and>
         (\<forall>t i pc stale mem'. workers x t = Some (i, pc) \<longrightarrow>
            mem' \<noteq> None \<longrightarrow> (\<exists>x'. run_stmt tickle stopping stale mem' t i pc x = Inr x')) \<and>
         (workers x th = None \<and> flow_of (sw x) th = Native th \<longrightarrow>
            (if fst (stopping (ss x)) then \<exists>a. stop_request tickle stopping True (ss x) = Inr (False, a)
             else if \<not> m_useCaller s0 then stop_request tickle stopping True (ss x) = Inl AssertionFailed
             else \<exists>a W. stop_request tickle stopping True (ss x) = Inr (True, a) \<and> m_stopping a \<and>
               stop_resume th a (sw x) = Inr W \<and> flow_of W th = OnStack 1 \<and>
               caller_step tickle stopping act th 0 1 x [] (x\<lparr>ss := a, sw := W\<rparr>))) \<and>
         (\<forall>i. workers x th = Some (i, Ended) \<and> flow_of (sw x) th = OnStack 1 \<longrightarrow>
            (\<exists>W. main_func_return True th 1 (sw x) = Inr W \<and> flow_of W th = Native th))"
proof -
  let ?rs = "pool_fiber (rt_fibers R')"
  from caller_run_pool [OF c R refl fresh run]
  have pool: "sched_run tickle stopping act s0 tr (as_pool_sys th 0 1 ?rs x)"
    and inv: "caller_inv th 0 1 ?rs x" by blast+
  have ok: "caller_ok th 0 1 (sw x)" using inv by (simp add: caller_inv_def)
  have "m_useCaller (ss x) = m_useCaller s0" "m_schedulerFiber (ss x) = Some 1"
    using run_keeps_members [OF pool] sf by simp_all
  note stop = stop_by_caller [OF inv _ _ this(2), unfolded this(1)]
  have "\<exists>W. main_func_return True th 1 (sw x) = Inr W \<and> flow_of W th = Native th"
    if "flow_of (sw x) th = OnStack 1" using leave_as_pool [OF ok that, of ?rs] by blast
  moreover have "\<exists>V. sched_run tickle stopping act s0 tr V \<and>
      ss V = ss x \<and> workers V = workers x \<and> mutex_of V = mutex_of x"
    using pool by (intro exI [of _ "as_pool_sys th 0 1 ?rs x"]) simp
  moreover have "\<exists>x'. run_stmt tickle stopping stale mem' t i pc x = Inr x'"
    if "workers x t = Some (i, pc)" "mem' \<noteq> None" for t i pc stale mem'
    using caller_no_abort [OF inv that] by blast
  ultimately show ?thesis using stop by (intro conjI allI impI) simp_all
qed

end

section \<open>The calling thread is a worker\<close>

abbreviation base_caller_run where
  "base_caller_run \<equiv> caller_run Scheduler_tickle Scheduler_stopping Scheduler_idle_act"

text \<open>Thread 3 constructs a scheduler for itself and two more, calls \<open>stop\<close>, and is in the loop of \<open>run\<close>.\<close>

lemma caller_demo:
  "\<exists>sc R' x. Scheduler_construct True False (Some 9) 0 3 3 True ''io'' runtime0 = Inr (sc, R') \<and>
     base_caller_run 3 0 1 sc (rt_fibers R') [] x \<and> (\<exists>i. workers x 3 = Some (i, AtLoop))"
proof -
  have R0: "rt_fibers runtime0 = init_world" by (simp add: runtime0_def)
  obtain sc R' where c: "Scheduler_construct True False (Some 9) 0 3 3 True ''io'' runtime0 = Inr (sc, R')"
    by (simp add: Scheduler_construct_def runtime0_def Let_def Fiber.GetThis_def new_main_fiber_def
        new_fiber_def init_world_def SetThis_def)
  let ?x0 = "sys_start sc\<lparr>sw := rt_fibers R'\<rparr>"
  note f = construct_caller [OF c R0 refl]
  have start: "base_caller_run 3 0 1 sc (rt_fibers R') [] ?x0" by (rule caller_run.start)
  from enter_as_pool [OF f(2) _ f(4,5)] f(3) obtain W where
    W: "resume True 3 1 (rt_fibers R') = Inr W" "caller_ok 3 0 1 W" "flow_of W 3 = OnStack 1" by auto
  let ?a = "sc\<lparr>m_stopping := True\<rparr>"
  have tick: "tickles Scheduler_tickle n (u :: scheduler) = Inr u" for n u
    by (induction n) (simp_all add: Scheduler_tickle_def)
  have "m_useCaller sc" "\<not> m_stopping sc"
    using c by (auto simp: Scheduler_construct_def new_scheduler_def Let_def result_simps split: if_splits)
  then have "stop_request Scheduler_tickle Scheduler_stopping True sc = Inr (True, ?a)"
    by (simp add: stop_request_def Scheduler_stopping_def tick) (simp add: Scheduler_tickle_def Let_def)
  with caller_run.step [OF start caller_step.enter [of _ 3 1 _ _ ?a W]] f(1,3) W(1)
  have entered: "base_caller_run 3 0 1 sc (rt_fibers R') [] (?x0\<lparr>ss := ?a, sw := W\<rparr>)"
    by (simp add: sys_start_def stop_resume_def)
  have "t_fiber (tls W 3) = Some 1" using W(2,3) by (simp add: caller_ok_def)
  then have "\<exists>i W2. run_prologue False (Some 9) 3 ?a W = Inr (i, W2)"
    by (simp add: run_prologue_def GetThis_def new_fiber_def Let_def)
  then obtain i W2 where pro: "run_prologue False (Some 9) 3 ?a W = Inr (i, W2)" by blast
  from caller_run.step [OF entered caller_step.begin_run [of _ 3 1 False "Some 9" i W2]] W(3) pro
  have "base_caller_run 3 0 1 sc (rt_fibers R') []
      (?x0\<lparr>ss := ?a, sw := W2, workers := [3 \<mapsto> (i, AtLoop)]\<rparr>)" by (simp add: sys_start_def)
  then show ?thesis using c by (intro exI conjI) (assumption | simp)+
qed

text \<open>
  C30. The default configuration: the thread that constructs the scheduler is one of its workers. In
  every interleaving of the pool with this thread (which calls \<open>stop\<close>, executes \<open>run\<close> on the scheduler
  fiber, and returns), the queue, the counters, the workers and the mutexes are those of a run of the
  pool alone with the same trace of tasks, so what holds of those holds here, and no statement of \<open>run\<close> in any
  worker aborts, under the provisos of C1. When the thread calls \<open>stop\<close>, the call returns at once if
  \<open>stopping()\<close> holds; otherwise its assertion decides on the value \<open>junk\<close> the uninitialised \<open>m_useCaller\<close>
  happens to have: if that is false the program aborts, if it is true \<open>stop\<close> enters \<open>run\<close>, and the thread
  comes back to \<open>stop\<close> when \<open>run\<close> has ended.
\<close>

theorem calling_thread_is_a_worker:
  assumes "Scheduler_construct junk junk2 mem self th threads True name R = Inr (sc, R')"
    and "rt_fibers R = init_world" and "base_caller_run th 0 1 sc (rt_fibers R') tr x"
  shows "(\<exists>V. sched_run Scheduler_tickle Scheduler_stopping Scheduler_idle_act sc tr V \<and>
            ss V = ss x \<and> workers V = workers x \<and> mutex_of V = mutex_of x) \<and>
         (\<forall>t i pc stale mem'. workers x t = Some (i, pc) \<longrightarrow>
            mem' \<noteq> None \<longrightarrow> (\<exists>x'. base_stmt stale mem' t i pc x = Inr x')) \<and>
         (workers x th = None \<and> flow_of (sw x) th = Native th \<longrightarrow>
            (if fst (Scheduler_stopping (ss x))
             then \<exists>a. stop_request Scheduler_tickle Scheduler_stopping True (ss x) = Inr (False, a)
             else if \<not> junk
             then stop_request Scheduler_tickle Scheduler_stopping True (ss x) = Inl AssertionFailed
             else \<exists>a W. stop_request Scheduler_tickle Scheduler_stopping True (ss x) = Inr (True, a) \<and>
               m_stopping a \<and> stop_resume th a (sw x) = Inr W \<and> flow_of W th = OnStack 1 \<and>
               caller_step Scheduler_tickle Scheduler_stopping Scheduler_idle_act th 0 1 x []
                 (x\<lparr>ss := a, sw := W\<rparr>))) \<and>
         (\<forall>i. workers x th = Some (i, Ended) \<and> flow_of (sw x) th = OnStack 1 \<longrightarrow>
            (\<exists>W. main_func_return True th 1 (sw x) = Inr W \<and> flow_of W th = Native th))"
proof -
  have fresh: "sched_fresh sc"
    using assms(1) by (auto simp: Scheduler_construct_def Let_def result_simps new_scheduler_def sched_fresh_def
        split: if_splits)
  have use: "m_useCaller sc = junk"
    using assms(1) by (auto simp: Scheduler_construct_def Let_def result_simps new_scheduler_def split: if_splits)
  from base.caller_all [OF assms(1,2) fresh construct_caller(1) [OF assms(1,2) refl] assms(3), unfolded use]
  show ?thesis .
qed

lemma calling_thread_is_a_worker_witness:
  "\<exists>(sc :: scheduler) (R' :: runtime) x i x'. base_caller_run 3 0 1 sc (rt_fibers R') [] x \<and> workers x 3 = Some (i, AtLoop) \<and>
     base_stmt False (Some 9) 3 i AtLoop x = Inr x'"
proof -
  obtain sc R' x i where c: "Scheduler_construct True False (Some 9) 0 3 3 True ''io'' runtime0 = Inr (sc, R')"
    and x: "base_caller_run 3 0 1 sc (rt_fibers R') [] x" "workers x 3 = Some (i, AtLoop)"
    using caller_demo by blast
  have "rt_fibers runtime0 = init_world" by (simp add: runtime0_def)
  note all = calling_thread_is_a_worker [OF c this x(1)]
  have "\<exists>x'. base_stmt False (Some 9) 3 i AtLoop x = Inr x'"
    using conjunct1 [OF conjunct2 [OF all]] x(2) by blast
  with x show ?thesis by blast
qed

end
