(* ===== verification/Scheduler_Lifetime.thy ===== *)
theory Scheduler_Lifetime
  imports Scheduler_Theorems Scheduler_Control
begin

text \<open>
  The end of a scheduler: an idle fiber that has ended stands for a call of \<open>stop\<close>, so when every
  worker has returned from \<open>run\<close> the destructor's assertion depends on the queue alone, and a task
  that comes too late is neither run nor forgiven.
\<close>

section \<open>An ended idle fiber means that stop was called\<close>

context virtual_ops
begin

lemma env_keeps_stopping:
  "tickle s = Inr s' \<Longrightarrow> m_stopping s' = m_stopping s"
  "m_stopping (snd (stopping s)) = m_stopping s"
  "act s ts s' \<Longrightarrow> m_stopping s' = m_stopping s"
  "scheduleLock tickle fc k s = Inr s' \<Longrightarrow> m_stopping s' = m_stopping s"
  "stop_request tickle stopping own s = Inr (b, s') \<Longrightarrow> m_stopping s \<Longrightarrow> m_stopping s'"
  using tickle_keeps [of s s'] stopping_keeps [of s] act_keeps [of s ts s'] schedule_keeps [of fc k s s']
    stop_keeps [of own s b s']
  by (auto simp: scheduler.truncate_def split: if_splits)

lemma stmt_keeps_stopping:
  "run_stmt tickle stopping stale mem th i pc x = Inr x' \<Longrightarrow> m_stopping (ss x') = m_stopping (ss x)"
  by (simp add: stmt_keeps_members)

lemma stmt_over:
  assumes inv: "sys_inv x" and w: "workers x th = Some (i, pc)" and "\<not> blocked pc x"
    and r: "run_stmt tickle stopping stale mem th i pc x = Inr x'"
    and live: "state_of (sw x) i \<noteq> TERM_state" and over: "state_of (sw x') i = TERM_state"
  shows "m_stopping (ss x)"
proof -
  have ok: "worker_ok x th i pc" by (rule sys_worker [OF inv w])
  have i: "is_task (sw x) i" using ok by (simp add: worker_ok_def)
  note run = on_stack_running [OF inv w, of i]
  have entered: "state_of W i \<noteq> TERM_state"
    if "resume True th f (sw x) = Inr W" "is_task (sw x) f" "state_of (sw x) f = READY"
      "stack_at th i pc = Native th" for f W
  proof -
    from enter_fiber [OF inv w that(4,2,3)] that(1) obtain m where
      m: "t_scheduler_fiber (tls (sw x) th) = Some m" "W = resumed th m f (sw x)" by auto
    with live i that(2) show ?thesis by (cases "f = i") (auto simp: resumed_def is_task_def)
  qed
  show ?thesis
  proof (cases pc)
    case (Chosen t)
    have "state_of W i = state_of (sw x) i" if "new_fiber (st_cb t) 0 True mem True (sw x) = Inr (f, W)" for f W
      using new_fiber_frame(2) [OF sys_fw [OF inv] that] new_fiber_frame(6) [OF sys_fw [OF inv] that, where g = i] i by (cases "i = f") auto
    with r live over Chosen w show ?thesis
      by (auto simp: result_simps goto_simp split: option.splits if_splits)
  next
    case (Locked f)
    have f: "is_task (sw x) f" using ok Locked plain_task by (auto simp: worker_ok_def)
    have "state_of (sw x) f \<noteq> RUNNING" using held_not_running [OF inv] w Locked by simp
    then have "state_of (sw x) f \<noteq> TERM_state \<Longrightarrow> state_of (sw x) f = READY" by (cases "state_of (sw x) f") auto
    with r live over Locked w entered [OF _ f] show ?thesis
      by (auto simp: result_simps goto_simp split: if_splits)
  next
    case (FreshLocked f)
    then have "is_task (sw x) f" "state_of (sw x) f = READY" using ok by (auto simp: worker_ok_def)
    with r over FreshLocked w entered [of f] show ?thesis by (auto simp: result_simps goto_simp)
  next
    case IdleEnter
    then have "state_of (sw x) i = READY" using ok by (simp add: worker_ok_def)
    with r over IdleEnter w entered [OF _ i] show ?thesis by (auto simp: result_simps goto_simp)
  next
    case IdleCheck
    with r w live over stopping_quiet [of "ss x"] show ?thesis
      by (auto simp: goto_simp split: prod.splits if_splits)
  next
    case IdleWork
    then obtain W where W: "yield True th i (sw x) = Inr W" and x': "x' = goto th IdleLeave (x\<lparr>sw := W\<rparr>)"
      using r by (auto simp: result_simps)
    then obtain m where "W = yielded th m i (upd_fiber i (\<lambda>b. b) (sw x))"
      using leave_fiber [OF inv w, of i] IdleWork by auto
    with w over IdleWork run show ?thesis by (auto simp: x' goto_simp yielded_def)
  qed (use r w live over in \<open>auto simp: result_simps goto_simp split: if_splits\<close>)
qed

text \<open>Nobody else touches the idle fiber of a worker.\<close>

lemma moves_other_idle:
  assumes inv: "sys_inv x" and mv: "worker_moves th i pc pc' x x'"
    and w: "workers x t = Some (j, p)" and "t \<noteq> th"
  shows "state_of (sw x') j = state_of (sw x) j"
proof -
  have th: "workers x th = Some (i, pc)" using mv by (simp add: worker_moves_def)
  have j: "is_task (sw x) j" using sys_worker [OF inv w] by (simp add: worker_ok_def)
  have "j \<notin> mentions pc"
    using sys_worker [OF inv th] plain_owned [OF _ w, of j] by (auto simp: worker_ok_def)
  moreover have "j \<notin> owned i pc" using sys_owned [OF inv w th, of j] assms(4) by auto
  ultimately have "holds pc \<noteq> Some j" by (cases pc) auto
  with \<open>j \<notin> owned i pc\<close> mv j show ?thesis by (auto simp: worker_moves_def)
qed

lemma inside_keeps_idle:
  assumes inv: "sys_inv x" and w: "workers x th = Some (i, Inside f)"
    and r: "yield True th f (sw x) = Inr W \<or> main_func_return True th f (sw x) = Inr W"
    and j: "workers x t = Some (j, p)"
  shows "state_of W j = state_of (sw x) j"
proof -
  from leave_fiber [OF inv w, of f] r obtain m upd where W: "W = yielded th m f (upd_fiber f upd (sw x))"
    by (metis stack_at.simps(1) sum.inject(2))
  have "plain x f" using sys_worker [OF inv w] by (simp add: worker_ok_def)
  then have "j \<noteq> f" using plain_owned [OF _ j, of f] by auto
  with yielded_frame(4) show ?thesis unfolding W by blast
qed

lemma spawn_idle:
  assumes inv: "sys_inv x" and r: "run_prologue junk mem th (ss x) (sw x) = Inr (i, W)"
  shows "state_of W i = READY" and "is_task (sw x) j \<Longrightarrow> state_of W j = state_of (sw x) j"
proof -
  obtain W1 where W1: "(\<exists>f. Fiber.GetThis True junk th (sw x) = Inr (f, W1)) \<or> W1 = sw x"
    and i: "new_fiber (Some BoundIdle) 0 True mem True W1 = Inr (i, W)"
    using r by (auto simp: run_prologue_def result_simps split: if_splits)
  have fw: "fw_inv W1" using W1 fw_inv_GetThis [OF sys_fw [OF inv]] sys_fw [OF inv] by blast
  note new = new_fiber_frame [OF fw i]
  show "state_of W i = READY" by (rule new(7))
  assume "is_task (sw x) j"
  then have "is_task W1 j" and "fibers W1 j = fibers (sw x) j"
    using W1 GetThis_frame(1,3) [OF sys_fw [OF inv]] by metis+
  moreover from this have "j \<noteq> i" using new(2) by auto
  ultimately show "state_of W j = state_of (sw x) j" using new(6) [where g = j] by simp
qed

lemma step_keeps_stopping:
  "sched_step tickle stopping act x as x' \<Longrightarrow> m_stopping (ss x) \<Longrightarrow> m_stopping (ss x')"
  by (induction rule: sched_step.induct)
    (auto simp: env_keeps_stopping stmt_keeps_stopping goto_def split: option.splits)

lemma step_over:
  assumes step: "sched_step tickle stopping act x as x'" and inv: "sys_inv x"
    and w: "workers x' t = Some (j, p)" and over: "state_of (sw x') j = TERM_state"
  shows "m_stopping (ss x) \<or> (\<exists>p'. workers x t = Some (j, p') \<and> state_of (sw x) j = TERM_state)"
proof -
  have task: "is_task (sw x) i" if "workers x th = Some (i, pc)" for th i pc
    using sys_worker [OF inv that] by (simp add: worker_ok_def)
  from step show ?thesis
  proof (cases rule: sched_step.cases)
    case (spawn th junk mem i W)
    with w over spawn_idle [OF inv spawn(6)] task show ?thesis by (cases "t = th") auto
  next
    case (stmt th i pc stale mem)
    obtain pc' where mv: "worker_moves th i pc pc' x x'" using stmt_moves [OF inv stmt(2-6)] by blast
    with w have "t = th \<Longrightarrow> j = i" "t \<noteq> th \<Longrightarrow> workers x t = Some (j, p)" by (auto simp: worker_moves_def)
    with stmt(2) over stmt_over [OF inv stmt(2,5,6)] moves_other_idle [OF inv mv, of t j p]
    show ?thesis by (cases "t = th") auto
  next
    case (fiber_yield th i f W)
    with w over inside_keeps_idle [OF inv fiber_yield(3)] show ?thesis
      by (cases "t = th") (auto simp: goto_simp)
  next
    case (fiber_end th i f W)
    with w over inside_keeps_idle [OF inv fiber_end(3)] show ?thesis
      by (cases "t = th") (auto simp: goto_simp)
  next
    case (attach th junk f W)
    with w over GetThis_frame(3) [OF sys_fw [OF inv] attach(4)] task show ?thesis by auto
  next
    case (create cb sz mem f W)
    then have "fibers W j = fibers (sw x) j"
      using new_fiber_frame(2) [OF sys_fw [OF inv] create(3)] task [of t j p] w
        new_fiber_frame(6) [OF sys_fw [OF inv] create(3), where g = j] by auto
    with create w over show ?thesis by simp
  next
    case (reset f cb W)
    then have "j \<noteq> f" using plain_owned [OF reset(3), of t j p] w by auto
    with reset w over show ?thesis by (auto simp: reset_fiber_def assert_that_def split: if_splits)
  qed (use w over in auto)
qed

lemma ended_after_stop:
  assumes "sched_run tickle stopping act s0 tr x" and "sched_fresh s0"
    and "workers x th = Some (i, Ended)"
  shows "m_stopping (ss x)"
proof -
  have "workers x t = Some (j, p) \<Longrightarrow> state_of (sw x) j = TERM_state \<Longrightarrow> m_stopping (ss x)" for t j p
    using assms(1,2)
  proof (induction arbitrary: t j p rule: sched_run.induct)
    case start
    then show ?case by (simp add: sys_start_def)
  next
    case (step tr x as x')
    from step_over [OF step.hyps(2) run_inv [OF step.hyps(1) step.prems(3)] step.prems(1,2)]
      step.IH [OF _ _ step.prems(3)] step_keeps_stopping [OF step.hyps(2)] show ?case by blast
  qed
  moreover have "state_of (sw x) i = TERM_state"
    using sys_worker [OF run_inv [OF assms(1,2)] assms(3)] by (simp add: worker_ok_def)
  ultimately show ?thesis using assms(3) by blast
qed

lemma all_ended:
  assumes "sched_run tickle stopping act s0 tr x" and "sched_fresh s0"
    and "dom (workers x) \<noteq> {}" and "\<forall>th i pc. workers x th = Some (i, pc) \<longrightarrow> pc = Ended"
  shows "m_stopping (ss x) \<and> m_activeThreadCount (ss x) = 0 \<and> \<not> hasIdleThreads (ss x) \<and>
         (\<forall>f. mutex_of x f = None) \<and> (\<forall>th. flow_of (sw x) th = Native th)"
proof -
  have inv: "sys_inv x" by (rule run_inv [OF assms(1,2)])
  obtain th i where "workers x th = Some (i, Ended)" using assms(3,4) by fast
  then have "m_stopping (ss x)" by (rule ended_after_stop [OF assms(1,2)])
  moreover have "members busy x = {}" using assms(4) by (fastforce simp: members_def)
  then have "m_activeThreadCount (ss x) = 0" using counters(1) [OF inv] by (simp add: unat_eq_zero)
  moreover have "\<not> hasIdleThreads (ss x)" using counters(3) [OF inv] assms(4) by fastforce
  moreover have "mutex_of x f = None" for f
    using sys_mutex [OF inv, of f] assms(4) by (cases "mutex_of x f") fastforce+
  moreover have "flow_of (sw x) th = Native th" for th
  proof (cases "workers x th")
    case (Some w)
    then obtain j where "workers x th = Some (j, Ended)" using assms(4) by (cases w) auto
    with sys_worker [OF inv] show ?thesis by (fastforce simp: worker_ok_def)
  qed (rule sys_free [OF inv])
  ultimately show ?thesis by blast
qed

text \<open>The workers' own way out of a scheduler that is stopping is part of a run.\<close>

lemma own_steps_run:
  assumes "own_steps tickle stopping n x y" and "sched_run tickle stopping act s0 tr x" and "sched_fresh s0"
    and "fst (stopping (ss x))"
  shows "\<exists>tr'. sched_run tickle stopping act s0 tr' y"
  using assms
proof (induction rule: own_steps.induct)
  case (one n x y th i pc stale mem z)
  then obtain tr' where y: "sched_run tickle stopping act s0 tr' y" by blast
  have "fst (stopping (ss y))" by (rule shutdown_stays [OF one.prems one.hyps(1)])
  from quiescent [OF run_inv [OF y one.prems(2)] this] one.hyps(2) have "\<not> busy pc"
    by (auto simp: members_def)
  then have "\<forall>f. pc \<noteq> Inside f" by auto
  from sched_run.step [OF y sched_step.stmt [OF one.hyps(2,3) this one.hyps(4,5)]] show ?case by blast
qed blast

end

section \<open>After the last worker\<close>

text \<open>
  C23. When every worker has returned from \<open>run\<close>, so that \<open>stop\<close> has joined them, no fiber is locked
  and every thread is at its own flow, and whether the destructor's assertion holds depends on the
  queue alone. A task scheduled from then on is accepted but nobody will run it: \<open>start\<close> does nothing
  any more, and the destructor aborts.
\<close>

theorem late_task_aborts_destructor:
  assumes "base_run tr x" and "dom (workers x) \<noteq> {}"
    and "\<forall>th i pc. workers x th = Some (i, pc) \<longrightarrow> pc = Ended"
  shows "(\<forall>f. mutex_of x f = None) \<and> (\<forall>th. flow_of (sw x) th = Native th) \<and>
         Scheduler_destruct Scheduler_stopping self me (ss x) R =
           (if m_tasks (ss x) = []
            then Inr (if t_scheduler R me = Some self then R\<lparr>t_scheduler := (t_scheduler R)(me := None)\<rparr> else R)
            else Inl AssertionFailed) \<and>
         (has_work (ScheduleTask fc k) \<longrightarrow>
            (\<exists>s. scheduleLock Scheduler_tickle fc k (ss x) = Inr s \<and> start mk s = Inr s \<and>
               Scheduler_destruct Scheduler_stopping self me s R = Inl AssertionFailed))"
proof -
  note ended = base.all_ended [OF assms(1) new_scheduler_fresh assms(2,3)]
  then show ?thesis
    by (simp add: Scheduler_destruct_def Scheduler_stopping_def scheduleLock_def Scheduler_tickle_def
        start_def Let_def)
qed

lemma late_task_aborts_destructor_witness:
  "\<exists>tr x. base_run tr x \<and> dom (workers x) = {5} \<and>
     (\<exists>s. scheduleLock Scheduler_tickle (CbCopied (Some (UserFn 1))) (- 1) (ss x) = Inr s \<and>
        Scheduler_destruct Scheduler_stopping 0 3 s runtime0 = Inl AssertionFailed)"
proof -
  obtain n y where own: "own_steps Scheduler_tickle Scheduler_stopping n (demo_stop AtLoop 0) y"
    and ended: "\<forall>th i pc. workers y th = Some (i, pc) \<longrightarrow> pc = Ended"
    using base.shutdown_completes [OF demo_stopped new_scheduler_fresh demo_stop_stopping] by blast
  obtain tr where y: "base_run tr y"
    using base.own_steps_run [OF own demo_stopped new_scheduler_fresh demo_stop_stopping] by blast
  have dom: "dom (workers y) = {5}"
    using base.shutdown_bound [OF own base.run_inv [OF demo_stopped new_scheduler_fresh] demo_stop_stopping]
    by (simp add: demo_stop_def)
  have "has_work (ScheduleTask (CbCopied (Some (UserFn 1))) (- 1))" by (simp add: has_work_def)
  moreover have "dom (workers y) \<noteq> {}" using dom by simp
  ultimately show ?thesis using late_task_aborts_destructor [OF y _ ended] y dom by blast
qed

end
