(* ===== verification/IOManager_Sched.thy ===== *)
theory IOManager_Sched
  imports IOManager_Theorems Scheduler_Caller Scheduler_Lifetime
begin

text \<open>
  \<open>IOManager\<close> as a scheduler: its \<open>tickle\<close>, \<open>stopping\<close> and idle function keep the contract of the
  virtual functions, so everything proved of the scheduler holds of it; when it stops, how long it
  waits, and what wakes it.
\<close>

section \<open>The operations seen by the scheduler\<close>

text \<open>Apart from its own members, an operation only appends tasks to the queue.\<close>

definition grows :: "iomanager \<Rightarrow> iomanager \<Rightarrow> bool" where
  "grows m m' \<longleftrightarrow> (\<exists>ts. scheduler.truncate m' = (scheduler.truncate m)\<lparr>m_tasks := m_tasks m @ ts\<rparr> \<and>
     (\<forall>t \<in> set ts. has_work t))"

lemma grows_same: "scheduler.truncate m' = scheduler.truncate m \<Longrightarrow> grows m m'"
  unfolding grows_def by (intro exI [of _ "[]"]) (simp add: scheduler.truncate_def)

lemma grows_trans: "grows m1 m2 \<Longrightarrow> grows m2 m3 \<Longrightarrow> grows m1 m3"
proof -
  assume "grows m1 m2" "grows m2 m3"
  then obtain ts us where
    ts: "scheduler.truncate m2 = (scheduler.truncate m1)\<lparr>m_tasks := m_tasks m1 @ ts\<rparr>" "\<forall>t \<in> set ts. has_work t"
    and us: "scheduler.truncate m3 = (scheduler.truncate m2)\<lparr>m_tasks := m_tasks m2 @ us\<rparr>" "\<forall>t \<in> set us. has_work t"
    unfolding grows_def by blast
  have "m_tasks m2 = m_tasks m1 @ ts" using ts(1) by (simp add: scheduler.truncate_def)
  with ts us show ?thesis unfolding grows_def by (intro exI [of _ "ts @ us"]) auto
qed

lemma grows_pushed [intro]: "grows m (pushed t m)"
  unfolding grows_def pushed_def
  by (intro exI [of _ "if has_work t then [t] else []"]) (simp add: scheduler.truncate_def)

lemma grows_schedule_to: "schedule_to s fc m = Inr m' \<Longrightarrow> grows m m'"
proof (cases s)
  case (Some t)
  assume "schedule_to s fc m = Inr m'"
  with Some have "m' = pushed (ScheduleTask fc (- 1)) m \<or> (\<exists>l. m' = m\<lparr>io_foreign := l\<rparr>)"
    by (auto simp: schedule_to_def scheduleLock_io split: if_splits)
  moreover have "grows m (m\<lparr>io_foreign := l\<rparr>)" for l
    by (rule grows_same) (simp add: scheduler.truncate_def)
  ultimately show ?thesis using grows_pushed by auto
qed (simp add: schedule_to_def)

lemma grows_upd_ctx: "grows m (upd_ctx i g m)"
  by (rule grows_same) (simp add: upd_ctx_def scheduler.truncate_def)

lemma grows_trigger: "triggerEvent v i m = Inr m' \<Longrightarrow> grows m m'"
  by (auto simp: triggerEvent_def Let_def result_simps
      intro: grows_trans [OF grows_trans [OF grows_upd_ctx grows_schedule_to] grows_upd_ctx])

lemma grows_trigger_and_count: "trigger_and_count v i m = Inr m' \<Longrightarrow> grows m m'"
  by (auto simp: trigger_and_count_def result_simps scheduler.truncate_def
      intro!: grows_trans [OF grows_trigger grows_same])

lemma grows_when: "(if b then trigger_and_count v i m else Inr m) = Inr m' \<Longrightarrow> grows m m'"
  by (auto split: if_splits intro: grows_trigger_and_count grows_same)

lemma addEvent_frame:
  assumes r: "addEvent rt junk th cur fd v cb m W = Inr (r, m', W')"
  shows "scheduler.truncate m' = scheduler.truncate m"
proof -
  from r obtain found where f: "find_context fd m = Inr found"
    by (cases "find_context fd m") (simp_all add: addEvent_def)
  show ?thesis
  proof (cases found)
    case None
    with r f show ?thesis by (simp add: addEvent_def)
  next
    case (Some i)
    show ?thesis
    proof (cases "fc_events (m_fdContexts m ! i) AND v = 0 \<and> rt = 0")
      case False
      with r f Some have "m' = m" by (auto simp: addEvent_def Let_def split: if_splits)
      then show ?thesis by simp
    next
      case True
      with r f Some show ?thesis
        by (cases cb) (auto simp: addEvent_def Let_def result_simps upd_ctx_def scheduler.truncate_def)
    qed
  qed
qed

lemma delEvent_frame:
  assumes r: "delEvent rt fd v m = Inr (b, m')"
  shows "scheduler.truncate m' = scheduler.truncate m"
proof -
  from r obtain found where f: "find_context fd m = Inr found"
    by (cases "find_context fd m") (simp_all add: delEvent_def)
  show ?thesis
  proof (cases found)
    case None
    with r f show ?thesis by (simp add: delEvent_def)
  next
    case (Some i)
    with r f show ?thesis
      by (cases "not_events_and (fc_events (m_fdContexts m ! i)) v \<or> rt \<noteq> 0")
        (auto simp: delEvent_def Let_def result_simps upd_ctx_def scheduler.truncate_def split: if_splits)
  qed
qed

lemma grows_idle_event:
  assumes "idle_event rt src reported m = Inr m'"
  shows "grows m m'"
proof (cases src)
  case TicklePipe
  with assms show ?thesis by (auto simp: idle_event_def scheduler.truncate_def intro: grows_same)
next
  case (OfContext i)
  have log: "grows m (m\<lparr>ctl_log := l\<rparr>)" for l by (rule grows_same) (simp add: scheduler.truncate_def)
  show ?thesis
    using assms OfContext
    by (auto simp: idle_event_def Let_def result_simps split: if_splits
        intro: grows_same grows_trans [OF log] grows_trans [OF grows_trigger_and_count]
          grows_trigger_and_count)
qed

lemma grows_log: "grows m (m\<lparr>ctl_log := l\<rparr>)" "grows m (m\<lparr>ctl_log := l, m_pendingEventCount := n\<rparr>)"
  by (rule grows_same, simp add: scheduler.truncate_def)+

lemma grows_cancel:
  assumes r: "cancelEvent rt fd v m = Inr (b, m')"
  shows "grows m m'"
proof -
  from r obtain found where f: "find_context fd m = Inr found"
    by (cases "find_context fd m") (simp_all add: cancelEvent_def)
  show ?thesis
  proof (cases found)
    case None
    with r f show ?thesis by (simp add: cancelEvent_def grows_same)
  next
    case (Some i)
    show ?thesis
    proof (cases "not_events_and (fc_events (m_fdContexts m ! i)) v \<or> rt \<noteq> 0")
      case True
      with r f Some have "m' = m" by (auto simp: cancelEvent_def Let_def split: if_splits)
      then show ?thesis by (simp add: grows_same)
    next
      case False
      with r f Some obtain l n where "triggerEvent v i (m\<lparr>ctl_log := l, m_pendingEventCount := n\<rparr>) = Inr m'"
        by (auto simp: cancelEvent_def Let_def result_simps)
      from grows_trans [OF grows_log(2) grows_trigger [OF this]] show ?thesis .
    qed
  qed
qed

lemma grows_cancelAll:
  assumes r: "cancelAll rt fd m = Inr (b, m')"
  shows "grows m m'"
proof -
  from r obtain found where f: "find_context fd m = Inr found"
    by (cases "find_context fd m") (simp_all add: cancelAll_def)
  show ?thesis
  proof (cases found)
    case None
    with r f show ?thesis by (simp add: cancelAll_def grows_same)
  next
    case (Some i)
    show ?thesis
    proof (cases "fc_events (m_fdContexts m ! i) = 0 \<or> rt \<noteq> 0")
      case True
      with r f Some have "m' = m" by (auto simp: cancelAll_def Let_def split: if_splits)
      then show ?thesis by (simp add: grows_same)
    next
      case False
      with r f Some obtain l p q m2 where
        "(if p then trigger_and_count READ_event i (m\<lparr>ctl_log := l\<rparr>) else Inr (m\<lparr>ctl_log := l\<rparr>)) = Inr m2"
        "(if q then trigger_and_count WRITE_event i m2 else Inr m2) = Inr m'"
        unfolding cancelAll_def Let_def and_then_Inr_iff by (auto simp only: option.case and_then.simps if_False
          and_then_Inr_iff assert_that_Inr_iff sum.inject prod.inject simp_thms)
      from grows_trans [OF grows_trans [OF grows_log(1) grows_when [OF this(1)]] grows_when [OF this(2)]]
      show ?thesis .
    qed
  qed
qed

lemma grows_schedule_all: "schedule_all cbs m = Inr m' \<Longrightarrow> grows m m'"
proof (induction cbs arbitrary: m)
  case Nil
  then show ?case by (simp add: grows_same)
next
  case (Cons cb cbs)
  then have "schedule_all cbs (pushed (ScheduleTask (CbCopied cb) (- 1)) m) = Inr m'"
    by (simp add: scheduleLock_io)
  from grows_trans [OF grows_pushed Cons.IH [OF this]] show ?case .
qed

text \<open>
  What the idle functions of the workers and the callers of the public operations do to the manager.
  The operations are atomic here; tasks that other threads schedule in between are the steps of the
  scheduler's own relation.
\<close>

inductive io_step :: "iomanager \<Rightarrow> iomanager \<Rightarrow> bool" where
  clock: "io_step m (m\<lparr>io_clock := c\<rparr>)"
| timers: "io_step m (m\<lparr>io_timers := M\<rparr>)"
| timeout: "io_step m (snd (idle_timeout m))"
| expired: "idle_timers now2 m = Some (Inr m') \<Longrightarrow> io_step m m'"
| event: "idle_event rt src reported m = Inr m' \<Longrightarrow> io_step m m'"
| timer: "io_addTimer 1 ms cb recurring m = Inr (t, m') \<Longrightarrow> io_step m m'"
| add: "addEvent rt junk th cur fd v cb m W = Inr (r, m', W) \<Longrightarrow> io_step m m'"
| del: "delEvent rt fd v m = Inr (b, m') \<Longrightarrow> io_step m m'"
| cancel: "cancelEvent rt fd v m = Inr (b, m') \<Longrightarrow> io_step m m'"
| cancel_all: "cancelAll rt fd m = Inr (b, m') \<Longrightarrow> io_step m m'"

definition io_act :: "iomanager \<Rightarrow> sched_task list \<Rightarrow> iomanager \<Rightarrow> bool" where
  "io_act m ts m' \<longleftrightarrow> io_step m m' \<and> m_tasks m' = m_tasks m @ ts"

lemma grows_step: "io_step m m' \<Longrightarrow> grows m m'"
proof (induction rule: io_step.induct)
  case (expired now2 m m')
  then obtain cbs M where "schedule_all cbs (m\<lparr>io_timers := M\<rparr>) = Inr m'"
    by (auto simp: idle_timers_def split: option.splits)
  from grows_trans [OF grows_same grows_schedule_all [OF this]] show ?case
    by (simp add: scheduler.truncate_def)
next
  case (event rt src reported m m')
  then show ?case by (rule grows_idle_event)
next
  case (timer ms cb recurring m t m')
  then show ?case
    by (auto simp: io_addTimer_def onTimerInsertedAtFront_def IOManager_tickle_def Let_def result_simps
        scheduler.truncate_def split: prod.splits if_splits intro!: grows_same)
next
  case (add rt junk th cur fd v cb m W r m')
  then show ?case by (intro grows_same addEvent_frame)
next
  case (del rt fd v m b m')
  then show ?case by (intro grows_same delEvent_frame)
next
  case (cancel rt fd v m b m')
  then show ?case by (rule grows_cancel)
next
  case (cancel_all rt fd m b m')
  then show ?case by (rule grows_cancelAll)
qed (auto simp: idle_timeout_def io_getNextTimer_def scheduler.truncate_def split: prod.splits intro!: grows_same)

lemma act_grows:
  assumes "io_act m ts m'"
  shows "scheduler.truncate m' = (scheduler.truncate m)\<lparr>m_tasks := m_tasks m @ ts\<rparr> \<and> (\<forall>t \<in> set ts. has_work t)"
proof -
  from grows_step [of m m'] assms obtain us where
    us: "scheduler.truncate m' = (scheduler.truncate m)\<lparr>m_tasks := m_tasks m @ us\<rparr>" "\<forall>t \<in> set us. has_work t"
    by (auto simp: io_act_def grows_def)
  then have "m_tasks m' = m_tasks m @ us" by (simp add: scheduler.truncate_def)
  with assms us show ?thesis by (simp add: io_act_def)
qed

lemma next_timer_shape:
  "io_getNextTimer m = (ms, m') \<Longrightarrow> m' = m\<lparr>io_timers := (io_timers m)\<lparr>m_tickled := False\<rparr>\<rparr>"
  by (auto simp: io_getNextTimer_def getNextTimer_def Let_def split: prod.splits list.splits if_splits)

lemma next_timer_again:
  "fst (io_getNextTimer (snd (io_getNextTimer m))) = fst (io_getNextTimer m)"
  "fst (io_getNextTimer (m\<lparr>m_idleThreadCount := n\<rparr>)) = fst (io_getNextTimer m)"
  "fst (io_getNextTimer (m\<lparr>pipe_bytes := k\<rparr>)) = fst (io_getNextTimer m)"
  by (auto simp: io_getNextTimer_def getNextTimer_def Let_def split: prod.splits list.splits)

lemma stopping_parts:
  "fst (IOManager_stopping m) \<longleftrightarrow> fst (io_getNextTimer m) = no_timeout \<and> m_pendingEventCount m = 0 \<and>
     m_stopping m \<and> m_tasks m = [] \<and> m_activeThreadCount m = 0"
  "snd (IOManager_stopping m) = snd (io_getNextTimer m)"
  by (auto simp: IOManager_stopping_def Scheduler_stopping_def split: prod.splits dest!: next_timer_shape)

lemma next_timer_snd: "snd (io_getNextTimer m) = m\<lparr>io_timers := (io_timers m)\<lparr>m_tickled := False\<rparr>\<rparr>"
  using next_timer_shape [of m "fst (io_getNextTimer m)" "snd (io_getNextTimer m)"] by simp

interpretation io: virtual_ops "IOManager_tickle 1" IOManager_stopping io_act
proof
  show "\<exists>m'. IOManager_tickle 1 m = Inr m'" for m by (simp add: IOManager_tickle_def)
  show "IOManager_tickle 1 m = Inr m' \<Longrightarrow> scheduler.truncate m' = scheduler.truncate m" for m m'
    by (auto simp: IOManager_tickle_def scheduler.truncate_def split: if_splits)
  show "IOManager_tickle 1 m = Inr m' \<Longrightarrow> fst (IOManager_stopping m') = fst (IOManager_stopping m)" for m m'
    unfolding stopping_parts by (auto simp: IOManager_tickle_def next_timer_again split: if_splits)
  show "fst (IOManager_stopping (m\<lparr>m_idleThreadCount := n\<rparr>)) = fst (IOManager_stopping m)" for m n
    unfolding stopping_parts by (simp add: next_timer_again)
  show "fst (IOManager_stopping (snd (IOManager_stopping m))) = fst (IOManager_stopping m)" for m
    unfolding stopping_parts next_timer_again(1) by (simp add: next_timer_snd)
  show "scheduler.truncate (snd (IOManager_stopping m)) = scheduler.truncate m" for m
    unfolding stopping_parts by (simp add: next_timer_snd scheduler.truncate_def)
  show "fst (IOManager_stopping m) \<Longrightarrow> m_stopping m \<and> m_tasks m = [] \<and> m_activeThreadCount m = 0" for m
    unfolding stopping_parts by simp
qed (use act_grows in blast)+

end
