(* ===== verification/IOManager_Run.thy ===== *)
theory IOManager_Run
  imports IOManager_Sched
begin

text \<open>
  A running \<open>IOManager\<close> in which no call of \<open>stopping()\<close> is interrupted: how it starts and is deleted,
  how long an idle worker waits, and the wakeup it misses. These are special cases of the runs of
  \<open>IOManager_Stopping\<close>, where the three reads of \<open>stopping()\<close> are steps of their own.
\<close>

abbreviation io_run :: "iomanager \<Rightarrow> action list \<Rightarrow> iomanager sys \<Rightarrow> bool" where
  "io_run \<equiv> sched_run (IOManager_tickle 1) IOManager_stopping io_act"

abbreviation atomic_stmt where
  "atomic_stmt \<equiv> run_stmt (IOManager_tickle 1) IOManager_stopping"

lemma check_stays:
  "\<not> fst (stopping (ss x)) \<Longrightarrow>
     run_stmt tickle stopping stale mem th i IdleCheck x = Inr (goto th IdleWork (x\<lparr>ss := snd (stopping (ss x))\<rparr>))"
  by (cases "stopping (ss x)") simp

lemma check_leaves:
  "fst (stopping (ss x)) \<Longrightarrow>
     run_stmt tickle stopping stale mem th i IdleCheck x =
       and_then (main_func_return True th i (sw x)) (\<lambda>W.
         Inr (goto th IdleLeave (x\<lparr>ss := snd (stopping (ss x)), sw := W\<rparr>)))"
  by (cases "stopping (ss x)") simp

lemma io0_pipe: "pipe_bytes io0 = 0"
  by (simp add: io0_def IOManager_construct_def start_def new_scheduler_def scheduler.extend_def
      contextResize_def Let_def)

section \<open>A run in which a wakeup is lost\<close>

lemma io0_fresh: "sched_fresh io0"
  by (simp add: sched_fresh_def io0_def IOManager_construct_def start_def new_scheduler_def
      scheduler.extend_def contextResize_def Let_def)

definition io_world :: fiber_world where
  "io_world = (case run_prologue False (Some 9) 5 io0 init_world of Inr (_, W) \<Rightarrow> W | Inl _ \<Rightarrow> init_world)"

lemma io_root [simp]: "m_rootThread io0 = - 1"
  using io0_fresh by (simp add: sched_fresh_def)

lemma io_prologue: "run_prologue False (Some 9) 5 io0 init_world = Inr (1, io_world)"
  by (simp add: io_world_def run_prologue_def GetThreadID_def Fiber.GetThis_def
      new_main_fiber_def new_fiber_def init_world_def Let_def SetThis_def)

lemma io_world_idle: "state_of io_world 1 = READY"
  by (simp add: io_world_def run_prologue_def GetThreadID_def Fiber.GetThis_def
      new_main_fiber_def new_fiber_def init_world_def Let_def SetThis_def)

definition io_sys :: "sched_task list \<Rightarrow> 64 word \<Rightarrow> worker_pc \<Rightarrow> iomanager sys" where
  "io_sys q n pc = \<lparr>ss = io0\<lparr>m_tasks := q, m_idleThreadCount := n\<rparr>, sw = io_world,
     workers = [5 \<mapsto> (1, pc)], mutex_of = (\<lambda>_. None)\<rparr>"

definition io_task :: sched_task where
  "io_task = \<lparr>st_fiber = None, st_cb = Some (UserFn 1), st_thread = - 1\<rparr>"

lemma io_sys_fields [simp]:
  "workers (io_sys q n pc) 5 = Some (1, pc)" "mutex_of (io_sys q n pc) f = None"
  "sw (io_sys q n pc) = io_world" "ss (io_sys q n pc) = io0\<lparr>m_tasks := q, m_idleThreadCount := n\<rparr>"
  by (simp_all add: io_sys_def)

lemma io0_upd:
  "io0\<lparr>m_tasks := [], m_idleThreadCount := 0\<rparr> = io0"
  "io0\<lparr>m_idleThreadCount := n, m_tasks := q\<rparr> = io0\<lparr>m_tasks := q, m_idleThreadCount := n\<rparr>"
  "io0\<lparr>m_tasks := q, m_idleThreadCount := 0\<rparr> = io0\<lparr>m_tasks := q\<rparr>"
  by (rule iomanager.equality; simp)+

lemma io_run_stmt:
  assumes "io_run m tr x" and "workers x th = Some (i, pc)" and "pc \<noteq> AtLoop" and "pc \<noteq> Ended"
    and "\<forall>f. pc \<noteq> Inside f" and "\<not> blocked pc x" and "atomic_stmt stale mem th i pc x = Inr x'"
  shows "io_run m tr x'"
  using sched_run.step [OF assms(1) sched_step.stmt [OF assms(2,4-7)]] assms(3) by simp

lemma io_spawned: "io_run io0 [] (io_sys [] 0 AtLoop)"
proof -
  have "io_run io0 [] (sys_start io0)" by (rule sched_run.start)
  from sched_run.step [OF this sched_step.spawn [of _ 5 False "Some 9" 1 io_world]] io_prologue
  show ?thesis by (simp add: sys_start_def io_sys_def io0_upd init_world_def)
qed

lemma io_took_nothing: "io_run io0 [] (io_sys [] 0 (Chosen empty_task))"
proof -
  have "atomic_stmt True (Some 9) 5 1 AtLoop (io_sys [] 0 AtLoop) = Inr (io_sys [] 0 (Picked False empty_task))"
    by (simp add: io_sys_def run_take_def goto_def)
  from sched_run.step [OF io_spawned sched_step.stmt [OF _ _ _ _ this]]
  have "io_run io0 [] (io_sys [] 0 (Picked False empty_task))" by (simp add: blocked_def)
  then show ?thesis
    by (rule io_run_stmt [of _ _ _ 5 1 "Picked False empty_task" True "Some 9"])
      (simp_all add: blocked_def io_sys_def goto_def)
qed

lemma io_scheduled: "io_run io0 [Pushed io_task] (io_sys [io_task] 0 (Chosen empty_task))"
  using sched_run.step [OF io_took_nothing
      sched_step.schedule [OF refl, of "CbCopied (Some (UserFn 1))" "- 1"]]
  by (simp add: io_sys_def io_task_def has_work_def scheduleLock_io pushed_def hasIdleThreads_def io0_upd)

lemma io_idles:
  assumes "io_run io0 tr (io_sys q 0 (Chosen empty_task))"
  shows "io_run io0 tr (io_sys q 1 IdleEnter)"
  by (rule io_run_stmt [OF assms, of 5 1 "Chosen empty_task" True "Some 9"])
    (simp_all add: blocked_def io_world_idle [simplified], simp add: io_sys_def goto_def)

lemma io_enters:
  assumes "io_run io0 tr (io_sys q 0 (Chosen empty_task))"
  shows "\<exists>x. io_run io0 tr x \<and> workers x 5 = Some (1, IdleCheck) \<and> dom (workers x) = {5} \<and>
     ss x = io0\<lparr>m_tasks := q, m_idleThreadCount := 1\<rparr>"
proof -
  let ?x = "io_sys q 1 IdleEnter"
  note run = io_idles [OF assms]
  from io.no_abort [OF io.run_inv [OF run io0_fresh], of 5 1 IdleEnter "Some 9" True] obtain x' where
    x': "atomic_stmt True (Some 9) 5 1 IdleEnter ?x = Inr x'" by auto
  then have "workers x' 5 = Some (1, IdleCheck)" "ss x' = ss ?x" "dom (workers x') = {5}"
    by (auto simp: result_simps goto_def) (auto simp: io_sys_def split: if_splits)
  with io_run_stmt [OF run, of 5 1 IdleEnter True "Some 9" x'] x' show ?thesis
    by (auto simp: blocked_def)
qed

lemmas io_entered = io_enters [OF io_scheduled]

lemma io_asleep:
  "\<exists>x. io_run io0 [Pushed io_task] x \<and> workers x 5 = Some (1, IdleWork) \<and>
     m_tasks (ss x) = [io_task] \<and> pipe_bytes (ss x) = 0 \<and> fst (idle_timeout (ss x)) = 5000 \<and> dom (workers x) = {5}"
proof -
  obtain x where x: "io_run io0 [Pushed io_task] x" "workers x 5 = Some (1, IdleCheck)" "dom (workers x) = {5}"
    "ss x = io0\<lparr>m_tasks := [io_task], m_idleThreadCount := 1\<rparr>"
    using io_entered by blast
  from io.no_abort [OF io.run_inv [OF x(1) io0_fresh] x(2), of "Some 9" True] obtain x' where
    x': "atomic_stmt True (Some 9) 5 1 IdleCheck x = Inr x'" by auto
  have "\<not> fst (IOManager_stopping (ss x))" by (simp add: stopping_parts x(4))
  then have "x' = goto 5 IdleWork (x\<lparr>ss := snd (IOManager_stopping (ss x))\<rparr>)"
    using x' check_stays [of IOManager_stopping x] by simp
  then have "ss x' = snd (io_getNextTimer (ss x))" "workers x' 5 = Some (1, IdleWork)" "dom (workers x') = {5}"
    using x(2,3) by (auto simp: goto_def stopping_parts(2))
  then show ?thesis
    using io_run_stmt [OF x(1,2) _ _ _ _ x'] x(4)
    by (intro exI [of _ x'])
      (simp add: blocked_def next_timer_snd idle_timeout_def io_getNextTimer_def getNextTimer_def new_manager_def
        io0_pipe)
qed

section \<open>From the constructors\<close>

lemma start_loop_fresh: "start_loop mk i n s = Inr s' \<Longrightarrow> sched_fresh s' = sched_fresh s"
  by (induction mk i n s rule: start_loop.induct) (auto simp: result_simps sched_fresh_def)

lemma construct_fresh:
  assumes "IOManager_construct self clock epfd fds rts mk tm s = Inr m" and "sched_fresh s"
  shows "sched_fresh m"
  using assms
  by (auto simp: IOManager_construct_def Let_def result_simps start_def contextResize_def
      split: if_splits dest!: start_loop_fresh) (simp_all add: sched_fresh_def scheduler.extend_def)

lemma Scheduler_construct_fresh:
  "Scheduler_construct junk junk2 mem self th threads use_caller nm R = Inr (s, R') \<Longrightarrow> sched_fresh s"
  by (auto simp: Scheduler_construct_def Let_def result_simps new_scheduler_def sched_fresh_def split: if_splits)

section \<open>The workers\<close>

text \<open>A manager that is stopping is deleted at once: its three descriptors are closed, its contexts freed.\<close>

lemma delete_stopping:
  assumes "fst (IOManager_stopping m)"
  shows "\<exists>m'. IOManager_delete own joined me m R =
           Inr (m', if t_scheduler R me = Some (io_self m) then R\<lparr>t_scheduler := (t_scheduler R)(me := None)\<rparr> else R) \<and>
         closed_fds m' = closed_fds m @ [m_epfd m, fst (m_tickleFds m), snd (m_tickleFds m)] \<and>
         m_fdContexts m' = []"
proof -
  have "stop_request (IOManager_tickle 1) IOManager_stopping own m = Inr (False, snd (IOManager_stopping m))"
    using assms by (cases "IOManager_stopping m") (simp add: stop_request_def)
  with assms show ?thesis
    unfolding stopping_parts
    by (simp add: IOManager_delete_def IOManager_destruct_def Scheduler_destruct_def Scheduler_stopping_def
        next_timer_snd Let_def)
qed

text \<open>If work is left, the assertion of the base class fails after the descriptors are closed.\<close>

lemma delete_unfinished:
  assumes "stop_request (IOManager_tickle 1) IOManager_stopping own m = Inr (True, m1)"
    and "m_tasks (joined m1) \<noteq> [] \<or> m_activeThreadCount (joined m1) \<noteq> 0"
  shows "IOManager_delete own joined me m R = Inl AssertionFailed"
  using assms
  by (auto simp: IOManager_delete_def IOManager_destruct_def Scheduler_destruct_def Scheduler_stopping_def
      stop_take_threads_def Let_def)

text \<open>By default the thread that constructs the manager is one of its workers, and \<open>caller_all\<close> covers it.\<close>

lemma construct_keeps_fiber:
  assumes "IOManager_construct self clock epfd fds rts mk tm s = Inr m"
  shows "m_schedulerFiber m = m_schedulerFiber s"
proof -
  have "start_loop mk i n a = Inr b \<Longrightarrow> m_schedulerFiber b = m_schedulerFiber a" for i n and a b :: iomanager
    by (induction mk i n a rule: start_loop.induct) (auto simp: result_simps)
  with assms show ?thesis
    by (auto simp: IOManager_construct_def Let_def result_simps start_def contextResize_def scheduler.extend_def
        split: if_splits)
qed

lemma io_calling_thread:
  assumes "Scheduler_construct junk junk2 mem self th threads True name R = Inr (sc, R')"
    and "rt_fibers R = init_world" and "IOManager_construct self clock epfd fds rts mk tm sc = Inr m"
    and "caller_run (IOManager_tickle 1) IOManager_stopping io_act th 0 1 m (rt_fibers R') tr x"
  shows "(\<exists>V. io_run m tr V \<and> ss V = ss x \<and> workers V = workers x \<and> mutex_of V = mutex_of x) \<and>
         (\<forall>t i pc stale mem'. workers x t = Some (i, pc) \<longrightarrow> mem' \<noteq> None \<longrightarrow> (\<exists>x'. atomic_stmt stale mem' t i pc x = Inr x'))"
  using io.caller_all [OF assms(1,2) construct_fresh [OF assms(3) Scheduler_construct_fresh [OF assms(1)]] _ assms(4)]
    construct_keeps_fiber [OF assms(3)] construct_caller(1) [OF assms(1,2) refl]
  by simp

section \<open>Waiting and waking\<close>

lemma io0_clock [simp]: "io_clock io0 = 0"
  by (simp add: io0_def IOManager_construct_def start_def new_scheduler_def scheduler.extend_def
      contextResize_def Let_def)

lemma timeout_value: "fst (idle_timeout m) = min (uint (fst (getNextTimer (io_clock m) (io_timers m)))) 5000"
proof -
  let ?w = "fst (getNextTimer (io_clock m) (io_timers m))"
  have "uint (min ?w 5000) = min (uint ?w) 5000"
    by (simp add: min_def word_le_def)
  moreover have "0 \<le> min (uint ?w) 5000" "min (uint ?w) 5000 \<le> 5000" by simp_all
  then have "i32 (min (uint ?w) 5000) = min (uint ?w) 5000" 
    by (intro i32_id order.trans [OF _ \<open>0 \<le> min (uint ?w) 5000\<close>] order.strict_trans1 [OF \<open>min (uint ?w) 5000 \<le> 5000\<close>])
      simp_all
  ultimately show ?thesis by (simp add: idle_timeout_def io_getNextTimer_def case_prod_beta)
qed

lemma schedule_all_spec:
  "\<exists>m'. schedule_all cbs m = Inr m' \<and> io_timers m' = io_timers m \<and>
     m_tasks m' = m_tasks m @ map (\<lambda>c. ScheduleTask (CbCopied c) (- 1)) (filter (\<lambda>c. c \<noteq> None) cbs)"
proof (induction cbs arbitrary: m)
  case (Cons c cbs)
  let ?p = "pushed (ScheduleTask (CbCopied c) (- 1)) m"
  have "io_timers ?p = io_timers m"
    "m_tasks ?p = m_tasks m @ (if c \<noteq> None then [ScheduleTask (CbCopied c) (- 1)] else [])"
    by (simp_all add: pushed_def has_work_def)
  with Cons.IH [of ?p] show ?case by (auto simp: scheduleLock_io)
qed simp

text \<open>
  C15. The idle function serves the timers. Each wait is at most five seconds and ends no later than
  the earliest deadline, rounded down to a millisecond; and after it the callbacks of exactly the
  timers that are due go into the queue, for any worker, in the order of their deadlines, while the
  set is left as \<open>expired_post\<close> says.
\<close>

theorem idle_serves_timers:
  assumes "tm_wf (io_timers m)" and "clock_ok (io_clock m)"
    and "\<forall>t \<in> set (m_timers (io_timers m)). clock_ok (m_next (heap (io_timers m) t))"
    and "\<not> fst (detectClockRollover now2 (io_timers m))"
    and "\<forall>t \<in> set (m_timers (io_timers m)). m_recurring (heap (io_timers m) t) \<longrightarrow>
           m_ms (heap (io_timers m) t) \<noteq> 0 \<and> period_ok (m_ms (heap (io_timers m) t))"
  shows "let T = io_timers m; now = io_clock m;
             left = max 0 (Min ((\<lambda>t. m_next (heap T t)) ` set (m_timers T)) - now) div 1000000;
             fns = filter (\<lambda>c. c \<noteq> None) (map (\<lambda>t. tm_cb (heap T t)) (takeWhile (due now T) (m_timers T)))
         in fst (idle_timeout m) = (if m_timers T = [] then 5000 else min left 5000) \<and>
            (\<exists>m'. idle_timers now2 m = Some (Inr m') \<and>
               m_tasks m' = m_tasks m @ map (\<lambda>c. ScheduleTask (CbCopied c) (- 1)) fns \<and>
               expired_post now (T\<lparr>m_previouseTime := now2\<rparr>) (io_timers m'))"
proof -
  let ?T = "io_timers m"
  have timeout: "fst (idle_timeout m) = (if m_timers ?T = [] then 5000
      else min (max 0 (Min ((\<lambda>t. m_next (heap ?T t)) ` set (m_timers ?T)) - io_clock m) div 1000000) 5000)"
  proof (cases "m_timers ?T")
    case Nil
    then show ?thesis by (simp add: timeout_value getNextTimer_def unsigned_minus_1_eq_mask mask_eq_exp_minus_1)
  next
    case (Cons t ts)
    have "Min ((\<lambda>t. m_next (heap ?T t)) ` set (m_timers ?T)) = m_next (heap ?T t)"
      using assms(1) Cons by (intro Min_eqI) (auto simp: tm_wf_def timer_less_def less_imp_le)
    with next_timer_value [OF Cons assms(2)] assms(3) Cons show ?thesis by (simp add: timeout_value)
  qed
  obtain T' where "listExpiredCb (io_clock m) now2 [] ?T = Some (map (\<lambda>t. tm_cb (heap ?T t))
      (takeWhile (due (io_clock m) ?T) (m_timers ?T)), T')"
    and post: "expired_post (io_clock m) (?T\<lparr>m_previouseTime := now2\<rparr>) T'"
    using listExpiredCb_correct_aux [OF assms(1,2,4,5), of "[]"] by auto
  with timeout schedule_all_spec [of _ "m\<lparr>io_timers := T'\<rparr>"] show ?thesis
    unfolding Let_def idle_timers_def by (auto; metis)
qed

lemma idle_serves_timers_witness:
  "\<exists>m'. idle_timers 6000000 (io0\<lparr>io_timers := M_demo, io_clock := 6000000\<rparr>) = Some (Inr m') \<and>
     m_tasks m' = [ScheduleTask (CbCopied (Some (UserFn 1))) (- 1)]"
proof -
  let ?m = "io0\<lparr>io_timers := M_demo, io_clock := 6000000\<rparr>"
  have "takeWhile (due 6000000 M_demo) (m_timers M_demo) = [0]"
    by (simp add: M_demo_fields due_def del: One_nat_def)
  moreover have "\<not> fst (detectClockRollover 6000000 M_demo)" by code_simp
  ultimately show ?thesis
    using idle_serves_timers [of ?m 6000000] M_demo_wf
    by (simp add: M_demo_fields clock_ok_def period_ok_def Let_def del: One_nat_def) blast
qed

text \<open>
  A wakeup can be missed. A task scheduled after a worker has found the queue empty, but before
  the worker counts itself idle, writes no byte; the worker then goes to sleep, for the full five
  seconds, with the task in the queue that it may run itself.
\<close>

lemma wakeup_can_be_missed:
  "\<exists>x. io_run io0 [Pushed io_task] x \<and> dom (workers x) = {5} \<and> workers x 5 = Some (1, IdleWork) \<and>
     m_tasks (ss x) = [io_task] \<and> st_thread io_task = - 1 \<and>
     pipe_bytes (ss x) = 0 \<and> fst (idle_timeout (ss x)) = 5000"
proof -
  obtain x where x: "io_run io0 [Pushed io_task] x" "workers x 5 = Some (1, IdleWork)"
    "m_tasks (ss x) = [io_task]" "pipe_bytes (ss x) = 0" "fst (idle_timeout (ss x)) = 5000"
    "dom (workers x) = {5}"
    using io_asleep by blast
  then show ?thesis by (auto simp: io_task_def)
qed

end
