(* ===== verification/IOManager_Stopping.thy ===== *)
theory IOManager_Stopping
  imports IOManager_Run
begin

text \<open>
  A running \<open>IOManager\<close> with the three reads of \<open>stopping()\<close> as separate steps: the timers under the timer
  manager's lock, the atomic count of pending events, and the base class under the scheduler's mutex.
  Between two of them every other thread may act. The properties of the workers in these runs; what a
  worker has seen when it leaves; and the event that is registered between two reads.
\<close>

section \<open>The reads as steps\<close>

text \<open>How far the thread is in the conjunction of \<open>stopping()\<close>: the read it makes next.\<close>

datatype reading = ToTimers | ToCount | ToBase

text \<open>
  The next statement of the worker \<open>th\<close>. In its idle fiber, at the test of the loop, it is the next read:
  one that fails makes \<open>stopping()\<close> false, so the loop goes on to wait; after the last has succeeded the
  idle function returns. All other statements are those of \<open>Scheduler::run\<close>.
\<close>

definition worker_stmt ::
  "bool \<Rightarrow> nat option \<Rightarrow> nat \<Rightarrow> nat \<Rightarrow> worker_pc \<Rightarrow> iomanager sys \<times> (nat \<Rightarrow> reading) \<Rightarrow>
   (iomanager sys \<times> (nat \<Rightarrow> reading)) result" where
  "worker_stmt stale mem th i pc s =
     (case s of (x, rd) \<Rightarrow>
        if pc = IdleCheck \<and> rd th = ToTimers then
          (case io_getNextTimer (ss x) of (timeout, m) \<Rightarrow>
             if timeout = no_timeout then Inr (x\<lparr>ss := m\<rparr>, rd(th := ToCount))
             else Inr (goto th IdleWork (x\<lparr>ss := m\<rparr>), rd))
        else if pc = IdleCheck \<and> rd th = ToCount then
          (if m_pendingEventCount (ss x) = 0 then Inr (x, rd(th := ToBase))
           else Inr (goto th IdleWork x, rd(th := ToTimers)))
        else
          and_then (run_stmt (IOManager_tickle 1) Scheduler_stopping stale mem th i pc x) (\<lambda>x'.
            Inr (x', rd(th := ToTimers))))"

text \<open>
  What the others do: start workers, run the functions of fibers, schedule, create and reset fibers, the
  operations of the manager and the bodies of the idle functions, at any moment. A \<open>stop()\<close> that returns at
  its first test changes nothing; one that goes on has found some read failed.
\<close>

abbreviation goes_on :: "iomanager \<Rightarrow> bool \<times> iomanager" where
  "goes_on m \<equiv> (False, m)"

inductive reads_step ::
  "iomanager sys \<times> (nat \<Rightarrow> reading) \<Rightarrow> action list \<Rightarrow> iomanager sys \<times> (nat \<Rightarrow> reading) \<Rightarrow> bool" where
  worker: "workers x th = Some (i, pc) \<Longrightarrow> pc \<noteq> Ended \<Longrightarrow> \<forall>f. pc \<noteq> Inside f \<Longrightarrow> \<not> blocked pc x \<Longrightarrow>
    worker_stmt stale mem th i pc (x, rd) = Inr (x', rd') \<Longrightarrow>
    reads_step (x, rd) (took th pc (workers x' th)) (x', rd')"
| other: "sched_step (IOManager_tickle 1) goes_on io_act x as x' \<Longrightarrow>
    \<forall>th i. workers x th = Some (i, IdleCheck) \<longrightarrow> workers x' th = Some (i, IdleCheck) \<Longrightarrow>
    reads_step (x, rd) as (x', rd)"

inductive reads_run :: "iomanager \<Rightarrow> action list \<Rightarrow> iomanager sys \<times> (nat \<Rightarrow> reading) \<Rightarrow> bool" for m where
  start: "reads_run m [] (sys_start m, \<lambda>_. ToTimers)"
| step: "reads_run m tr s \<Longrightarrow> reads_step s as s' \<Longrightarrow> reads_run m (tr @ as) s'"

inductive_cases reads_stepE: "reads_step (x, rd) as (x', rd')"

text \<open>
  Both ways to read keep the contract of the virtual functions: a test that always goes on, and the
  base class's.
\<close>

interpretation on: virtual_ops "IOManager_tickle 1" goes_on io_act
proof
  show "\<exists>m'. IOManager_tickle 1 m = Inr m'" for m by (rule io.tickle_total)
  show "IOManager_tickle 1 m = Inr m' \<Longrightarrow> scheduler.truncate m' = scheduler.truncate m" for m m'
    by (rule io.tickle_keeps)
  show "io_act m ts m' \<Longrightarrow>
      scheduler.truncate m' = (scheduler.truncate m)\<lparr>m_tasks := m_tasks m @ ts\<rparr> \<and> (\<forall>t \<in> set ts. has_work t)" for m ts m'
    by (rule io.act_keeps)
qed simp_all

interpretation last_read: virtual_ops "IOManager_tickle 1" Scheduler_stopping io_act
proof
  show "\<exists>m'. IOManager_tickle 1 m = Inr m'" for m by (rule io.tickle_total)
  show keeps: "IOManager_tickle 1 m = Inr m' \<Longrightarrow> scheduler.truncate m' = scheduler.truncate m" for m m'
    by (rule io.tickle_keeps)
  show "io_act m ts m' \<Longrightarrow>
      scheduler.truncate m' = (scheduler.truncate m)\<lparr>m_tasks := m_tasks m @ ts\<rparr> \<and> (\<forall>t \<in> set ts. has_work t)" for m ts m'
    by (rule io.act_keeps)
  show "IOManager_tickle 1 m = Inr m' \<Longrightarrow> fst (Scheduler_stopping m') = fst (Scheduler_stopping m)" for m m'
    using truncate_eqD [OF keeps [of m m']] by (simp add: Scheduler_stopping_def)
qed (simp_all add: Scheduler_stopping_def)

section \<open>Every step is one of a scheduler\<close>

lemma timers_act: "io_act m [] (snd (io_getNextTimer m))"
  by (simp add: io_act_def next_timer_snd io_step.timers)

text \<open>What a statement does, by the read it makes.\<close>

lemma worker_stmt_cases:
  assumes "worker_stmt stale mem th i pc (x, rd) = Inr (x', rd')"
  obtains (timers) "pc = IdleCheck" "rd th = ToTimers" "fst (io_getNextTimer (ss x)) = no_timeout"
      "x' = x\<lparr>ss := snd (io_getNextTimer (ss x))\<rparr>" "rd' = rd(th := ToCount)"
    | (armed) "pc = IdleCheck" "rd th = ToTimers" "fst (io_getNextTimer (ss x)) \<noteq> no_timeout"
      "x' = goto th IdleWork (x\<lparr>ss := snd (io_getNextTimer (ss x))\<rparr>)" "rd' = rd"
    | (count) "pc = IdleCheck" "rd th = ToCount" "m_pendingEventCount (ss x) = 0" "x' = x" "rd' = rd(th := ToBase)"
    | (pending) "pc = IdleCheck" "rd th = ToCount" "m_pendingEventCount (ss x) \<noteq> 0"
      "x' = goto th IdleWork x" "rd' = rd(th := ToTimers)"
    | (run) "pc = IdleCheck \<Longrightarrow> rd th = ToBase" "rd' = rd(th := ToTimers)"
      "run_stmt (IOManager_tickle 1) Scheduler_stopping stale mem th i pc x = Inr x'"
proof (cases "pc = IdleCheck \<and> rd th \<noteq> ToBase")
  case True
  obtain timeout m where t: "io_getNextTimer (ss x) = (timeout, m)" by (cases "io_getNextTimer (ss x)")
  from True consider "rd th = ToTimers" | "rd th = ToCount" by (cases "rd th") auto
  then show thesis
    using True t assms that(1-4) by cases (auto simp: worker_stmt_def split: if_splits)
next
  case False
  then have "and_then (run_stmt (IOManager_tickle 1) Scheduler_stopping stale mem th i pc x) (\<lambda>x'.
      Inr (x', rd(th := ToTimers))) = Inr (x', rd')"
    using assms by (cases "rd th") (auto simp: worker_stmt_def)
  then have "run_stmt (IOManager_tickle 1) Scheduler_stopping stale mem th i pc x = Inr x'"
    and "rd' = rd(th := ToTimers)" by (auto simp: result_simps)
  with False show thesis by (intro that(5)) (cases "rd th"; simp)+
qed

text \<open>A read that fails is the statement with a test that goes on.\<close>

lemma failed_read: "run_stmt tickle goes_on stale mem th i IdleCheck x = Inr (goto th IdleWork x)"
  by (cases x) simp

lemma reads_step_keeps:
  assumes step: "reads_step (x, rd) as (x', rd')" and inv: "sys_inv x"
  shows "sys_inv x'" and "queue_step (\<lambda>th. workers x th \<noteq> None) (m_tasks (ss x)) as (m_tasks (ss x'))"
    and "dom (workers x) \<subseteq> dom (workers x')"
proof -
  have idle: "sys_inv (goto th IdleWork y) \<and> m_tasks (ss (goto th IdleWork y)) = m_tasks (ss y) \<and>
      dom (workers (goto th IdleWork y)) = dom (workers y)"
    if y: "sys_inv y" "workers y th = Some (i, IdleCheck)" for y :: "iomanager sys" and th i
  proof -
    have "sched_step (IOManager_tickle 1) goes_on io_act y [] (goto th IdleWork y)"
      using sched_step.stmt [OF y(2) _ _ _ failed_read] by (simp add: blocked_def)
    from on.step_inv [OF this y(1)] y(2) show ?thesis by (auto simp: goto_def)
  qed
  have asked: "sys_inv (x\<lparr>ss := snd (io_getNextTimer (ss x))\<rparr>) \<and> m_tasks (snd (io_getNextTimer (ss x))) = m_tasks (ss x)"
    using on.step_inv [OF sched_step.operation [of io_act, OF timers_act] inv]
    by (simp add: next_timer_snd)
  have "sys_inv x' \<and> queue_step (\<lambda>th. workers x th \<noteq> None) (m_tasks (ss x)) as (m_tasks (ss x')) \<and>
      dom (workers x) \<subseteq> dom (workers x')"
  using step
  proof (rule reads_stepE)
    fix th i pc stale mem
    assume as: "as = took th pc (workers x' th)" and w: "workers x th = Some (i, pc)" "pc \<noteq> Ended"
      "\<forall>f. pc \<noteq> Inside f" "\<not> blocked pc x" and r: "worker_stmt stale mem th i pc (x, rd) = Inr (x', rd')"
    from r show ?thesis
    proof (cases rule: worker_stmt_cases)
      case run
      have "sched_step (IOManager_tickle 1) Scheduler_stopping io_act x as x'"
        unfolding as using w run(3) by (rule sched_step.stmt)
      from last_read.step_inv [OF this inv] last_read.step_queue [OF this inv] last_read.step_workers [OF this inv]
      show ?thesis by blast
    qed (use as w inv asked idle [of x th i] idle [of "x\<lparr>ss := snd (io_getNextTimer (ss x))\<rparr>" th i]
        in \<open>auto simp: queue_step_def\<close>)
  next
    assume "sched_step (IOManager_tickle 1) goes_on io_act x as x'"
    from on.step_inv [OF this inv] on.step_queue [OF this inv] on.step_workers [OF this inv]
    show ?thesis by blast
  qed
  then show "sys_inv x'" "queue_step (\<lambda>th. workers x th \<noteq> None) (m_tasks (ss x)) as (m_tasks (ss x'))"
    "dom (workers x) \<subseteq> dom (workers x')" by blast+
qed

lemma reads_inv:
  assumes "reads_run m tr s" and "sched_fresh m"
  shows "sys_inv (fst s)"
  using assms
proof (induction rule: reads_run.induct)
  case start
  then show ?case by (simp add: on.start_inv)
next
  case (step tr s as s')
  then show ?case using reads_step_keeps(1) [of "fst s" "snd s" as "fst s'" "snd s'"] by simp
qed

lemma reads_order:
  assumes "reads_run m tr s" and "sched_fresh m"
  shows "for_thread k (pushes tr) = for_thread k (map snd (takes tr)) @ for_thread k (m_tasks (ss (fst s))) \<and>
    (\<forall>(th, t) \<in> set (takes tr). workers (fst s) th \<noteq> None \<and> st_thread t \<in> {- 1, int th})"
  using assms
proof (induction rule: reads_run.induct)
  case start
  then show ?case by (simp add: sys_start_def sched_fresh_def)
next
  case (step tr s as s')
  have "reads_step (fst s, snd s) as (fst s', snd s')" using step.hyps(2) by simp
  from reads_step_keeps(2,3) [OF this reads_inv [OF step.hyps(1) step.prems]] step.IH [OF step.prems]
  show ?case by (rule queue_step_extends)
qed

text \<open>No statement aborts, and no read.\<close>

lemma worker_stmt_total:
  assumes inv: "sys_inv x" and "workers x th = Some (i, pc)" and "mem \<noteq> None"
  shows "\<exists>s'. worker_stmt stale mem th i pc (x, rd) = Inr s'"
proof -
  obtain x' where "run_stmt (IOManager_tickle 1) Scheduler_stopping stale mem th i pc x = Inr x'"
    using last_read.no_abort [OF assms] by blast
  then show ?thesis by (simp add: worker_stmt_def case_prod_beta)
qed

section \<open>Shutdown\<close>

text \<open>\<open>n\<close> steps of the workers alone, in any order: statements of \<open>run\<close> and reads of \<open>stopping()\<close>.\<close>

inductive own_reads ::
  "nat \<Rightarrow> iomanager sys \<times> (nat \<Rightarrow> reading) \<Rightarrow> iomanager sys \<times> (nat \<Rightarrow> reading) \<Rightarrow> bool" where
  none: "own_reads 0 s s"
| one: "own_reads n s (y, rd) \<Longrightarrow> workers y th = Some (i, pc) \<Longrightarrow> pc \<noteq> Ended \<Longrightarrow> \<not> blocked pc y \<Longrightarrow>
    worker_stmt stale mem th i pc (y, rd) = Inr s' \<Longrightarrow> own_reads (Suc n) s s'"

text \<open>The steps a worker has left: those of \<open>way_out\<close>, and the first two reads.\<close>

fun reads_left :: "reading \<Rightarrow> nat" where
  "reads_left ToTimers = 2"
| "reads_left ToCount = 1"
| "reads_left ToBase = 0"

definition steps_left :: "bool \<Rightarrow> worker_pc \<Rightarrow> reading \<Rightarrow> nat" where
  "steps_left over pc r =
     way_out over pc + (if way_out over pc < 5 then 0 else if pc = IdleCheck then reads_left r else 2)"

definition all_steps_left :: "iomanager sys \<times> (nat \<Rightarrow> reading) \<Rightarrow> nat" where
  "all_steps_left s = (case s of (x, rd) \<Rightarrow>
     \<Sum>th \<in> dom (workers x). case workers x th of
       Some (i, pc) \<Rightarrow> steps_left (state_of (sw x) i = TERM_state) pc (rd th) | None \<Rightarrow> 0)"

lemma steps_left_le: "steps_left over pc r \<le> 13"
  using way_out_le [of over pc] by (cases r) (auto simp: steps_left_def)

lemma all_steps_left_le: "all_steps_left (x, rd) \<le> 13 * card (dom (workers x))"
proof -
  have "all_steps_left (x, rd) \<le> (\<Sum>th \<in> dom (workers x). 13)"
    unfolding all_steps_left_def prod.case using steps_left_le by (intro sum_mono) (auto split: option.splits)
  then show ?thesis by simp
qed

lemma steps_left_less:
  "way_out over' pc' < way_out over pc \<Longrightarrow> (pc = IdleCheck \<Longrightarrow> r = ToBase) \<Longrightarrow>
     steps_left over' pc' r' < steps_left over pc r"
  by (cases r') (auto simp: steps_left_def split: if_splits)

text \<open>The reads of other threads do not make a condition of \<open>stopping()\<close> false.\<close>

lemma stopping_split:
  "fst (IOManager_stopping m) \<longleftrightarrow>
     fst (io_getNextTimer m) = no_timeout \<and> m_pendingEventCount m = 0 \<and> fst (Scheduler_stopping m)"
  unfolding stopping_parts Scheduler_stopping_def by auto

lemma stmt_keeps_io:
  assumes "run_stmt (IOManager_tickle 1) Scheduler_stopping stale mem th i pc x = Inr (x' :: iomanager sys)"
  shows "io_timers (ss x') = io_timers (ss x)" and "io_clock (ss x') = io_clock (ss x)"
    and "m_pendingEventCount (ss x') = m_pendingEventCount (ss x)"
proof -
  have tick: "IOManager_tickle 1 a = Inr b \<Longrightarrow> io_timers b = io_timers a \<and> io_clock b = io_clock a \<and>
      m_pendingEventCount b = m_pendingEventCount a" for a b
    by (auto simp: IOManager_tickle_def split: if_splits)
  have take: "run_take stale me a = Inr (tm, t, b) \<Longrightarrow> io_timers b = io_timers a \<and> io_clock b = io_clock a \<and>
      m_pendingEventCount b = m_pendingEventCount a" for me tm t and a b :: iomanager
    by (auto simp: run_take_def result_simps split: prod.splits option.splits)
  have "io_timers (ss x') = io_timers (ss x) \<and> io_clock (ss x') = io_clock (ss x) \<and>
      m_pendingEventCount (ss x') = m_pendingEventCount (ss x)"
    using assms
    by (cases pc)
      (auto simp: result_simps Scheduler_stopping_def split: option.splits if_splits prod.splits
        dest!: take tick)
  then show "io_timers (ss x') = io_timers (ss x)" "io_clock (ss x') = io_clock (ss x)"
    "m_pendingEventCount (ss x') = m_pendingEventCount (ss x)" by simp_all
qed

lemma stmt_keeps_reads:
  assumes "run_stmt (IOManager_tickle 1) Scheduler_stopping stale mem th i pc x = Inr (x' :: iomanager sys)"
  shows "fst (io_getNextTimer (ss x')) = fst (io_getNextTimer (ss x))"
  using stmt_keeps_io [OF assms] by (simp add: io_getNextTimer_def case_prod_beta)

text \<open>
  Once \<open>stopping()\<close> holds, a step of a worker keeps that so and is one towards its end. Every read
  succeeds.
\<close>

lemma own_read_decreases:
  assumes inv: "sys_inv x" and stp: "fst (IOManager_stopping (ss x))" and w: "workers x th = Some (i, pc)"
    and "pc \<noteq> Ended" and r: "worker_stmt stale mem th i pc (x, rd) = Inr (x', rd')"
  shows "sys_inv x' \<and> fst (IOManager_stopping (ss x')) \<and> dom (workers x') = dom (workers x) \<and>
    all_steps_left (x', rd') < all_steps_left (x, rd)"
proof -
  let ?left = "\<lambda>x rd t. case workers x t of
      Some (j, p) \<Rightarrow> steps_left (state_of (sw x) j = TERM_state) p (rd t) | None \<Rightarrow> 0"
  have less: "all_steps_left (x', rd') < all_steps_left (x, rd)"
    if "dom (workers x') = dom (workers x)" "?left x' rd' th < ?left x rd th"
      "\<And>t. t \<noteq> th \<Longrightarrow> ?left x' rd' t \<le> ?left x rd t"
    unfolding all_steps_left_def prod.case that(1)
  proof (rule sum_strict_mono_ex1 [OF sys_finite [OF inv]])
    show "\<forall>t \<in> dom (workers x). ?left x' rd' t \<le> ?left x rd t"
      using that(2,3) by (metis less_imp_le)
    show "\<exists>t \<in> dom (workers x). ?left x' rd' t < ?left x rd t"
      using that(2) w by (intro bexI [of _ th]) auto
  qed
  from r show ?thesis
  proof (cases rule: worker_stmt_cases)
    case timers
    have "sys_inv x'" unfolding timers(4)
      using on.step_inv [OF sched_step.operation [of io_act, OF timers_act] inv] by simp
    moreover have "fst (IOManager_stopping (ss x'))"
      using stp timers(4) io.stopping_again [of "ss x"] by (simp add: stopping_parts(2))
    moreover have "all_steps_left (x', rd') < all_steps_left (x, rd)"
      by (rule less) (use timers w in \<open>auto simp: steps_left_def split: option.splits\<close>)
    ultimately show ?thesis using timers(4) by simp
  next
    case count
    moreover from count have "all_steps_left (x', rd') < all_steps_left (x, rd)"
      by (intro less) (use w in \<open>auto simp: steps_left_def split: option.splits\<close>)
    ultimately show ?thesis using inv stp by simp
  next
    case run
    have base: "fst (Scheduler_stopping (ss x))" using stp by (simp add: stopping_split)
    note near = last_read.shutdown_worker [OF inv base w assms(4) run(3)]
    have "fst (IOManager_stopping (ss x'))"
      using stp near(2) stmt_keeps_io(3) [OF run(3)] stmt_keeps_reads [OF run(3)] by (simp add: stopping_split)
    moreover have "all_steps_left (x', rd') < all_steps_left (x, rd)"
    proof (rule less [OF near(3)])
      from near(4) obtain pc' where pc': "workers x' = (workers x)(th := Some (i, pc'))"
        "way_out (state_of (sw x') i = TERM_state) pc' < way_out (state_of (sw x) i = TERM_state) pc" by blast
      show "?left x' rd' th < ?left x rd th"
        using steps_left_less [OF pc'(2), of "rd th"] run(1) w by (simp add: pc'(1))
      show "?left x' rd' t \<le> ?left x rd t" if "t \<noteq> th" for t
        using that near(5) [of t] run(2) by (auto simp: pc'(1) split: option.splits)
    qed
    ultimately show ?thesis using near(1,3) by simp
  qed (use stp in \<open>simp_all add: stopping_split\<close>)
qed

lemma own_reads_bound:
  assumes "own_reads n s s'" and "sys_inv (fst s)" and "fst (IOManager_stopping (ss (fst s)))"
  shows "sys_inv (fst s') \<and> fst (IOManager_stopping (ss (fst s'))) \<and>
    dom (workers (fst s')) = dom (workers (fst s)) \<and> n + all_steps_left s' \<le> all_steps_left s"
  using assms
proof (induction rule: own_reads.induct)
  case (one n s y rd th i pc stale mem s')
  then have y: "sys_inv y" "fst (IOManager_stopping (ss y))" "dom (workers y) = dom (workers (fst s))"
    "n + all_steps_left (y, rd) \<le> all_steps_left s" by simp_all
  from own_read_decreases [OF y(1,2) one.hyps(2,3), of stale mem rd "fst s'" "snd s'"] one.hyps(5) y(3,4)
  show ?case by simp
qed simp

lemma own_reads_progress:
  assumes own: "own_reads n s (y, rd)" and "sys_inv (fst s)" and "fst (IOManager_stopping (ss (fst s)))"
    and w: "workers y th = Some (i, pc)" and "pc \<noteq> Ended"
  shows "\<exists>s'. own_reads (Suc n) s s'"
proof -
  have y: "sys_inv y" "fst (IOManager_stopping (ss y))" using own_reads_bound [OF assms(1-3)] by simp_all
  from io.quiescent [OF y] have "members busy y = {}" by blast
  then have "\<not> busy pc" using w by (auto simp: members_def)
  then have "\<not> blocked pc y" by (cases pc) (auto simp: blocked_def has_work_def)
  moreover obtain s' where "worker_stmt False (Some 0) th i pc (y, rd) = Inr s'"
    using worker_stmt_total [OF y(1) w] by blast
  ultimately show ?thesis using own_reads.one [OF own w assms(5)] by blast
qed

section \<open>What a worker has seen when it leaves\<close>

text \<open>Two states of a run between which the worker stays in one call of \<open>stopping()\<close>.\<close>

definition in_call :: "nat \<Rightarrow> nat \<Rightarrow> iomanager sys \<times> (nat \<Rightarrow> reading) \<Rightarrow> iomanager sys \<times> (nat \<Rightarrow> reading) \<Rightarrow> bool" where
  "in_call th i s s' \<longleftrightarrow> (\<exists>as. reads_step s as s') \<and>
     workers (fst s) th = Some (i, IdleCheck) \<and> workers (fst s') th = Some (i, IdleCheck)"

definition reads_at :: "iomanager sys \<times> (nat \<Rightarrow> reading) \<Rightarrow> bool" where
  "reads_at s \<longleftrightarrow> (\<forall>th. snd s th \<noteq> ToTimers \<longrightarrow> (\<exists>i. workers (fst s) th = Some (i, IdleCheck)))"

lemma reads_step_at:
  assumes step: "reads_step (x, rd) as (x', rd')" and inv: "sys_inv x" and at: "reads_at (x, rd)"
    and later: "rd' th \<noteq> ToTimers"
  shows "\<exists>i. workers x th = Some (i, IdleCheck) \<and> workers x' th = Some (i, IdleCheck) \<and>
    (rd' th = rd th \<or>
     rd th = ToTimers \<and> rd' th = ToCount \<and> fst (io_getNextTimer (ss x)) = no_timeout \<or>
     rd th = ToCount \<and> rd' th = ToBase \<and> m_pendingEventCount (ss x) = 0)"
  using step
proof (rule reads_stepE)
  fix t i pc stale mem
  assume w: "workers x t = Some (i, pc)" "pc \<noteq> Ended" "\<forall>f. pc \<noteq> Inside f" "\<not> blocked pc x"
    and r: "worker_stmt stale mem t i pc (x, rd) = Inr (x', rd')"
  have there: "\<exists>i. workers x th = Some (i, IdleCheck)" if "rd th \<noteq> ToTimers"
    using at that by (simp add: reads_at_def)
  from r show ?thesis
  proof (cases rule: worker_stmt_cases)
    case run
    from last_read.stmt_moves [OF inv w run(3)] later run(2) obtain pc' where
      "workers x' = (workers x)(t := Some (i, pc'))" by (auto simp: worker_moves_def)
    moreover have "t \<noteq> th" using later run(2) by auto
    ultimately show ?thesis using later run(2) there by auto
  qed (use w later there in \<open>auto simp: goto_def split: if_splits\<close>)
next
  assume "rd' = rd" and stay: "\<forall>th i. workers x th = Some (i, IdleCheck) \<longrightarrow> workers x' th = Some (i, IdleCheck)"
  moreover from this later at obtain i where "workers x th = Some (i, IdleCheck)" by (auto simp: reads_at_def)
  ultimately show ?thesis by auto
qed

lemma reads_at_run:
  assumes "reads_run m tr s" and "sched_fresh m"
  shows "reads_at s"
  using assms
proof (induction rule: reads_run.induct)
  case start
  then show ?case by (simp add: reads_at_def)
next
  case (step tr s as s')
  have "reads_step (fst s, snd s) as (fst s', snd s')" using step.hyps(2) by simp
  from reads_step_at [OF this reads_inv [OF step.hyps(1) step.prems]] step.IH [OF step.prems]
  show ?case unfolding reads_at_def by fastforce
qed

text \<open>
  The moments of the earlier reads: a worker that comes to the count has seen no timer armed, one that
  comes to the base class has after that seen the count at zero.
\<close>

definition saw_no_timer where
  "saw_no_timer m th i s \<longleftrightarrow> (\<exists>tr1 s1. reads_run m tr1 s1 \<and> snd s1 th = ToTimers \<and>
     fst (io_getNextTimer (ss (fst s1))) = no_timeout \<and> (in_call th i)\<^sup>+\<^sup>+ s1 s)"

definition saw_no_event where
  "saw_no_event m th i s \<longleftrightarrow> (\<exists>tr2 s2. reads_run m tr2 s2 \<and> snd s2 th = ToCount \<and>
     m_pendingEventCount (ss (fst s2)) = 0 \<and> saw_no_timer m th i s2 \<and> (in_call th i)\<^sup>+\<^sup>+ s2 s)"

lemma saw_later:
  assumes "in_call th i s s'"
  shows "saw_no_timer m th i s \<Longrightarrow> saw_no_timer m th i s'" and "saw_no_event m th i s \<Longrightarrow> saw_no_event m th i s'"
proof -
  have later: "(in_call th i)\<^sup>+\<^sup>+ s1 s \<Longrightarrow> (in_call th i)\<^sup>+\<^sup>+ s1 s'" for s1
    by (rule tranclp.trancl_into_trancl, assumption, rule assms)
  show "saw_no_timer m th i s \<Longrightarrow> saw_no_timer m th i s'" "saw_no_event m th i s \<Longrightarrow> saw_no_event m th i s'"
    unfolding saw_no_timer_def saw_no_event_def using later by blast+
qed

lemma reads_history:
  assumes "reads_run m tr s" and "sched_fresh m" and "workers (fst s) th = Some (i, IdleCheck)"
  shows "(snd s th = ToCount \<longrightarrow> saw_no_timer m th i s) \<and> (snd s th = ToBase \<longrightarrow> saw_no_event m th i s)"
  using assms
proof (induction arbitrary: i rule: reads_run.induct)
  case start
  then show ?case by simp
next
  case (step tr s as s')
  note run = step.hyps(1) and one = step.hyps(2) and fresh = step.prems(1) and w' = step.prems(2)
  show ?case
  proof (cases "snd s' th = ToTimers")
    case False
    have "reads_step (fst s, snd s) as (fst s', snd s')" using one by simp
    from reads_step_at [OF this reads_inv [OF run fresh] _ False] reads_at_run [OF run fresh] w'
    have w: "workers (fst s) th = Some (i, IdleCheck)"
      and d: "snd s' th = snd s th \<or>
        snd s th = ToTimers \<and> snd s' th = ToCount \<and> fst (io_getNextTimer (ss (fst s))) = no_timeout \<or>
        snd s th = ToCount \<and> snd s' th = ToBase \<and> m_pendingEventCount (ss (fst s)) = 0" by auto
    have call: "in_call th i s s'" using one w w' by (auto simp: in_call_def)
    note IH = step.IH [OF fresh w]
    show ?thesis
    proof (cases "snd s' th = snd s th")
      case True
      with IH saw_later [OF call] show ?thesis by auto
    next
      case moved: False
      with d consider "snd s th = ToTimers" "snd s' th = ToCount" "fst (io_getNextTimer (ss (fst s))) = no_timeout"
        | "snd s th = ToCount" "snd s' th = ToBase" "m_pendingEventCount (ss (fst s)) = 0" by blast
      then show ?thesis
      proof cases
        case 1
        with run call have "saw_no_timer m th i s'" unfolding saw_no_timer_def by blast
        with 1 show ?thesis by simp
      next
        case 2
        with run call IH have "saw_no_event m th i s'" unfolding saw_no_event_def by blast
        with 2 show ?thesis by simp
      qed
    qed
  qed simp
qed

section \<open>A call that nothing interrupts\<close>

text \<open>
  When no other thread acts between the reads, they come to the atomic test: the runs of \<open>IOManager_Run\<close> are
  runs here.
\<close>

lemma run_stmt_stopping: "pc \<noteq> IdleCheck \<Longrightarrow>
  run_stmt tickle stopping1 stale mem th i pc x = run_stmt tickle stopping2 stale mem th i pc x"
  by (cases pc) simp_all

lemma reads_other:
  assumes "reads_run m tr (x, rd)" and "sched_step (IOManager_tickle 1) goes_on io_act x as x'"
    and "\<forall>th i. workers x th = Some (i, IdleCheck) \<longrightarrow> workers x' th = Some (i, IdleCheck)"
  shows "reads_run m (tr @ as) (x', rd)"
  using reads_run.step [OF assms(1) reads_step.other [OF assms(2,3)]] .

lemma reads_worker:
  assumes "reads_run m tr (x, rd)" and "workers x th = Some (i, IdleCheck)"
    and "worker_stmt stale mem th i IdleCheck (x, rd) = Inr (x', rd')"
  shows "reads_run m tr (x', rd')"
  using reads_run.step [OF assms(1) reads_step.worker [OF assms(2) _ _ _ assms(3)]] by (simp add: blocked_def)

lemma atomic_check:
  assumes run: "reads_run m tr (x, \<lambda>_. ToTimers)" and w: "workers x th = Some (i, IdleCheck)"
    and r: "atomic_stmt stale mem th i IdleCheck x = Inr x'"
  shows "reads_run m tr (x', \<lambda>_. ToTimers)"
proof -
  obtain ms m1 where t: "io_getNextTimer (ss x) = (ms, m1)" by (cases "io_getNextTimer (ss x)")
  let ?x1 = "x\<lparr>ss := m1\<rparr>"
  have stop: "IOManager_stopping (ss x) =
      (ms = no_timeout \<and> m_pendingEventCount m1 = 0 \<and> fst (Scheduler_stopping m1), m1)"
    by (simp add: IOManager_stopping_def t)
  have base: "Scheduler_stopping m1 = (fst (Scheduler_stopping m1), m1)" by (simp add: Scheduler_stopping_def)
  have same: "(\<lambda>_. ToTimers)(th := ToTimers) = (\<lambda>_. ToTimers)" by auto
  show ?thesis
  proof (cases "ms = no_timeout")
    case False
    then have "worker_stmt stale mem th i IdleCheck (x, \<lambda>_. ToTimers) = Inr (x', \<lambda>_. ToTimers)"
      using r by (simp add: worker_stmt_def t stop)
    then show ?thesis by (rule reads_worker [OF run w])
  next
    case True
    have r1: "reads_run m tr (?x1, (\<lambda>_. ToTimers)(th := ToCount))"
      by (rule reads_worker [OF run w]) (simp add: worker_stmt_def t True)
    have w1: "workers ?x1 th = Some (i, IdleCheck)" using w by simp
    show ?thesis
    proof (cases "m_pendingEventCount m1 = 0")
      case False
      then have "worker_stmt stale mem th i IdleCheck (?x1, (\<lambda>_. ToTimers)(th := ToCount)) = Inr (x', \<lambda>_. ToTimers)"
        using r by (simp add: worker_stmt_def stop True same)
      then show ?thesis by (rule reads_worker [OF r1 w1])
    next
      case none: True
      have r2: "reads_run m tr (?x1, (\<lambda>_. ToTimers)(th := ToBase))"
        by (rule reads_worker [OF r1 w1]) (simp add: worker_stmt_def none)
      have "run_stmt (IOManager_tickle 1) Scheduler_stopping stale mem th i IdleCheck ?x1 = Inr x'"
        using r base by (cases "fst (Scheduler_stopping m1)") (simp_all add: stop True none prod.case_eq_if)
      then have "worker_stmt stale mem th i IdleCheck (?x1, (\<lambda>_. ToTimers)(th := ToBase)) = Inr (x', \<lambda>_. ToTimers)"
        by (simp add: worker_stmt_def same del: run_stmt.simps)
      then show ?thesis by (rule reads_worker [OF r2 w1])
    qed
  qed
qed

lemma atomic_stop:
  assumes run: "reads_run m tr (x, rd)"
    and r: "stop_request (IOManager_tickle 1) IOManager_stopping own (ss x) = Inr (b, s)"
  shows "reads_run m tr (x\<lparr>ss := s\<rparr>, rd)"
proof -
  let ?x = "x\<lparr>ss := snd (io_getNextTimer (ss x))\<rparr>"
  have asked: "reads_run m tr (?x, rd)"
    using reads_other [OF run sched_step.operation [of io_act, OF timers_act]] by simp
  show ?thesis
  proof (cases "fst (IOManager_stopping (ss x))")
    case True
    then have "s = snd (io_getNextTimer (ss x))"
      using r by (cases "IOManager_stopping (ss x)") (auto simp: stop_request_def stopping_parts(2) [symmetric])
    with asked show ?thesis by simp
  next
    case False
    then have "stop_request (IOManager_tickle 1) goes_on own (ss ?x) = Inr (b, s)"
      using r by (cases "IOManager_stopping (ss x)") (simp add: stop_request_def stopping_parts(2) [symmetric])
    from reads_other [OF asked sched_step.stop [OF this]] show ?thesis by simp
  qed
qed

lemma atomic_run:
  assumes "io_run m tr x"
  shows "reads_run m tr (x, \<lambda>_. ToTimers)"
  using assms
proof (induction rule: sched_run.induct)
  case start
  show ?case by (rule reads_run.start)
next
  case (step tr x as x')
  note run = step.IH
  from step.hyps(2) show ?case
  proof (cases rule: sched_step.cases)
    case (stmt th i pc stale mem)
    show ?thesis
    proof (cases "pc = IdleCheck")
      case True
      with atomic_check [OF run] stmt show ?thesis by simp
    next
      case False
      have "(\<lambda>_. ToTimers)(th := ToTimers) = (\<lambda>_. ToTimers)" by auto
      then have "worker_stmt stale mem th i pc (x, \<lambda>_. ToTimers) = Inr (x', \<lambda>_. ToTimers)"
        using stmt(6) False run_stmt_stopping [OF False, of _ IOManager_stopping _ _ _ _ _ Scheduler_stopping]
        by (simp add: worker_stmt_def)
      from reads_run.step [OF run reads_step.worker [OF stmt(2-5) this]] stmt(1) show ?thesis by simp
    qed
  next
    case (stop own b s)
    with atomic_stop [OF run stop(3)] show ?thesis by simp
  next
    case (spawn th junk mem i W)
    from reads_other [OF run sched_step.spawn [OF spawn(3-6)]] spawn show ?thesis by auto
  next
    case (fiber_yield th i f W)
    from reads_other [OF run sched_step.fiber_yield [OF fiber_yield(3,4)]] fiber_yield show ?thesis
      by (auto simp: goto_def split: if_splits)
  next
    case (fiber_end th i f W)
    from reads_other [OF run sched_step.fiber_end [OF fiber_end(3,4)]] fiber_end show ?thesis
      by (auto simp: goto_def split: if_splits)
  next
    case (operation ts s)
    from reads_other [OF run sched_step.operation [of io_act x ts s, OF operation(3,4)]] operation show ?thesis by simp
  next
    case (schedule task fc thread s)
    from reads_other [OF run sched_step.schedule [OF schedule(3-5)]] schedule show ?thesis by simp
  next
    case (attach th junk f W)
    from reads_other [OF run sched_step.attach [OF attach(3,4)]] attach show ?thesis by simp
  next
    case (create cb sz mem f W)
    from reads_other [OF run sched_step.create [OF create(3)]] create show ?thesis by simp
  next
    case (reset f cb W)
    from reads_other [OF run sched_step.reset [OF reset(3,4)]] reset show ?thesis by simp
  qed
qed

section \<open>The workers\<close>

text \<open>
  C13. The workers of an \<open>IOManager\<close> inherit what holds of the scheduler's, in every interleaving of their
  statements and of the single reads of \<open>stopping()\<close> with each other, with the functions of the fibers and
  with the operations of the manager, under the provisos of C1. No statement of \<open>Scheduler::run\<close> and no read
  aborts; the bodies of the idle functions are not among these statements, and may (C37). Every task
  scheduled by code, events or timers is taken exactly once or still queued, in order. Once no timer is armed,
  no event pending and the base class done, and only the workers go on, they take together at most
  thirteen times their number of further steps, a read of \<open>stopping()\<close> being one, and the next is possible until \<open>run\<close> has returned in all of them;
  then deleting the manager succeeds, and closes the \<open>epoll\<close> descriptor and the two ends of the pipe. The
  write in \<open>tickle\<close> is taken to return 1: the constructor makes only the read end of the pipe non-blocking,
  so with a full pipe the write blocks.
\<close>

theorem io_workers_safe:
  assumes "IOManager_construct self clock epfd fds rts mk tm s = Inr m" and "sched_fresh s"
    and "reads_run m tr (x, rd)"
  shows "(\<forall>th i pc stale mem. workers x th = Some (i, pc) \<longrightarrow> mem \<noteq> None \<longrightarrow>
            (\<exists>s'. worker_stmt stale mem th i pc (x, rd) = Inr s')) \<and>
         (\<forall>k. for_thread k (pushes tr) = for_thread k (map snd (takes tr)) @ for_thread k (m_tasks (ss x))) \<and>
         (\<forall>n y rd'. fst (IOManager_stopping (ss x)) \<longrightarrow> own_reads n (x, rd) (y, rd') \<longrightarrow>
            n \<le> 13 * card (dom (workers x)) \<and>
            (\<forall>th i pc. workers y th = Some (i, pc) \<longrightarrow> pc = Ended \<or>
               (\<exists>s'. own_reads (Suc n) (x, rd) s')) \<and>
            ((\<forall>th i pc. workers y th = Some (i, pc) \<longrightarrow> pc = Ended) \<longrightarrow>
               (\<exists>m' R'. IOManager_delete own joined me (ss y) R = Inr (m', R') \<and> m_fdContexts m' = [] \<and>
                  closed_fds m' = closed_fds (ss y) @
                    [m_epfd (ss y), fst (m_tickleFds (ss y)), snd (m_tickleFds (ss y))])))"
proof -
  have fresh: "sched_fresh m" by (rule construct_fresh [OF assms(1,2)])
  have inv: "sys_inv x" using reads_inv [OF assms(3) fresh] by simp
  have bound: "n \<le> 13 * card (dom (workers x)) \<and> fst (IOManager_stopping (ss y))"
    if "fst (IOManager_stopping (ss x))" "own_reads n (x, rd) (y, rd')" for n y rd'
  proof -
    from own_reads_bound [OF that(2)] inv that(1)
    have y: "fst (IOManager_stopping (ss y))" and "n + all_steps_left (y, rd') \<le> all_steps_left (x, rd)" by simp_all
    then have "n \<le> all_steps_left (x, rd)" by simp
    with y order.trans [OF _ all_steps_left_le] show ?thesis by blast
  qed
  have del: "\<exists>m' R'. IOManager_delete own joined me (ss y) R = Inr (m', R') \<and> m_fdContexts m' = [] \<and>
      closed_fds m' = closed_fds (ss y) @ [m_epfd (ss y), fst (m_tickleFds (ss y)), snd (m_tickleFds (ss y))]"
    if "fst (IOManager_stopping (ss y))" for y
    using delete_stopping [OF that] by blast
  have next_step: "pc = Ended \<or> (\<exists>s'. own_reads (Suc n) (x, rd) s')"
    if "fst (IOManager_stopping (ss x))" "own_reads n (x, rd) (y, rd')" "workers y th = Some (i, pc)" for n y rd' th i pc
    using own_reads_progress [OF that(2) _ _ that(3)] inv that(1) by auto
  show ?thesis
    using worker_stmt_total [OF inv] reads_order [OF assms(3) fresh] bound del next_step
    by (intro conjI allI impI) (simp_all, blast+)
qed

lemma last_read_leaves:
  assumes inv: "sys_inv x" and w: "workers x th = Some (i, IdleCheck)"
    and r: "run_stmt tickle Scheduler_stopping stale mem th i IdleCheck x = Inr x'"
    and stop: "fst (Scheduler_stopping (ss x))"
  shows "workers x' = (workers x)(th := Some (i, IdleLeave))" and "state_of (sw x') i = TERM_state"
    and "ss x' = ss x"
proof -
  obtain W where W: "main_func_return True th i (sw x) = Inr W"
    and x': "x' = goto th IdleLeave (x\<lparr>ss := snd (Scheduler_stopping (ss x)), sw := W\<rparr>)"
    using r stop check_leaves [of Scheduler_stopping x] by (cases "main_func_return True th i (sw x)") auto
  obtain mf where "W = yielded th mf i (upd_fiber i (\<lambda>b. b\<lparr>fb_cb := None, m_state := TERM_state\<rparr>) (sw x))"
    using leave_fiber [OF inv w, of i] W by (metis stack_at.simps sum.inject(2))
  then have "state_of W i = TERM_state" by (simp add: yielded_def)
  with x' w show "workers x' = (workers x)(th := Some (i, IdleLeave))" "state_of (sw x') i = TERM_state"
    "ss x' = ss x" by (simp_all add: goto_def Scheduler_stopping_def)
qed

text \<open>
  C14. What a worker of an \<open>IOManager\<close> has seen when it gives up. At the test of its idle function it makes
  the next read of \<open>stopping()\<close>. A read that fails sends it on to wait; a read that succeeds leads to the
  next one; and the idle fiber ends exactly when the third succeeds, which is when \<open>stop\<close> was called, the
  queue is empty and no worker has a task in hand. It has then, at earlier moments of the same call, seen
  the count of pending events at zero and before that no timeout, that is, no timer armed. The three
  conditions need not hold at one moment: see \<open>event_missed_between_reads\<close> below.
\<close>

theorem io_leaves_after_three_reads:
  assumes "sched_fresh m" and "reads_run m tr (x, rd)" and "workers x th = Some (i, IdleCheck)"
    and "worker_stmt stale mem th i IdleCheck (x, rd) = Inr (x', rd')"
  shows "let succeeds = (case rd th of
             ToTimers \<Rightarrow> fst (io_getNextTimer (ss x)) = no_timeout
           | ToCount \<Rightarrow> m_pendingEventCount (ss x) = 0
           | ToBase \<Rightarrow> m_stopping (ss x) \<and> m_tasks (ss x) = [] \<and> members busy x = {})
         in workers x' th = Some (i, if \<not> succeeds then IdleWork else if rd th = ToBase then IdleLeave else IdleCheck) \<and>
            (succeeds \<and> rd th \<noteq> ToBase \<longrightarrow> rd' th = (if rd th = ToTimers then ToCount else ToBase)) \<and>
            (state_of (sw x') i = TERM_state \<longleftrightarrow> succeeds \<and> rd th = ToBase) \<and>
            (rd th = ToCount \<longrightarrow> saw_no_timer m th i (x, rd)) \<and>
            (rd th = ToBase \<longrightarrow> saw_no_event m th i (x, rd))"
proof -
  have inv: "sys_inv x" using reads_inv [OF assms(2,1)] by simp
  have running: "state_of (sw x) i = RUNNING" using on_stack_running [OF inv assms(3), of i] by simp
  have hist: "rd th = ToCount \<Longrightarrow> saw_no_timer m th i (x, rd)" "rd th = ToBase \<Longrightarrow> saw_no_event m th i (x, rd)"
    using reads_history [OF assms(2,1)] assms(3) by simp_all
  show ?thesis
  proof (cases "rd th = ToBase")
    case True
    have r: "run_stmt (IOManager_tickle 1) Scheduler_stopping stale mem th i IdleCheck x = Inr x'"
      by (rule worker_stmt_cases [OF assms(4)]) (use True in auto)
    have "m_activeThreadCount (ss x) = 0 \<longleftrightarrow> members busy x = {}"
      using io.counters(1) [OF inv] members_finite [OF sys_finite [OF inv], of busy]
      by (metis card_0_eq unat_eq_zero)
    then have stop: "fst (Scheduler_stopping (ss x)) \<longleftrightarrow>
        m_stopping (ss x) \<and> m_tasks (ss x) = [] \<and> members busy x = {}" by (simp add: Scheduler_stopping_def)
    show ?thesis
    proof (cases "fst (Scheduler_stopping (ss x))")
      case leaves: True
      from last_read_leaves [OF inv assms(3) r leaves] True assms(3) leaves hist
      show ?thesis by (simp add: Let_def stop [symmetric])
    next
      case False
      then have "x' = goto th IdleWork (x\<lparr>ss := snd (Scheduler_stopping (ss x))\<rparr>)"
        using r check_stays [of Scheduler_stopping x] by simp
      with True False running assms(3) hist show ?thesis by (simp add: Let_def goto_def stop [symmetric])
    qed
  next
    case False
    show ?thesis
      by (rule worker_stmt_cases [OF assms(4)]) (use False running assms(3) hist in \<open>auto simp: Let_def goto_def\<close>)
  qed
qed

text \<open>
  When a byte is written to wake a waiting worker: scheduling writes one exactly if the queue was
  empty and some worker is in its idle function or on the way in or out, and adding a timer exactly if
  the timer manager reports it at the front and there is such a worker.
\<close>

lemma wakeups_exact:
  assumes "sched_fresh m" and "reads_run m tr (x, rd)"
  shows "let some_idle = (\<exists>th i pc. workers x th = Some (i, pc) \<and> idling pc)
         in (\<exists>s. scheduleLock (IOManager_tickle 1) fc k (ss x) = Inr s \<and>
               pipe_bytes s = pipe_bytes (ss x) + (if m_tasks (ss x) = [] \<and> some_idle then 1 else 0)) \<and>
            (\<exists>t s. io_addTimer 1 ms cb recurring (ss x) = Inr (t, s) \<and>
               pipe_bytes s = pipe_bytes (ss x) +
                 (if fst (snd (addTimer (io_clock (ss x)) ms cb recurring (io_timers (ss x)))) \<and> some_idle
                  then 1 else 0))"
proof -
  have idle: "hasIdleThreads (ss x) \<longleftrightarrow> (\<exists>th i pc. workers x th = Some (i, pc) \<and> idling pc)"
    using io.counters(3) reads_inv [OF assms(2,1)] by simp
  obtain t front T where a: "addTimer (io_clock (ss x)) ms cb recurring (io_timers (ss x)) = (t, front, T)"
    by (cases "addTimer (io_clock (ss x)) ms cb recurring (io_timers (ss x))")
  show ?thesis
    unfolding Let_def idle [symmetric] a
    by (simp add: scheduleLock_io pushed_def io_addTimer_def onTimerInsertedAtFront_def IOManager_tickle_def
        a hasIdleThreads_def Let_def)
qed


section \<open>An event between two reads\<close>

text \<open>A worker that has made the first two reads, of a manager without timers and events.\<close>

abbreviation io_quiet :: iomanager where
  "io_quiet \<equiv> io0\<lparr>m_tasks := [], m_idleThreadCount := 1, io_timers := (new_manager 0)\<lparr>m_tickled := False\<rparr>\<rparr>"

lemma two_reads:
  "\<exists>x rd. reads_run io0 [] (x, rd) \<and> workers x 5 = Some (1, IdleCheck) \<and> rd 5 = ToBase \<and>
     dom (workers x) = {5} \<and> ss x = io_quiet"
proof -
  obtain x where x: "io_run io0 [] x" "workers x 5 = Some (1, IdleCheck)" "dom (workers x) = {5}"
    "ss x = io0\<lparr>m_tasks := [], m_idleThreadCount := 1\<rparr>"
    using io_enters [OF io_took_nothing] by blast
  let ?x = "x\<lparr>ss := snd (io_getNextTimer (ss x))\<rparr>"
  have none: "fst (io_getNextTimer (ss x)) = no_timeout"
    by (simp add: x(4) io_getNextTimer_def getNextTimer_def new_manager_def)
  have quiet: "ss ?x = io_quiet" by (simp add: next_timer_snd x(4))
  have "reads_run io0 [] (?x, (\<lambda>_. ToTimers)(5 := ToCount))"
    by (rule reads_worker [OF atomic_run [OF x(1)] x(2)])
      (simp add: worker_stmt_def none prod.case_eq_if)
  moreover have w: "workers ?x 5 = Some (1, IdleCheck)" using x(2) by simp
  ultimately have "reads_run io0 [] (?x, (\<lambda>_. ToTimers)(5 := ToBase))"
    by (rule reads_worker) (simp add: worker_stmt_def quiet del: sys.simps)
  moreover have "dom (workers ?x) = {5}" using x(3) by simp
  ultimately show ?thesis using w quiet by (intro exI conjI) (assumption | simp)+
qed

text \<open>
  \<open>stopping()\<close> can be true although an event is registered. A worker has seen no timer and the count at
  zero; then a thread of the scheduler registers an event, and \<open>stop\<close> is called, which sees the event and
  goes on to wait for the workers. The worker makes its last read, and its idle fiber ends: nobody is left to
  serve the event.
\<close>

lemma event_missed_between_reads:
  "\<exists>x rd m1 m2 x' rd'. reads_run io0 [] (x, rd) \<and> workers x 5 = Some (1, IdleCheck) \<and> rd 5 = ToBase \<and> dom (workers x) = {5} \<and>
     addEvent 0 False 3 (Some 1) 7 READ_event (Some (UserFn 9)) (ss x) (sw x) = Inr (0, m1, sw x) \<and>
     stop_request (IOManager_tickle 1) IOManager_stopping False m1 = Inr (True, m2) \<and>
     reads_run io0 [] (x\<lparr>ss := m2\<rparr>, rd) \<and>
     worker_stmt True (Some 9) 5 1 IdleCheck (x\<lparr>ss := m2\<rparr>, rd) = Inr (x', rd') \<and>
     dom (workers x') = {5} \<and> workers x' 5 = Some (1, IdleLeave) \<and> state_of (sw x') 1 = TERM_state \<and>
     is_registered 7 READ_event (ss x') \<and> m_pendingEventCount (ss x') = 1"
proof -
  obtain x rd where x: "reads_run io0 [] (x, rd)" "workers x 5 = Some (1, IdleCheck)" "rd 5 = ToBase"
    "ss x = io_quiet" "dom (workers x) = {5}" using two_reads by blast
  have "io_reach io_quiet" by (rule io_reach.op [OF io0_reach io_op.other]) simp_all
  let ?ec = "\<lparr>ec_scheduler = Some 1, ec_fiber = None, ec_cb = Some (UserFn 9)\<rparr>"
  let ?m1 = "after_add 7 READ_event ?ec io_quiet" let ?m2 = "?m1\<lparr>m_stopping := True\<rparr>"
  have add: "addEvent 0 False 3 (Some 1) 7 READ_event (Some (UserFn 9)) (ss x) (sw x) = Inr (0, ?m1, sw x)"
    using addEvent_cb_spec [OF io_reach_inv [OF \<open>io_reach io_quiet\<close>], of 7 READ_event]
    by (simp add: x(4) valid_event_def new_fd_context_def)
  then have "io_act (ss x) [] ?m1" by (auto simp: io_act_def after_add_def x(4) intro: io_step.add)
  from reads_other [OF x(1) sched_step.operation [of io_act, OF this]]
  have r1: "reads_run io0 [] (x\<lparr>ss := ?m1\<rparr>, rd)" by simp
  have fixed: "m_threadCount io0 = 0" "\<not> m_useCaller io0" "m_schedulerFiber io0 = None" "m_activeThreadCount io0 = 0"
    by (simp_all add: io0_def IOManager_construct_def start_def new_scheduler_def scheduler.extend_def
        contextResize_def Let_def)
  have stop: "stop_request (IOManager_tickle 1) IOManager_stopping False ?m1 = Inr (True, ?m2)"
    by (simp add: stop_request_def IOManager_stopping_def io_getNextTimer_def getNextTimer_def new_manager_def
        after_add_def fixed Let_def)
  from atomic_stop [OF r1] stop have r2: "reads_run io0 [] (x\<lparr>ss := ?m2\<rparr>, rd)" by simp
  obtain x' rd' where x': "worker_stmt True (Some 9) 5 1 IdleCheck (x\<lparr>ss := ?m2\<rparr>, rd) = Inr (x', rd')"
    using worker_stmt_total [OF reads_inv [OF r2 io0_fresh, simplified], of 5 1 IdleCheck "Some 9" True rd] x(2) by auto
  have base: "run_stmt (IOManager_tickle 1) Scheduler_stopping True (Some 9) 5 1 IdleCheck (x\<lparr>ss := ?m2\<rparr>) = Inr x'"
    by (rule worker_stmt_cases [OF x']) (use x(3) in auto)
  have "fst (Scheduler_stopping (ss (x\<lparr>ss := ?m2\<rparr>)))"
    by (simp add: Scheduler_stopping_def after_add_def fixed)
  note left = last_read_leaves [OF reads_inv [OF r2 io0_fresh, unfolded fst_conv] _ base this]
  have "workers x' 5 = Some (1, IdleLeave)" "dom (workers x') = {5}" "state_of (sw x') 1 = TERM_state" "ss x' = ?m2"
    using left x(2,5) by auto
  moreover from this have "is_registered 7 READ_event (ss x')" "m_pendingEventCount (ss x') = 1"
    by (simp_all add: is_registered_def after_add_def new_fd_context_def valid_event_def)
  ultimately show ?thesis using x add stop r2 x' by (intro exI [of _ x] exI) (intro conjI; assumption)
qed

lemma io_workers_safe_witness:
  "\<exists>x. reads_run io0 [Pushed io_task] (x, \<lambda>_. ToTimers) \<and>
     (\<exists>s'. worker_stmt True (Some 9) 5 1 IdleWork (x, \<lambda>_. ToTimers) = Inr s') \<and>
     for_thread (- 1) (m_tasks (ss x)) = [io_task]"
proof -
  obtain x where x: "io_run io0 [Pushed io_task] x" "workers x 5 = Some (1, IdleWork)"
    using io_asleep by blast
  note run = atomic_run [OF x(1)]
  have "sched_fresh (new_scheduler False)" by (simp add: sched_fresh_def new_scheduler_def)
  note safe = io_workers_safe [OF io0_construct this run]
  have "\<exists>s'. worker_stmt True (Some 9) 5 1 IdleWork (x, \<lambda>_. ToTimers) = Inr s'" using safe x(2) by blast
  moreover from safe have "for_thread (- 1) (pushes [Pushed io_task]) =
      for_thread (- 1) (map snd (takes [Pushed io_task])) @ for_thread (- 1) (m_tasks (ss x))" by blast
  then have "for_thread (- 1) (m_tasks (ss x)) = [io_task]" by (simp add: for_thread_def io_task_def)
  ultimately show ?thesis using run by blast
qed

lemma io_leaves_after_three_reads_witness:
  "\<exists>x rd x' rd'. reads_run io0 [] (x, rd) \<and> worker_stmt True (Some 9) 5 1 IdleCheck (x, rd) = Inr (x', rd') \<and>
     saw_no_event io0 5 1 (x, rd) \<and> workers x' 5 = Some (1, IdleWork)"
proof -
  obtain x rd where x: "reads_run io0 [] (x, rd)" "workers x 5 = Some (1, IdleCheck)" "rd 5 = ToBase"
    "ss x = io_quiet" using two_reads by blast
  obtain x' rd' where x': "worker_stmt True (Some 9) 5 1 IdleCheck (x, rd) = Inr (x', rd')"
    using worker_stmt_total [OF reads_inv [OF x(1) io0_fresh, unfolded fst_conv] x(2), of "Some 9" True rd] by auto
  from io_leaves_after_three_reads [OF io0_fresh x(1,2) x'] x(3,4)
  have "saw_no_event io0 5 1 (x, rd)" "workers x' 5 = Some (1, IdleWork)" by (simp_all add: Let_def)
  with x(1) x' show ?thesis by blast
qed

end
