(* ===== verification/Hook.thy ===== *)
theory Hook
  imports IOManager
begin

text \<open>
  Model of \<open>src/hook/hook.h\<close> and \<open>src/hook/hook.cc\<close>: the switch, the lookup of the original functions,
  the three sleep functions, and the eighteen hooks whose bodies are empty in the source. A pointer is a
  \<open>nat\<close>, and what \<open>dlsym\<close> finds is an argument.
\<close>

section \<open>The switch and the originals\<close>

record hook_state =
  t_hook_enable :: "nat \<Rightarrow> bool"
  is_inited :: bool
  originals :: "string \<rightharpoonup> nat"

definition hook_state0 :: hook_state where
  "hook_state0 = \<lparr>t_hook_enable = (\<lambda>_. False), is_inited = False, originals = (\<lambda>_. None)\<rparr>"

definition is_hook_enable :: "nat \<Rightarrow> hook_state \<Rightarrow> bool" where
  "is_hook_enable th H = t_hook_enable H th"

definition set_hook_enable :: "nat \<Rightarrow> bool \<Rightarrow> hook_state \<Rightarrow> hook_state" where
  "set_hook_enable th flag H = H\<lparr>t_hook_enable := (t_hook_enable H)(th := flag)\<rparr>"

text \<open>The names \<open>HOOK_FUN\<close> applies its argument to.\<close>

definition hook_fun :: "string list" where
  "hook_fun =
     [''sleep'', ''usleep'', ''nanosleep'', ''socket'', ''connect'', ''accept'', ''read'', ''readv'',
      ''recv'', ''recvfrom'', ''recvmsg'', ''write'', ''writev'', ''send'', ''sendto'', ''sendmsg'',
      ''close'', ''fcntl'', ''ioctl'', ''getsockopt'', ''setsockopt'']"

definition hook_init :: "(string \<Rightarrow> nat option) \<Rightarrow> hook_state \<Rightarrow> hook_state" where
  "hook_init dlsym H =
     (if is_inited H then H
      else H\<lparr>is_inited := True,
             originals := fold (\<lambda>name found. found(name := dlsym name)) hook_fun (originals H)\<rparr>)"

section \<open>The sleep functions\<close>

text \<open>
  A call either goes to the original function, whose address is given, or parks the calling fiber: it
  leaves its stack, and when it is resumed the call returns 0.
\<close>

datatype hook_call = Forwarded nat | Parked nat

definition forward :: "string \<Rightarrow> hook_state \<Rightarrow> hook_call result" where
  "forward name H = (case originals H name of None \<Rightarrow> Inl NullDereference | Some p \<Rightarrow> Inr (Forwarded p))"

text \<open>
  What the three functions share: a timer that schedules the running fiber again on the manager the
  thread runs for (\<open>has_iom\<close> is false where \<open>IOManager::GetThis()\<close> is null), then the yield.
\<close>

definition park ::
  "int \<Rightarrow> bool \<Rightarrow> nat \<Rightarrow> bool \<Rightarrow> 64 word \<Rightarrow> iomanager \<Rightarrow> fiber_world \<Rightarrow>
   (hook_call \<times> iomanager \<times> fiber_world) result" where
  "park rt junk th has_iom ms m W =
     and_then (Fiber.GetThis True junk th W) (\<lambda>(f, W1).
       if \<not> has_iom then Inl NullDereference
       else and_then (io_addTimer rt ms (Some (RescheduleFiber f)) False m) (\<lambda>(t, m1).
            and_then (yield True th f W1) (\<lambda>W2. Inr (Parked t, m1, W2))))"

text \<open>The lambda the timer runs.\<close>

definition run_reschedule :: "nat \<Rightarrow> iomanager \<Rightarrow> iomanager result" where
  "run_reschedule f m = scheduleLock (IOManager_tickle 1) (FiberCopied (Some f)) (- 1) m"

text \<open>The periods: \<open>seconds * 1000\<close> is an \<open>unsigned int\<close>, widened afterwards.\<close>

definition sleep_ms :: "32 word \<Rightarrow> 64 word" where
  "sleep_ms seconds = ucast (seconds * 1000)"

definition usleep_ms :: "32 word \<Rightarrow> 64 word" where
  "usleep_ms usec = ucast (usec div 1000)"

text \<open>
  \<open>nanosleep\<close> computes in \<open>long\<close>, where an overflow is undefined, then converts to \<open>int\<close> and that to
  \<open>uint64_t\<close>. Division truncates.
\<close>

definition trunc_div :: "int \<Rightarrow> int \<Rightarrow> int" where
  "trunc_div a b = sgn a * (\<bar>a\<bar> div b)"

definition in_long :: "int \<Rightarrow> bool" where
  "in_long x \<longleftrightarrow> - (2 ^ 63) \<le> x \<and> x < 2 ^ 63"

definition nanosleep_ms :: "int \<Rightarrow> int \<Rightarrow> 64 word result" where
  "nanosleep_ms tv_sec tv_nsec =
     (let s = tv_sec * 1000; x = s + trunc_div (trunc_div tv_nsec 1000) 1000
      in if \<not> in_long s \<or> \<not> in_long x then Inl SignedOverflow
         else Inr (word_of_int (i32 x)))"

definition sleep ::
  "int \<Rightarrow> bool \<Rightarrow> nat \<Rightarrow> bool \<Rightarrow> hook_state \<Rightarrow> 32 word \<Rightarrow> iomanager \<Rightarrow> fiber_world \<Rightarrow>
   (hook_call \<times> iomanager \<times> fiber_world) result" where
  "sleep rt junk th has_iom H seconds m W =
     (if \<not> is_hook_enable th H then and_then (forward ''sleep'' H) (\<lambda>c. Inr (c, m, W))
      else park rt junk th has_iom (sleep_ms seconds) m W)"

definition usleep ::
  "int \<Rightarrow> bool \<Rightarrow> nat \<Rightarrow> bool \<Rightarrow> hook_state \<Rightarrow> 32 word \<Rightarrow> iomanager \<Rightarrow> fiber_world \<Rightarrow>
   (hook_call \<times> iomanager \<times> fiber_world) result" where
  "usleep rt junk th has_iom H usec m W =
     (if \<not> is_hook_enable th H then and_then (forward ''usleep'' H) (\<lambda>c. Inr (c, m, W))
      else park rt junk th has_iom (usleep_ms usec) m W)"

definition nanosleep ::
  "int \<Rightarrow> bool \<Rightarrow> nat \<Rightarrow> bool \<Rightarrow> hook_state \<Rightarrow> int \<times> int \<Rightarrow> iomanager \<Rightarrow> fiber_world \<Rightarrow>
   (hook_call \<times> iomanager \<times> fiber_world) result" where
  "nanosleep rt junk th has_iom H req m W =
     (if \<not> is_hook_enable th H then and_then (forward ''nanosleep'' H) (\<lambda>c. Inr (c, m, W))
      else and_then (nanosleep_ms (fst req) (snd req)) (\<lambda>ms. park rt junk th has_iom ms m W))"

section \<open>The hooked calls\<close>

text \<open>
  A call of a function that the module replaces, with the arguments of its prototype: \<open>useconds_t\<close> and
  \<open>socklen_t\<close> have 32 bits, \<open>size_t\<close> and the request of \<open>ioctl\<close> 64, and what follows the fixed
  arguments of \<open>fcntl\<close> and \<open>ioctl\<close> is a list.
\<close>

datatype sys_call =
    Call_sleep "32 word"
  | Call_usleep "32 word"
  | Call_nanosleep "int \<times> int" nat
  | Call_socket int int int
  | Call_connect int nat "32 word"
  | Call_accept int nat nat
  | Call_read int nat "64 word"
  | Call_readv int nat int
  | Call_recv int nat "64 word" int
  | Call_recvfrom int nat "64 word" int nat nat
  | Call_recvmsg int nat int
  | Call_write int nat "64 word"
  | Call_writev int nat int
  | Call_send int nat "64 word" int
  | Call_sendto int nat "64 word" int nat "32 word"
  | Call_sendmsg int nat int
  | Call_close int
  | Call_fcntl int int "int list"
  | Call_ioctl int "64 word" "int list"
  | Call_getsockopt int int int nat nat
  | Call_setsockopt int int int nat "32 word"

fun call_name :: "sys_call \<Rightarrow> string" where
  "call_name (Call_sleep _) = ''sleep''"
| "call_name (Call_usleep _) = ''usleep''"
| "call_name (Call_nanosleep _ _) = ''nanosleep''"
| "call_name (Call_socket _ _ _) = ''socket''"
| "call_name (Call_connect _ _ _) = ''connect''"
| "call_name (Call_accept _ _ _) = ''accept''"
| "call_name (Call_read _ _ _) = ''read''"
| "call_name (Call_readv _ _ _) = ''readv''"
| "call_name (Call_recv _ _ _ _) = ''recv''"
| "call_name (Call_recvfrom _ _ _ _ _ _) = ''recvfrom''"
| "call_name (Call_recvmsg _ _ _) = ''recvmsg''"
| "call_name (Call_write _ _ _) = ''write''"
| "call_name (Call_writev _ _ _) = ''writev''"
| "call_name (Call_send _ _ _ _) = ''send''"
| "call_name (Call_sendto _ _ _ _ _ _) = ''sendto''"
| "call_name (Call_sendmsg _ _ _) = ''sendmsg''"
| "call_name (Call_close _) = ''close''"
| "call_name (Call_fcntl _ _ _) = ''fcntl''"
| "call_name (Call_ioctl _ _ _) = ''ioctl''"
| "call_name (Call_getsockopt _ _ _ _ _) = ''getsockopt''"
| "call_name (Call_setsockopt _ _ _ _ _) = ''setsockopt''"

text \<open>
  The socket, descriptor and control functions: all return a value and none has a statement, not even
  the test of the switch, so their end is reached without a \<open>return\<close>.
\<close>

definition empty_hook :: "sys_call \<Rightarrow> 'a result" where
  "empty_hook c = Inl MissingReturn"

definition hooked_call ::
  "int \<Rightarrow> bool \<Rightarrow> nat \<Rightarrow> bool \<Rightarrow> hook_state \<Rightarrow> sys_call \<Rightarrow> iomanager \<Rightarrow> fiber_world \<Rightarrow>
   (hook_call \<times> iomanager \<times> fiber_world) result" where
  "hooked_call rt junk th has_iom H c m W =
     (case c of
        Call_sleep seconds \<Rightarrow> sleep rt junk th has_iom H seconds m W
      | Call_usleep usec \<Rightarrow> usleep rt junk th has_iom H usec m W
      | Call_nanosleep req rem \<Rightarrow> nanosleep rt junk th has_iom H req m W
      | _ \<Rightarrow> empty_hook c)"

end
