(* ===== verification/Hook_Spec.thy ===== *)
theory Hook_Spec
  imports Hook IOManager_Run
begin

text \<open>
  The sleep hooks composed with the timers, the idle function and the fibers: a fiber that sleeps is
  parked and comes back at its deadline; and how long the hooks make a fiber sleep.
\<close>

section \<open>A timer at a new deadline\<close>




section \<open>Sleeping\<close>








section \<open>How long a fiber sleeps\<close>

lemma i32_top: "2 ^ 31 \<le> x \<Longrightarrow> x < 2 ^ 32 \<Longrightarrow> i32 x = x - 2 ^ 32"
proof -
  assume a: "2 ^ 31 \<le> x" "x < 2 ^ 32"
  have "(x + 2 ^ 31) mod 2 ^ 32 = (x + 2 ^ 31 - 2 ^ 32) mod 2 ^ 32"
    by (rule minus_mod_self2 [symmetric])
  also have "\<dots> = x + 2 ^ 31 - 2 ^ 32" using a by (intro mod_pos_pos_trivial) simp_all
  finally show ?thesis by (simp add: i32_def signed_take_bit_eq_take_bit_shift take_bit_eq_mod)
qed

text \<open>
  C35. How long the hooks make a fiber sleep. \<open>usleep\<close> rounds down to milliseconds; \<open>sleep\<close> computes
  modulo \<open>2^32\<close> milliseconds, so from 4294968 seconds on the fiber comes back too early; \<open>nanosleep\<close>
  is exact to the millisecond below \<open>2^31\<close>, and from there to \<open>2^32\<close> its \<open>int\<close> is negative and the
  deadline lies in the past, so the fiber does not sleep at all.
\<close>

theorem sleep_durations:
  assumes "0 \<le> sec" and "0 \<le> nsec" and "nsec < 1000000000" and "clock_ok now"
  shows "uint (usleep_ms n) = uint n div 1000 \<and>
         uint (sleep_ms n) = uint n * 1000 mod 2 ^ 32 \<and>
         (uint n \<ge> 4294968 \<longrightarrow> uint (sleep_ms n) < uint n * 1000) \<and>
         (let ms = sec * 1000 + nsec div 1000000
          in (ms < 2 ^ 31 \<longrightarrow> (\<exists>w. nanosleep_ms sec nsec = Inr w \<and> uint w = ms)) \<and>
             (2 ^ 31 \<le> ms \<and> ms < 2 ^ 32 \<longrightarrow>
                (\<exists>w. nanosleep_ms sec nsec = Inr w \<and> add_ms now w = now - (2 ^ 32 - ms) * 1000000)))"
proof -
  let ?ms = "sec * 1000 + nsec div 1000000"
  have usleep: "uint (usleep_ms n) = uint n div 1000"
  proof -
    have "uint (n div 1000) = uint n div 1000" by (simp add: uint_div)
    moreover have "uint n div 1000 < 2 ^ 32" using uint_lt2p [of n] uint_ge_0 [of n] by (simp add: div_less_dividend)
    moreover have "0 \<le> uint n div 1000" by (simp add: pos_imp_zdiv_nonneg_iff)
    ultimately show ?thesis
      unfolding usleep_ms_def by (simp only: unsigned_ucast_eq) (intro take_bit_int_eq_self; simp)
  qed
  have sleep: "uint (sleep_ms n) = uint n * 1000 mod 2 ^ 32"
    by (simp add: sleep_ms_def unsigned_ucast_eq uint_word_ariths take_bit_int_eq_self)
  have trunc: "trunc_div (trunc_div nsec 1000) 1000 = nsec div 1000000"
    using assms(2) by (simp add: trunc_div_def sgn_if zdiv_zmult2_eq [symmetric])
  have less: "nsec div 1000000 < 1000" "0 \<le> nsec div 1000000" using assms(2,3) by (simp_all add: div_less_iff_less_mult)
  have nano: "nanosleep_ms sec nsec = Inr (word_of_int (i32 ?ms))" if "?ms < 2 ^ 32"
    using that less assms(1) by (simp add: nanosleep_ms_def Let_def trunc in_long_def)
  have low: "uint (word_of_int (i32 ?ms) :: 64 word) = ?ms" if "?ms < 2 ^ 31"
  proof -
    have "i32 ?ms = ?ms" using that less assms(1) by (intro i32_id) simp_all
    then show ?thesis
      using that less assms(1) by (simp only: uint_word_of_int) (intro mod_pos_pos_trivial; simp)
  qed
  have high: "add_ms now (word_of_int (i32 ?ms)) = now - (2 ^ 32 - ?ms) * 1000000" if h: "2 ^ 31 \<le> ?ms" "?ms < 2 ^ 32"
  proof -
    let ?w = "word_of_int (i32 ?ms) :: 64 word"
    have "uint ?w = (?ms - 2 ^ 32) mod 2 ^ 64"
      by (simp only: i32_top [OF h] uint_word_of_int len_bit0 len_num1) simp
    also have "\<dots> = (?ms - 2 ^ 32 + 2 ^ 64) mod 2 ^ 64" by (rule mod_add_self2 [symmetric])
    also have "\<dots> = ?ms - 2 ^ 32 + 2 ^ 64" using h by (intro mod_pos_pos_trivial) simp_all
    finally have "uint ?w = ?ms - 2 ^ 32 + 2 ^ 64" .
    then show ?thesis using add_ms_huge [OF assms(4), of ?w] h by simp
  qed
  from usleep sleep nano low high show ?thesis
    by (auto simp: Let_def)
qed

lemma sleep_durations_witness:
  "uint (sleep_ms 4294968) = 704 \<and>
   (\<exists>w. nanosleep_ms 2147484 0 = Inr w \<and> add_ms (2 ^ 61) w = 2 ^ 61 - 2147483296 * 1000000)"
  using sleep_durations [of 2147484 0 "2 ^ 61" 4294968] by (simp add: clock_ok_def Let_def)

section \<open>The originals\<close>

text \<open>
  \<open>hook_init\<close> looks every hooked name up, once: a second call changes nothing. After it a call on a thread
  without the hook goes to the function found under its name, and nothing else happens.
\<close>

lemma fold_lookup:
  "fold (\<lambda>n found. found(n := d n)) ns g = (\<lambda>n. if n \<in> set ns then d n else g n)"
  by (induction ns arbitrary: g) (auto simp: fun_eq_iff)

lemma hook_init_spec:
  "originals (hook_init dlsym hook_state0) n = (if n \<in> set hook_fun then dlsym n else None) \<and>
   hook_init other (hook_init dlsym H) = hook_init dlsym H"
  by (simp add: hook_init_def hook_state0_def fold_lookup)

lemma unhooked_call:
  assumes "dlsym ''sleep'' = Some p" and "dlsym ''usleep'' = Some q" and "dlsym ''nanosleep'' = Some r"
  shows "sleep rt junk th iom (hook_init dlsym hook_state0) n m W = Inr (Forwarded p, m, W) \<and>
         usleep rt junk th iom (hook_init dlsym hook_state0) n m W = Inr (Forwarded q, m, W) \<and>
         nanosleep rt junk th iom (hook_init dlsym hook_state0) req m W = Inr (Forwarded r, m, W)"
  using assms
  by (simp add: sleep_def usleep_def nanosleep_def is_hook_enable_def hook_init_def hook_state0_def forward_def
      fold_lookup hook_fun_def)

section \<open>All hooks\<close>

definition is_sleep :: "sys_call \<Rightarrow> bool" where
  "is_sleep c \<longleftrightarrow> call_name c \<in> {''sleep'', ''usleep'', ''nanosleep''}"

lemma call_name_hooked: "call_name c \<in> set hook_fun"
  by (cases c) (simp_all add: hook_fun_def)

text \<open>
  With the switch off, as it is on every thread initially, exactly the three sleep functions reach the
  function they replace; \<open>hook_init\<close> has looked the others up as well, but a call of one is undefined,
  whether the switch is on or off.
\<close>

lemma only_sleep_is_forwarded:
  assumes "\<forall>n \<in> set hook_fun. dlsym n = Some (addr n)" and "\<not> t_hook_enable H th"
    and "originals H = originals (hook_init dlsym hook_state0)"
  shows "originals H (call_name c) = Some (addr (call_name c))"
    and "hooked_call rt junk th iom H c m W =
      (if is_sleep c then Inr (Forwarded (addr (call_name c)), m, W) else Inl MissingReturn)"
proof -
  show o: "originals H (call_name c) = Some (addr (call_name c))" for c
    using assms(1,3) call_name_hooked [of c] by (simp add: hook_init_spec)
  have f: "forward (call_name c) H = Inr (Forwarded (addr (call_name c)))" using o by (simp add: forward_def)
  show "hooked_call rt junk th iom H c m W =
      (if is_sleep c then Inr (Forwarded (addr (call_name c)), m, W) else Inl MissingReturn)"
    using f assms(2)
    by (cases c) (simp_all add: hooked_call_def is_sleep_def empty_hook_def sleep_def usleep_def nanosleep_def
        is_hook_enable_def)
qed

lemma empty_hooks_ignore_switch:
  "\<not> is_sleep c \<Longrightarrow> hooked_call rt junk th iom H c m W = Inl MissingReturn"
  by (cases c) (simp_all add: hooked_call_def is_sleep_def empty_hook_def)

end
