(* ===== verification/Echo_Server.thy ===== *)
theory Echo_Server
  imports IOManager
begin

text \<open>
  Model of \<open>src/main.cc\<close>, the HTTP server built on \<open>IOManager\<close>: the callback of the listening socket,
  the callback of a connection, and the set-up. The results of the socket calls are arguments.
\<close>

section \<open>A connection\<close>

datatype sock_call = Send string | Close

definition crlf :: string where
  "crlf = [CHR 0x0D, CHR 0x0A]"

definition response :: string where
  "response = ''HTTP/1.1 200 OK'' @ crlf @ ''Content-Type: text/plain'' @ crlf @
     ''Content-Length: 13'' @ crlf @ ''Connection: keep-alive'' @ crlf @ crlf @ ''Hello, World!''"

text \<open>
  The lambda: its loop over the results of \<open>recv\<close>, each with whether \<open>errno\<close> is \<open>EAGAIN\<close>; the calls it
  makes on the socket, or \<open>None\<close> while it is still in the loop.
\<close>

fun serve :: "(int \<times> bool) list \<Rightarrow> sock_call list option" where
  "serve [] = None"
| "serve ((ret, eagain) # rs) =
     (if ret > 0 then Some [Send response, Close]
      else if ret = 0 \<or> \<not> eagain then Some [Close]
      else serve rs)"

section \<open>The listening socket\<close>

text \<open>The two callbacks; the second one has captured a descriptor.\<close>

definition accept_fn :: closure where
  "accept_fn = UserFn 0"

definition connection_fn :: "int \<Rightarrow> closure" where
  "connection_fn fd = UserFn (Suc (nat fd))"

text \<open>
  \<open>watch_io_read\<close>, and the same statement at the end of \<open>test_accept\<close>. \<open>has_iom\<close> is false where
  \<open>IOManager::GetThis()\<close> is null.
\<close>

definition watch_io_read ::
  "int \<Rightarrow> bool \<Rightarrow> nat \<Rightarrow> nat option \<Rightarrow> bool \<Rightarrow> int \<Rightarrow> iomanager \<Rightarrow> fiber_world \<Rightarrow>
   (iomanager \<times> fiber_world) result" where
  "watch_io_read rt junk th cur has_iom listen_fd m W =
     (if \<not> has_iom then Inl NullDereference
      else and_then (addEvent rt junk th cur listen_fd READ_event (Some accept_fn) m W) (\<lambda>(_, m1, W1).
        Inr (m1, W1)))"

text \<open>\<open>fd\<close> is what \<open>accept\<close> gives, \<open>rts\<close> the results of the two \<open>epoll_ctl\<close> calls.\<close>

definition test_accept ::
  "int \<Rightarrow> int \<times> int \<Rightarrow> bool \<Rightarrow> nat \<Rightarrow> nat option \<Rightarrow> bool \<Rightarrow> int \<Rightarrow> iomanager \<Rightarrow> fiber_world \<Rightarrow>
   (iomanager \<times> fiber_world) result" where
  "test_accept fd rts junk th cur has_iom listen_fd m W =
     and_then
       (if fd < 0 then Inr (m, W)
        else if \<not> has_iom then Inl NullDereference
        else and_then (addEvent (fst rts) junk th cur fd READ_event (Some (connection_fn fd)) m W)
               (\<lambda>(_, m1, W1). Inr (m1, W1)))
       (\<lambda>(m1, W1). watch_io_read (snd rts) junk th cur has_iom listen_fd m1 W1)"

section \<open>The set-up\<close>

text \<open>
  \<open>test_iomanager\<close> up to the end of its block: \<open>Exit\<close> is \<open>error\<close>, which leaves the program with 1. The
  manager has nine threads and uses the caller; \<open>sys\<close> are the results of \<open>socket\<close>, \<open>bind\<close> and \<open>listen\<close>.
\<close>

datatype 'a started = Exit int | Serving 'a

definition test_iomanager ::
  "int \<times> int \<times> int \<Rightarrow> int \<Rightarrow> bool \<Rightarrow> bool \<Rightarrow> nat option \<Rightarrow> nat \<Rightarrow> nat \<Rightarrow> time \<Rightarrow> int \<Rightarrow> int \<times> int \<Rightarrow> int \<times> int \<times> int \<Rightarrow>
   (nat \<Rightarrow> string \<Rightarrow> (nat \<times> int) result) \<Rightarrow> runtime \<Rightarrow> (iomanager \<times> runtime) started result" where
  "test_iomanager sys rt junk junk2 mem self th clock epfd fds rts mk R =
     (case sys of (sock, bound, listening) \<Rightarrow>
        if sock < 0 then Inr (Exit 1)
        else if bound < 0 then Inr (Exit 1)
        else if listening < 0 then Inr (Exit 1)
        else and_then (Scheduler_construct junk junk2 mem self th 9 True ''IOManager'' R) (\<lambda>(s, R1).
             and_then (IOManager_construct self clock epfd fds rts mk (new_manager clock) s) (\<lambda>m.
             and_then (addEvent rt junk2 th (t_scheduler R1 th) sock READ_event (Some accept_fn) m (rt_fibers R1))
               (\<lambda>(_, m1, W1). Inr (Serving (m1, R1\<lparr>rt_fibers := W1\<rparr>))))))"

end
