(* ===== verification/Echo_Server_Spec.thy ===== *)
theory Echo_Server_Spec
  imports Echo_Server IOManager_Theorems
begin

text \<open>
  The server on the manager: it keeps listening, as long as the descriptors \<open>accept\<close> gives lie in the
  manager's table; each connection is answered at most once and closed exactly once.
\<close>

section \<open>A connection\<close>

text \<open>
  The loop of a connection returns exactly when some \<open>recv\<close> gives data, the end of the stream or a
  real error; it closes the socket once, as its last call, and sends the response before that if and
  only if data came first.
\<close>

lemma serve_spec:
  "serve rs = (case dropWhile (\<lambda>(ret, eagain). ret < 0 \<and> eagain) rs of
     [] \<Rightarrow> None
   | (ret, _) # _ \<Rightarrow> Some (if ret > 0 then [Send response, Close] else [Close]))"
  by (induction rs rule: serve.induct) auto

section \<open>Listening\<close>

definition listening :: "int \<Rightarrow> iomanager \<Rightarrow> bool" where
  "listening l m \<longleftrightarrow> usable l m \<and> is_registered l READ_event m \<and>
     fc_read (m_fdContexts m ! nat l) = \<lparr>ec_scheduler = Some (io_self m), ec_fiber = None, ec_cb = Some accept_fn\<rparr>"

lemma add_callback:
  assumes reach: "io_reach m" and u: "usable fd m" and new: "\<not> is_registered fd READ_event m"
  obtains m' where "addEvent 0 junk th (Some (io_self m)) fd READ_event (Some f) m W = Inr (0, m', W)"
    and "io_reach m'" and "io_self m' = io_self m" and "is_registered fd READ_event m'"
    and "m_tickleFds m' = m_tickleFds m" and "length (m_fdContexts m') = length (m_fdContexts m)"
    and "fc_read (m_fdContexts m' ! nat fd) = \<lparr>ec_scheduler = Some (io_self m), ec_fiber = None, ec_cb = Some f\<rparr>"
    and "\<And>i. i \<noteq> nat fd \<Longrightarrow> m_fdContexts m' ! i = m_fdContexts m ! i"
proof -
  let ?ec = "\<lparr>ec_scheduler = Some (io_self m), ec_fiber = None, ec_cb = Some f\<rparr>"
  have fd: "0 \<le> fd" "fd < int (length (m_fdContexts m))" and i: "nat fd < length (m_fdContexts m)"
    using u by (simp_all add: usable_def nat_less_iff)
  have inv: "io_inv m" by (rule io_reach_inv [OF reach])
  have v: "valid_event READ_event" by (simp add: valid_event_def)
  have mask: "valid_mask (fc_events (m_fdContexts m ! nat fd))" using inv_ctx [OF inv i] by (simp add: ctx_ok_def)
  have r: "addEvent 0 junk th (Some (io_self m)) fd READ_event (Some f) m W =
      Inr (0, after_add (nat fd) READ_event ?ec m, W)"
    using addEvent_cb_spec [OF inv fd v] new by (simp add: is_registered_def)
  show thesis
  proof (rule that [OF r])
    show "io_reach (after_add (nat fd) READ_event ?ec m)" by (rule io_reach.op [OF reach io_op.add [OF u v r]])
    show "is_registered fd READ_event (after_add (nat fd) READ_event ?ec m)"
      using i mask_ops(5) [OF mask v] by (simp add: is_registered_def after_add_def)
    show "fc_read (m_fdContexts (after_add (nat fd) READ_event ?ec m) ! nat fd) = ?ec"
      using i by (simp add: after_add_def with_event_def set_context_def)
  qed (simp_all add: after_add_def)
qed

lemma read_reported:
  assumes reach: "io_reach m" and l: "listening l m"
  obtains m1 where "idle_event 0 (OfContext (nat l)) EPOLLIN m = Inr m1"
    and "m_tasks m1 = m_tasks m @ [ScheduleTask (CbCopied (Some accept_fn)) (- 1)]"
    and "io_reach m1" and "io_self m1 = io_self m" and "\<not> is_registered l READ_event m1"
    and "m_tickleFds m1 = m_tickleFds m" and "length (m_fdContexts m1) = length (m_fdContexts m)"
    and "\<And>i. i \<noteq> nat l \<Longrightarrow> m_fdContexts m1 ! i = m_fdContexts m ! i"
proof -
  let ?i = "nat l" let ?c = "m_fdContexts m ! ?i"
  have i: "?i < length (m_fdContexts m)" and u: "usable (int ?i) m" and on: "fc_events ?c AND READ_event \<noteq> 0"
    using l by (auto simp: listening_def usable_def is_registered_def nat_less_iff)
  have mask: "valid_mask (fc_events ?c)" using inv_ctx [OF io_reach_inv [OF reach] i] by (simp add: ctx_ok_def)
  have rep: "kernel_reports (fc_events ?c) EPOLLIN"
    using on mask by (auto simp: kernel_reports_def valid_mask_def)
  have real: "real_events EPOLLIN (fc_events ?c) = READ_event" by (simp add: real_events_def Let_def)
  from ready_delivered [OF reach u rep, of 0] obtain m1 where
    r: "idle_event 0 (OfContext ?i) EPOLLIN m = Inr m1" and
    t: "m_tasks m1 = m_tasks m @ map context_task (filter (\<lambda>ec. ec_scheduler ec = Some (io_self m))
         (contexts_of READ_event ?c))" and
    c: "m_fdContexts m1 = (m_fdContexts m)[?i := fired READ_event ?c]" and
    e: "fc_events (fired READ_event ?c) = fc_events ?c AND NOT READ_event"
    unfolding Let_def real by (auto simp del: n_events.simps)
  have self: "io_self m1 = io_self m"
    using idle_event_spec [OF io_reach_inv [OF reach] i rep, of 0] r
    by (simp add: Let_def real fire_all_def fire_def)
  show thesis
  proof (rule that [OF r])
    show "m_tasks m1 = m_tasks m @ [ScheduleTask (CbCopied (Some accept_fn)) (- 1)]"
      using t l by (simp add: contexts_of_def the_context_def listening_def context_task_def context_arg_def)
    show "io_reach m1" by (rule io_reach.op [OF reach io_op.ready [OF u rep r]])
    show "\<not> is_registered l READ_event m1"
      using i e mask by (auto simp: is_registered_def c valid_mask_def)
    show "m_tickleFds m1 = m_tickleFds m"
      using io_op_inv [OF io_op.ready [OF u rep r] io_reach_inv [OF reach]] by (simp add: same_shape_def)
  qed (use self c in simp_all)
qed

lemma watch_arms:
  assumes n: "io_reach n" "usable l n" "\<not> is_registered l READ_event n"
  shows "\<exists>m2. watch_io_read 0 junk th (Some (io_self n)) True l n W = Inr (m2, W) \<and> io_reach m2 \<and>
      listening l m2 \<and> (\<forall>i. i \<noteq> nat l \<longrightarrow> m_fdContexts m2 ! i = m_fdContexts n ! i)"
proof -
  obtain m2 where m2: "addEvent 0 junk th (Some (io_self n)) l READ_event (Some accept_fn) n W = Inr (0, m2, W)"
    "io_reach m2" "io_self m2 = io_self n" "is_registered l READ_event m2" "m_tickleFds m2 = m_tickleFds n"
    "length (m_fdContexts m2) = length (m_fdContexts n)"
    "fc_read (m_fdContexts m2 ! nat l) = \<lparr>ec_scheduler = Some (io_self n), ec_fiber = None, ec_cb = Some accept_fn\<rparr>"
    "\<And>i. i \<noteq> nat l \<Longrightarrow> m_fdContexts m2 ! i = m_fdContexts n ! i"
    using add_callback [OF n, of junk th accept_fn W] by metis
  then have "listening l m2" using n(2) by (simp add: listening_def usable_def)
  with m2 show ?thesis by (intro exI [of _ m2]) (simp add: watch_io_read_def)
qed

text \<open>Running the callback on a manager where the listening socket is not armed.\<close>

lemma accept_arms:
  assumes m: "io_reach m" "usable l m" "\<not> is_registered l READ_event m"
    and fd: "fd < 0 \<or> usable fd m \<and> fd \<noteq> l \<and> \<not> is_registered fd READ_event m"
  shows "\<exists>m2. test_accept fd (0, 0) junk th (Some (io_self m)) True l m W = Inr (m2, W) \<and>
      io_reach m2 \<and> listening l m2 \<and>
      (0 \<le> fd \<longrightarrow> is_registered fd READ_event m2 \<and>
         ec_cb (fc_read (m_fdContexts m2 ! nat fd)) = Some (connection_fn fd))"
proof (cases "fd < 0")
  case True
  with watch_arms [OF m, of junk th W] show ?thesis by (auto simp: test_accept_def)
next
  case False
  with fd have new: "usable fd m" "\<not> is_registered fd READ_event m" and ne: "nat fd \<noteq> nat l"
    using m(2) by (auto simp: usable_def)
  obtain n where n: "addEvent 0 junk th (Some (io_self m)) fd READ_event (Some (connection_fn fd)) m W = Inr (0, n, W)"
    "io_reach n" "io_self n = io_self m" "is_registered fd READ_event n" "m_tickleFds n = m_tickleFds m"
    "length (m_fdContexts n) = length (m_fdContexts m)"
    "fc_read (m_fdContexts n ! nat fd) =
       \<lparr>ec_scheduler = Some (io_self m), ec_fiber = None, ec_cb = Some (connection_fn fd)\<rparr>"
    "\<And>i. i \<noteq> nat fd \<Longrightarrow> m_fdContexts n ! i = m_fdContexts m ! i"
    using add_callback [OF m(1) new, of junk th "connection_fn fd" W] by metis
  have "usable l n" "\<not> is_registered l READ_event n"
    using m(2,3) n(5,6,8) ne by (auto simp: usable_def is_registered_def)
  from watch_arms [OF n(2) this, of junk th W] n(3) obtain m2 where m2:
    "watch_io_read 0 junk th (Some (io_self m)) True l n W = Inr (m2, W)" "io_reach m2" "listening l m2"
    "\<forall>i. i \<noteq> nat l \<longrightarrow> m_fdContexts m2 ! i = m_fdContexts n ! i" by auto
  with False n(1,4,7) ne show ?thesis
    by (intro exI [of _ m2]) (simp add: test_accept_def is_registered_def)
qed

text \<open>A server listening on descriptor 7.\<close>

lemma listening_demo:
  obtains m where "io_reach m" and "listening 7 m" and "usable 8 m" and "\<not> is_registered 8 READ_event m"
proof -
  have u: "usable 7 io0" "\<not> is_registered 7 READ_event io0"
    by (simp_all add: usable_def is_registered_def new_fd_context_def)
  obtain m' where m': "io_reach m'" "io_self m' = io_self io0" "is_registered 7 READ_event m'"
    "m_tickleFds m' = m_tickleFds io0" "length (m_fdContexts m') = length (m_fdContexts io0)"
    "fc_read (m_fdContexts m' ! nat 7) = \<lparr>ec_scheduler = Some (io_self io0), ec_fiber = None, ec_cb = Some accept_fn\<rparr>"
    "\<And>i. i \<noteq> nat 7 \<Longrightarrow> m_fdContexts m' ! i = m_fdContexts io0 ! i"
    using add_callback [OF io0_reach u, of False 0 accept_fn init_world] by metis
  show thesis
    by (rule that [OF m'(1)])
      (use m' in \<open>simp_all add: listening_def usable_def is_registered_def new_fd_context_def\<close>)
qed

text \<open>
  C33. The server goes on listening. Whenever the listening socket is armed with \<open>test_accept\<close> and
  reported readable, the idle function queues exactly that callback for the workers; and running it
  arms the socket again, whether \<open>accept\<close> failed or gave a new descriptor of the table, which then
  waits for its first data with its own callback.
\<close>

theorem server_keeps_listening:
  assumes "io_reach m" and "listening l m"
  shows "\<exists>m1. idle_event 0 (OfContext (nat l)) EPOLLIN m = Inr m1 \<and>
    m_tasks m1 = m_tasks m @ [ScheduleTask (CbCopied (Some accept_fn)) (- 1)] \<and>
    (\<forall>fd. fd < 0 \<or> usable fd m \<and> fd \<noteq> l \<and> \<not> is_registered fd READ_event m \<longrightarrow>
      (\<exists>m2. test_accept fd (0, 0) junk th (Some (io_self m)) True l m1 W = Inr (m2, W) \<and>
         io_reach m2 \<and> listening l m2 \<and>
         (0 \<le> fd \<longrightarrow> is_registered fd READ_event m2 \<and>
            ec_cb (fc_read (m_fdContexts m2 ! nat fd)) = Some (connection_fn fd))))"
proof -
  obtain m1 where m1: "idle_event 0 (OfContext (nat l)) EPOLLIN m = Inr m1"
    "m_tasks m1 = m_tasks m @ [ScheduleTask (CbCopied (Some accept_fn)) (- 1)]"
    "io_reach m1" "io_self m1 = io_self m" "\<not> is_registered l READ_event m1"
    "m_tickleFds m1 = m_tickleFds m" "length (m_fdContexts m1) = length (m_fdContexts m)"
    "\<And>i. i \<noteq> nat l \<Longrightarrow> m_fdContexts m1 ! i = m_fdContexts m ! i"
    using read_reported [OF assms] by metis
  have l: "usable l m1" using assms(2) m1(6,7) by (simp add: listening_def usable_def)
  have same: "usable fd m1 \<and> \<not> is_registered fd READ_event m1"
    if "usable fd m \<and> fd \<noteq> l \<and> \<not> is_registered fd READ_event m" for fd
  proof -
    have "nat fd \<noteq> nat l" using that assms(2) by (auto simp: listening_def usable_def)
    with that m1(6-8) show ?thesis by (simp add: usable_def is_registered_def)
  qed
  have "\<exists>m2. test_accept fd (0, 0) junk th (Some (io_self m)) True l m1 W = Inr (m2, W) \<and>
      io_reach m2 \<and> listening l m2 \<and>
      (0 \<le> fd \<longrightarrow> is_registered fd READ_event m2 \<and>
         ec_cb (fc_read (m_fdContexts m2 ! nat fd)) = Some (connection_fn fd))"
    if "fd < 0 \<or> usable fd m \<and> fd \<noteq> l \<and> \<not> is_registered fd READ_event m" for fd
    using accept_arms [OF m1(3) l m1(5), of fd junk th W] that same [of fd] m1(4) by auto
  with m1(1,2) show ?thesis by blast
qed

lemma server_keeps_listening_witness:
  "\<exists>m m1 m2. listening 7 m \<and> idle_event 0 (OfContext 7) EPOLLIN m = Inr m1 \<and>
     test_accept 8 (0, 0) False 0 (Some (io_self m)) True 7 m1 init_world = Inr (m2, init_world) \<and> listening 7 m2"
proof -
  obtain m where m: "io_reach m" "listening 7 m" "usable 8 m" "\<not> is_registered 8 READ_event m"
    by (rule listening_demo)
  from server_keeps_listening [OF m(1,2), of False 0 init_world] m show ?thesis by fastforce
qed

text \<open>
  C34. The server stops listening at the first connection whose descriptor is 32 or more: the callback
  that accepted it deadlocks in \<open>addEvent\<close>, before it arms the listening socket again, which by then
  is not armed any more.
\<close>

theorem server_stops_beyond_the_table:
  assumes "io_reach m" and "listening l m" and "32 \<le> fd"
  shows "\<exists>m1. idle_event 0 (OfContext (nat l)) EPOLLIN m = Inr m1 \<and> \<not> is_registered l READ_event m1 \<and>
    test_accept fd rts junk th cur True l m1 W = Inl SelfDeadlock"
proof -
  obtain m1 where m1: "idle_event 0 (OfContext (nat l)) EPOLLIN m = Inr m1" "io_reach m1"
    "\<not> is_registered l READ_event m1"
    using read_reported [OF assms(1,2)] by metis
  have "find_context fd m1 = Inr None"
    using find_context_ok [OF io_reach_inv [OF m1(2)], of fd] io_reach_length [OF m1(2)] assms(3) by simp
  with m1 assms(3) show ?thesis by (simp add: test_accept_def addEvent_def)
qed

lemma server_stops_beyond_the_table_witness:
  "\<exists>m m1. listening 7 m \<and> idle_event 0 (OfContext 7) EPOLLIN m = Inr m1 \<and>
     test_accept 32 (0, 0) False 0 (Some (io_self m)) True 7 m1 init_world = Inl SelfDeadlock"
proof -
  obtain m where m: "io_reach m" "listening 7 m" by (rule listening_demo)
  from server_stops_beyond_the_table [OF m, of 32 "(0, 0)" False 0 "Some (io_self m)" init_world] m
  show ?thesis by auto
qed

section \<open>The set-up\<close>

lemma start_loop_self: "start_loop mk i n (m :: iomanager) = Inr m' \<Longrightarrow> io_self m' = io_self m"
  by (induction mk i n m rule: start_loop.induct) (auto simp: result_simps)

lemma construct_self:
  "IOManager_construct self clock epfd fds rts mk tm s = Inr m \<Longrightarrow> io_self m = self"
  by (auto simp: IOManager_construct_def Let_def result_simps start_def contextResize_def scheduler.extend_def
      split: if_splits dest!: start_loop_self)

text \<open>
  If the set-up gets as far as serving, with a socket inside the table, then the socket is armed with
  \<open>test_accept\<close>: what the two theorems above start from.
\<close>

lemma server_started:
  assumes r: "test_iomanager (sock, bound, lst) 0 junk junk2 mem self th clock epfd fds rts mk R = Inr (Serving (m, R'))"
    and "sock < 32" and "sock \<noteq> fst fds"
  shows "io_reach m \<and> listening sock m"
proof -
  have sock: "0 \<le> sock" using r by (auto simp: test_iomanager_def split: if_splits)
  with r obtain s R1 m0 k W1 where
    s: "Scheduler_construct junk junk2 mem self th 9 True ''IOManager'' R = Inr (s, R1)" and
    m0: "IOManager_construct self clock epfd fds rts mk (new_manager clock) s = Inr m0" and
    a: "addEvent 0 junk2 th (t_scheduler R1 th) sock READ_event (Some accept_fn) m0 (rt_fibers R1) = Inr (k, m, W1)"
    by (auto simp: test_iomanager_def result_simps split: if_splits)
  have "t_scheduler R1 th = Some self"
    using s by (auto simp: Scheduler_construct_def Let_def result_simps)
  then have self: "t_scheduler R1 th = Some (io_self m0)" using construct_self [OF m0] by simp
  note f = construct_fields [OF m0]
  have u: "usable sock m0" "\<not> is_registered sock READ_event m0"
    using sock assms(2,3) f by (simp_all add: usable_def is_registered_def new_fd_context_def nat_less_iff)
  obtain m' where m': "addEvent 0 junk2 th (Some (io_self m0)) sock READ_event (Some accept_fn) m0 (rt_fibers R1) =
      Inr (0, m', rt_fibers R1)" "io_reach m'" "io_self m' = io_self m0" "is_registered sock READ_event m'"
    "m_tickleFds m' = m_tickleFds m0" "length (m_fdContexts m') = length (m_fdContexts m0)"
    "fc_read (m_fdContexts m' ! nat sock) = \<lparr>ec_scheduler = Some (io_self m0), ec_fiber = None, ec_cb = Some accept_fn\<rparr>"
    using add_callback [OF io_reach.construct [OF m0] u, of junk2 th accept_fn "rt_fibers R1"] by metis
  with a self have "m = m'" by simp
  with m' u(1) show ?thesis by (simp add: listening_def usable_def)
qed

end
