(* ===== verification/Coroutines.thy ===== *)
theory Coroutines
  imports Prelude
begin

text \<open>
  Model of the C++20 coroutine programs under \<open>20co/\<close>. A coroutine's frame is a record: its promise,
  its local variables and the point it is suspended at. Resuming runs it to its next suspension.
\<close>

datatype point = AtInitial | AtYield | AtFinal

section \<open>Frames and handles\<close>

text \<open>
  Frames live in a store until they are destroyed; a handle is an address or null. The object a
  coroutine returns holds the handle of its promise, and its destructor destroys the frame.
\<close>

type_synonym 'p frames = "nat \<rightharpoonup> 'p"

text \<open>The call of a coroutine that suspends at its start: frame, promise and return object are made.\<close>

definition call_coroutine :: "nat \<Rightarrow> 'p \<Rightarrow> 'p frames \<Rightarrow> nat option \<times> 'p frames" where
  "call_coroutine a p fs = (Some a, fs(a \<mapsto> p))"

text \<open>Whatever is done through a handle reads the frame and leaves it in its new state.\<close>

definition through :: "nat option \<Rightarrow> ('p \<Rightarrow> ('a \<times> 'p) result) \<Rightarrow> 'p frames \<Rightarrow> ('a \<times> 'p frames) result" where
  "through h f fs =
     (case h of
        None \<Rightarrow> Inl NullDereference
      | Some a \<Rightarrow> (case fs a of
          None \<Rightarrow> Inl UseAfterFree
        | Some p \<Rightarrow> and_then (f p) (\<lambda>(r, p'). Inr (r, fs(a \<mapsto> p')))))"

definition destroy :: "nat option \<Rightarrow> 'p frames \<Rightarrow> 'p frames result" where
  "destroy h fs =
     (case h of
        None \<Rightarrow> Inl NullDereference
      | Some a \<Rightarrow> (case fs a of None \<Rightarrow> Inl UseAfterFree | Some p \<Rightarrow> Inr (fs(a := None))))"

definition delete_object :: "nat option \<Rightarrow> 'p frames \<Rightarrow> 'p frames result" where
  "delete_object h fs = (if h \<noteq> None then destroy h fs else Inr fs)"

text \<open>A program that calls a coroutine, uses the object, and leaves its scope.\<close>

definition in_scope :: "nat \<Rightarrow> 'p \<Rightarrow> ('p \<Rightarrow> ('a \<times> 'p) result) \<Rightarrow> 'p frames \<Rightarrow> ('a \<times> 'p frames) result" where
  "in_scope a p use fs =
     (case call_coroutine a p fs of (h, fs1) \<Rightarrow>
        and_then (through h use fs1) (\<lambda>(r, fs2). and_then (delete_object h fs2) (\<lambda>fs3. Inr (r, fs3))))"

section \<open>coroutine.cc\<close>

record generator =
  g_point :: point
  g_n :: int
  g_i :: int
  current_value :: "int option"

text \<open>The call of \<open>sequence\<close>: the coroutine is suspended before its first statement.\<close>

definition sequence :: "int \<Rightarrow> generator" where
  "sequence n = \<lparr>g_point = AtInitial, g_n = n, g_i = 0, current_value = None\<rparr>"

definition yield_value :: "int \<Rightarrow> generator \<Rightarrow> generator" where
  "yield_value v g = g\<lparr>g_point := AtYield, current_value := Some v\<rparr>"

text \<open>The head of the loop, once \<open>i\<close> has its value.\<close>

definition loop_head :: "int \<Rightarrow> generator \<Rightarrow> generator" where
  "loop_head i g = (if i \<le> g_n g then yield_value i (g\<lparr>g_i := i\<rparr>) else g\<lparr>g_i := i, g_point := AtFinal\<rparr>)"

definition resume_handle :: "generator \<Rightarrow> generator result" where
  "resume_handle g =
     (case g_point g of
        AtInitial \<Rightarrow> Inr (loop_head 1 g)
      | AtYield \<Rightarrow> if g_i g + 1 < 2 ^ 31 then Inr (loop_head (g_i g + 1) g) else Inl SignedOverflow
      | AtFinal \<Rightarrow> Inl BadResume)"

definition handle_done :: "generator \<Rightarrow> bool" where
  "handle_done g \<longleftrightarrow> g_point g = AtFinal"

definition deref :: "generator \<Rightarrow> int result" where
  "deref g = (case current_value g of None \<Rightarrow> Inl EmptyOptional | Some v \<Rightarrow> Inr v)"

text \<open>
  The range-based loop of \<open>main\<close>, from the iterator at \<open>g\<close> on, and from \<open>begin\<close>: what it prints, and the
  frame it leaves.
\<close>

function print_from :: "generator \<Rightarrow> (int list \<times> generator) result" where
  "print_from g =
     (if handle_done g then Inr ([], g)
      else case deref g of
             Inl e \<Rightarrow> Inl e
           | Inr v \<Rightarrow> (case resume_handle g of
                        Inl e \<Rightarrow> Inl e
                      | Inr g' \<Rightarrow> and_then (print_from g') (\<lambda>(vs, g''). Inr (v # vs, g''))))"
  by pat_completeness auto
termination
proof (relation "measure (\<lambda>g. case g_point g of AtInitial \<Rightarrow> nat (g_n g) + 2 | AtYield \<Rightarrow> nat (g_n g - g_i g) + 1 | AtFinal \<Rightarrow> 0)")
  fix g v g'
  assume "\<not> handle_done g" and "resume_handle g = Inr g'"
  then show "(g', g) \<in> measure (\<lambda>g. case g_point g of AtInitial \<Rightarrow> nat (g_n g) + 2
      | AtYield \<Rightarrow> nat (g_n g - g_i g) + 1 | AtFinal \<Rightarrow> 0)"
    by (cases "g_point g")
      (auto simp: handle_done_def resume_handle_def loop_head_def yield_value_def split: if_splits)
qed simp

declare print_from.simps [simp del]

definition print_all :: "generator \<Rightarrow> (int list \<times> generator) result" where
  "print_all g = and_then (resume_handle g) print_from"

definition coroutine_main :: "int \<Rightarrow> generator frames \<Rightarrow> (int list \<times> generator frames) result" where
  "coroutine_main n = in_scope 0 (sequence n) print_all"

section \<open>AsyncSeq.cc\<close>

text \<open>The same with a plain \<open>int\<close>, whose value before the first \<open>co_yield\<close> is indeterminate (\<open>junk\<close>).\<close>

record async_sequence =
  s_point :: point
  s_n :: int
  s_i :: int
  s_value :: int

definition generate_sequence :: "int \<Rightarrow> int \<Rightarrow> async_sequence" where
  "generate_sequence junk n = \<lparr>s_point = AtInitial, s_n = n, s_i = 0, s_value = junk\<rparr>"

definition s_loop_head :: "int \<Rightarrow> async_sequence \<Rightarrow> async_sequence" where
  "s_loop_head i g =
     (if i \<le> s_n g then g\<lparr>s_i := i, s_point := AtYield, s_value := i\<rparr> else g\<lparr>s_i := i, s_point := AtFinal\<rparr>)"

definition s_resume :: "async_sequence \<Rightarrow> async_sequence result" where
  "s_resume g =
     (case s_point g of
        AtInitial \<Rightarrow> Inr (s_loop_head 1 g)
      | AtYield \<Rightarrow> if s_i g + 1 < 2 ^ 31 then Inr (s_loop_head (s_i g + 1) g) else Inl SignedOverflow
      | AtFinal \<Rightarrow> Inl BadResume)"

function s_print_from :: "async_sequence \<Rightarrow> (int list \<times> async_sequence) result" where
  "s_print_from g =
     (if s_point g = AtFinal then Inr ([], g)
      else case s_resume g of
             Inl e \<Rightarrow> Inl e
           | Inr g' \<Rightarrow> and_then (s_print_from g') (\<lambda>(vs, g''). Inr (s_value g # vs, g'')))"
  by pat_completeness auto
termination
proof (relation "measure (\<lambda>g. case s_point g of AtInitial \<Rightarrow> nat (s_n g) + 2 | AtYield \<Rightarrow> nat (s_n g - s_i g) + 1 | AtFinal \<Rightarrow> 0)")
  fix g g'
  assume "s_point g \<noteq> AtFinal" and "s_resume g = Inr g'"
  then show "(g', g) \<in> measure (\<lambda>g. case s_point g of AtInitial \<Rightarrow> nat (s_n g) + 2
      | AtYield \<Rightarrow> nat (s_n g - s_i g) + 1 | AtFinal \<Rightarrow> 0)"
    by (cases "s_point g") (auto simp: s_resume_def s_loop_head_def split: if_splits)
qed simp

declare s_print_from.simps [simp del]

definition s_print_all :: "async_sequence \<Rightarrow> (int list \<times> async_sequence) result" where
  "s_print_all g = and_then (s_resume g) s_print_from"

definition async_seq_main :: "int \<Rightarrow> int \<Rightarrow> async_sequence frames \<Rightarrow> (int list \<times> async_sequence frames) result" where
  "async_seq_main junk n = in_scope 0 (generate_sequence junk n) s_print_all"

section \<open>AsyncOpt.cc\<close>

text \<open>\<open>generate_until_optional\<close>: the \<open>co_yield\<close>s still to come; \<open>None\<close> once it is at its end.\<close>

record async_optional =
  o_left :: "int option list option"
  o_value :: "int option"

definition generate_until_optional :: async_optional where
  "generate_until_optional = \<lparr>o_left = Some [None, Some 10, Some 20, Some 30], o_value = None\<rparr>"

definition o_resume :: "async_optional \<Rightarrow> async_optional result" where
  "o_resume g =
     (case o_left g of
        None \<Rightarrow> Inl BadResume
      | Some [] \<Rightarrow> Inr (g\<lparr>o_left := None\<rparr>)
      | Some (v # vs) \<Rightarrow> Inr (g\<lparr>o_left := Some vs, o_value := v\<rparr>))"

text \<open>\<open>main\<close> never resumes the coroutine: the value it finds, and the frames it leaves.\<close>

definition optional_main :: "async_optional frames \<Rightarrow> (int option \<times> async_optional frames) result" where
  "optional_main = in_scope 0 generate_until_optional (\<lambda>g. Inr (o_value g, g))"

section \<open>AsyncSin.cc\<close>

text \<open>
  A coroutine that suspends neither at its start nor at its end: the call runs it to the end, where its
  promise gets the value, and passing \<open>final_suspend\<close> without suspending destroys the frame. The
  object it returned before keeps the handle.
\<close>

record single_promise =
  v_value :: int

definition return_value :: "int \<Rightarrow> single_promise \<Rightarrow> single_promise" where
  "return_value v p = p\<lparr>v_value := v\<rparr>"

definition generate_single_value ::
  "nat \<Rightarrow> int \<Rightarrow> single_promise frames \<Rightarrow> (nat option \<times> single_promise frames) result" where
  "generate_single_value a junk fs =
     (case call_coroutine a \<lparr>v_value = junk\<rparr> fs of (h, fs1) \<Rightarrow>
        and_then (through h (\<lambda>p. Inr ((), return_value 42 p)) fs1) (\<lambda>(_, fs2).
        and_then (destroy h fs2) (\<lambda>fs3. Inr (h, fs3))))"

definition get_value :: "nat option \<Rightarrow> single_promise frames \<Rightarrow> (int \<times> single_promise frames) result" where
  "get_value h = through h (\<lambda>p. Inr (v_value p, p))"

text \<open>The destructor: resuming this coroutine is never right, it has no suspension point.\<close>

definition delete_single_value :: "nat option \<Rightarrow> single_promise frames \<Rightarrow> single_promise frames result" where
  "delete_single_value h fs =
     (if h \<noteq> None then and_then (through h (\<lambda>p. Inl BadResume) fs) (\<lambda>((), fs1). destroy h fs1) else Inr fs)"

definition single_main :: "int \<Rightarrow> single_promise frames \<Rightarrow> (int \<times> single_promise frames) result" where
  "single_main junk fs =
     and_then (generate_single_value 0 junk fs) (\<lambda>(result, fs1).
     and_then (get_value result fs1) (\<lambda>(v, fs2).
     and_then (delete_single_value result fs2) (\<lambda>fs3. Inr (v, fs3))))"

section \<open>What the programs print\<close>

lemma print_from_yield:
  assumes "g_point g = AtYield" and "current_value g = Some (g_i g)" and "g_i g \<le> g_n g" and "g_n g < 2 ^ 31 - 1"
  shows "\<exists>g'. print_from g = Inr ([g_i g..g_n g], g')"
  using assms
proof (induction g rule: print_from.induct)
  case (1 g)
  have r: "resume_handle g = Inr (loop_head (g_i g + 1) g)" using 1(2-5) by (simp add: resume_handle_def)
  have d: "deref g = Inr (g_i g)" using 1(3) by (simp add: deref_def)
  show ?case
  proof (cases "g_i g + 1 \<le> g_n g")
    case True
    have "\<exists>g'. print_from (loop_head (g_i g + 1) g) = Inr ([g_i g + 1..g_n g], g')"
      using 1(1) [OF _ d r] 1(2,5) True by (simp add: handle_done_def loop_head_def yield_value_def)
    with 1(2,4) r d show ?thesis by (auto simp: print_from.simps [of g] handle_done_def upto_rec1)
  next
    case False
    then have "\<exists>g'. print_from (loop_head (g_i g + 1) g) = Inr ([], g')"
      by (simp add: loop_head_def print_from.simps handle_done_def)
    moreover have "[g_i g..g_n g] = [g_i g]" using 1(4) False by (simp add: upto_rec1)
    ultimately show ?thesis using 1(2) r d by (auto simp: print_from.simps [of g] handle_done_def)
  qed
qed

lemma s_print_from_yield:
  assumes "s_point g = AtYield" and "s_value g = s_i g" and "s_i g \<le> s_n g" and "s_n g < 2 ^ 31 - 1"
  shows "\<exists>g'. s_print_from g = Inr ([s_i g..s_n g], g')"
  using assms
proof (induction g rule: s_print_from.induct)
  case (1 g)
  have r: "s_resume g = Inr (s_loop_head (s_i g + 1) g)" using 1(2-5) by (simp add: s_resume_def)
  show ?case
  proof (cases "s_i g + 1 \<le> s_n g")
    case True
    have "\<exists>g'. s_print_from (s_loop_head (s_i g + 1) g) = Inr ([s_i g + 1..s_n g], g')"
      using 1(1) [OF _ r] 1(2,5) True by (simp add: s_loop_head_def)
    with 1(2-4) r show ?thesis by (auto simp: s_print_from.simps [of g] upto_rec1)
  next
    case False
    then have "\<exists>g'. s_print_from (s_loop_head (s_i g + 1) g) = Inr ([], g')"
      by (simp add: s_loop_head_def s_print_from.simps)
    moreover have "[s_i g..s_n g] = [s_i g]" using 1(4) False by (simp add: upto_rec1)
    ultimately show ?thesis using 1(2,3) r by (auto simp: s_print_from.simps [of g])
  qed
qed

lemma in_scope_ok:
  "use p = Inr (r, p') \<Longrightarrow> fs a = None \<Longrightarrow> in_scope a p use fs = Inr (r, fs)"
  by (auto simp: in_scope_def call_coroutine_def through_def delete_object_def destroy_def fun_upd_idem)

lemma print_all_spec:
  assumes "n < 2 ^ 31 - 1"
  shows "\<exists>g. print_all (sequence n) = Inr ([1..n], g)"
proof (cases "1 \<le> n")
  case True
  with assms print_from_yield [of "loop_head 1 (sequence n)"] show ?thesis
    by (simp add: print_all_def sequence_def resume_handle_def loop_head_def yield_value_def)
qed (simp add: print_all_def sequence_def resume_handle_def loop_head_def print_from.simps handle_done_def)

lemma s_print_all_spec:
  assumes "n < 2 ^ 31 - 1"
  shows "\<exists>g. s_print_all (generate_sequence junk n) = Inr ([1..n], g)"
proof (cases "1 \<le> n")
  case True
  with assms s_print_from_yield [of "s_loop_head 1 (generate_sequence junk n)"] show ?thesis
    by (simp add: s_print_all_def generate_sequence_def s_resume_def s_loop_head_def)
qed (simp add: s_print_all_def generate_sequence_def s_resume_def s_loop_head_def s_print_from.simps)

text \<open>
  C36. The two generator programs agree: iterating over \<open>sequence(n)\<close> and over \<open>generate_sequence(n)\<close>
  terminates and prints the numbers from 1 to n, nothing when n is not positive; the iterator is never
  dereferenced before there is a value, the coroutine never resumed after its end, and the frame is
  destroyed once and not used afterwards. (For the largest \<open>int\<close> the last increment would overflow.)
\<close>

theorem generators_agree:
  assumes "n < 2 ^ 31 - 1"
  shows "coroutine_main n (\<lambda>_. None) = Inr ([1..n], \<lambda>_. None) \<and>
         async_seq_main junk n (\<lambda>_. None) = Inr ([1..n], \<lambda>_. None)"
  using print_all_spec [OF assms] s_print_all_spec [OF assms, of junk]
  by (auto simp: coroutine_main_def async_seq_main_def intro!: in_scope_ok)

lemma generators_agree_witness: "coroutine_main 5 (\<lambda>_. None) = Inr ([1, 2, 3, 4, 5], \<lambda>_. None)"
  using generators_agree [of 5 0] by (simp add: upto.simps)

text \<open>
  \<open>AsyncOpt.cc\<close> prints that there is no value, since it never resumes its coroutine, which would
  give an empty value, 10, 20, 30, and then end; destroying it where it is suspended is in order.
\<close>

lemma optional_program:
  "optional_main (\<lambda>_. None) = Inr (None, \<lambda>_. None) \<and>
   and_then (o_resume generate_until_optional) (\<lambda>g. and_then (o_resume g) (\<lambda>g. Inr (o_value g))) = Inr (Some 10)"
  by (simp add: optional_main_def in_scope_ok) (simp add: generate_until_optional_def o_resume_def)

text \<open>
  \<open>AsyncSin.cc\<close> reads the promise of a frame that was destroyed when the coroutine ended; its destructor
  would resume it.
\<close>

lemma single_value_dangling:
  "single_main junk (\<lambda>_. None) = Inl UseAfterFree \<and>
   (\<exists>h fs. generate_single_value 0 junk (\<lambda>_. None) = Inr (h, fs) \<and>
      delete_single_value h fs = Inl UseAfterFree)"
  by (simp add: single_main_def generate_single_value_def get_value_def delete_single_value_def call_coroutine_def
      through_def destroy_def)

end
