(* ===== verification/Fiber_Misuse.thy ===== *)
theory Fiber_Misuse
  imports Fiber_Spec
begin

text \<open>
  What the fiber module does outside the discipline of the invariant: a task fiber that resumes another
  one itself, fibers that share an id, and stack sizes beyond 32 bits.
\<close>

text \<open>
  Resuming a fiber from within a task fiber \<open>g\<close> strands the thread. The switch saves the flow of \<open>g\<close> in
  the thread's main fiber, in place of the thread's own. The inner fiber runs and comes back to \<open>g\<close>, where
  \<open>GetThis\<close> now names the main fiber; but when \<open>g\<close> yields it only comes back to itself, no longer RUNNING,
  and its next \<open>yield\<close> aborts the program.
\<close>

lemma nested_resume_strands:
  assumes reach: "fiber_reach W" and fl: "flow_of W th = OnStack g" and f: "is_task W f"
    and ready: "state_of W f = READY"
  shows "\<exists>m W1 W2 W3. t_scheduler_fiber (tls W th) = Some m \<and>
    resume True th f W = Inr W1 \<and> flow_of W1 th = OnStack f \<and>
    yield True th f W1 = Inr W2 \<and> flow_of W2 th = OnStack g \<and>
    GetThis True junk th W2 = Inr (m, W2) \<and> state_of W2 g = RUNNING \<and>
    yield True th g W2 = Inr W3 \<and> flow_of W3 th = OnStack g \<and> yield True th g W3 = Inl AssertionFailed"
proof -
  have inv: "fw_inv W" by (rule fw_inv_reach [OF reach])
  obtain m where m: "t_scheduler_fiber (tls W th) = Some m" "is_task W g" "state_of W g = RUNNING" "m \<noteq> g"
    using thread_on_stack [OF inv fl] by metis
  have ne: "f \<noteq> g" "f \<noteq> m" using m f ready by (auto simp: is_task_def)
  have run: "m_runInScheduler (fibers W f)" "m_runInScheduler (fibers W g)"
    using fw_inv_task [OF inv f] fw_inv_task [OF inv m(2)] by (simp_all add: task_ok_def)
  have ctx: "m_ctx (fibers W f) \<in> {StartOf f, Suspended (OnStack f)}"
    using fw_inv_task [OF inv f] ready by (simp add: task_ok_def)
  define W1 where "W1 = upd_fiber m (\<lambda>x. x\<lparr>m_ctx := Suspended (OnStack g)\<rparr>)
    (SetThis th (Some f) (upd_fiber f (\<lambda>b. b\<lparr>m_state := RUNNING\<rparr>) W))\<lparr>flow_of := (flow_of W)(th := OnStack f)\<rparr>"
  have W1: "resume True th f W = Inr W1" "flow_of W1 th = OnStack f" "state_of W1 f = RUNNING"
    "m_ctx (fibers W1 m) = Suspended (OnStack g)" "t_scheduler_fiber (tls W1 th) = Some m"
    "m_runInScheduler (fibers W1 f)" "fibers W1 g = fibers W g"
    using m ne run ctx ready fl
    by (auto simp: W1_def resume_def Let_def SetThis_def partner_def swapcontext_def upd_fiber_def upd_tls_def)
  define W2 where "W2 = upd_fiber f (\<lambda>x. x\<lparr>m_ctx := Suspended (OnStack f)\<rparr>)
    (SetThis th (Some m) (upd_fiber f (\<lambda>b. b\<lparr>m_state := READY\<rparr>) W1))\<lparr>flow_of := (flow_of W1)(th := OnStack g)\<rparr>"
  have W2: "yield True th f W1 = Inr W2" "flow_of W2 th = OnStack g" "t_fiber (tls W2 th) = Some m"
    "state_of W2 g = RUNNING" "m_ctx (fibers W2 m) = Suspended (OnStack g)"
    "t_scheduler_fiber (tls W2 th) = Some m" "m_runInScheduler (fibers W2 g)"
    using W1 m ne run
    by (auto simp: W2_def yield_def Let_def SetThis_def partner_def swapcontext_def upd_fiber_def upd_tls_def)
  define W3 where "W3 = upd_fiber g (\<lambda>x. x\<lparr>m_ctx := Suspended (OnStack g)\<rparr>)
    (SetThis th (Some m) (upd_fiber g (\<lambda>b. b\<lparr>m_state := READY\<rparr>) W2))\<lparr>flow_of := (flow_of W2)(th := OnStack g)\<rparr>"
  have W3: "yield True th g W2 = Inr W3" "flow_of W3 th = OnStack g" "state_of W3 g = READY"
    using W2 m ne
    by (auto simp: W3_def yield_def Let_def SetThis_def partner_def swapcontext_def upd_fiber_def upd_tls_def)
  have "yield True th g W3 = Inl AssertionFailed" using W3(3) by (simp add: yield_def)
  with m W1 W2 W3 show ?thesis by (auto simp: GetThis_def)
qed

text \<open>
  Fibers do not have ids of their own: user fibers take the counter's value without advancing it, so
  all of them created between two main fibers have one id.
\<close>

lemma fiber_ids_shared:
  assumes "new_fiber c1 s1 r1 mem1 True W = Inr (f1, W1)" and "new_fiber c2 s2 r2 mem2 True W1 = Inr (f2, W2)"
  shows "f1 \<noteq> f2 \<and> fb_id (fibers W2 f1) = fb_id (fibers W2 f2)"
  using assms by (auto simp: new_fiber_Inr upd_fiber_def)

text \<open>The stack size is kept in 32 bits: what a fiber gets is the size asked for modulo \<open>2 ^ 32\<close>.\<close>

lemma stack_size_cut:
  assumes "new_fiber cb sz r mem True W = Inr (f, W')" and "sz \<noteq> 0"
  shows "uint (m_stacksize (fibers W' f)) = uint sz mod 2 ^ 32"
  using assms by (auto simp: new_fiber_Inr unsigned_ucast_eq take_bit_eq_mod)

end
