(* ===== verification/Epoll_Server.thy ===== *)
theory Epoll_Server
  imports Prelude
begin

text \<open>
  Model of \<open>epoll/epoll.cc\<close>, the stand-alone server the library is compared with: the set-up, the treatment
  of one batch of events, and the loop over the batches. The results of the system calls are arguments;
  what the program does to the kernel is the list of its calls.
\<close>

datatype kernel_call =
    Listen int
  | AddFd int
  | Respond int
  | DelFd int
  | CloseFd int

datatype ended = Continue | Return int

section \<open>The set-up\<close>

text \<open>
  The results of \<open>socket\<close>, \<open>bind\<close>, \<open>listen\<close>, \<open>epoll_create1\<close> and \<open>epoll_ctl\<close>, in that order.
\<close>

definition server_setup :: "int \<times> int \<times> int \<times> int \<times> int \<Rightarrow> kernel_call list \<times> ended" where
  "server_setup rs =
     (case rs of (listen_fd, bound, listening, epoll_fd, added) \<Rightarrow>
        if listen_fd = - 1 then ([], Return (- 1))
        else if bound = - 1 then ([], Return (- 1))
        else if listening = - 1 then ([], Return (- 1))
        else if epoll_fd = - 1 then ([Listen listen_fd], Return (- 1))
        else if added = - 1 then ([Listen listen_fd], Return (- 1))
        else ([Listen listen_fd, AddFd listen_fd], Continue))"

section \<open>One batch\<close>

text \<open>
  A reported descriptor with the results of the calls its treatment makes: for the listening socket the
  new descriptor and the result of \<open>epoll_ctl\<close>, for a connection the result of \<open>read\<close>.
\<close>

record report =
  r_fd :: int
  r_accept :: int
  r_ctl :: int
  r_len :: int

definition treat :: "int \<Rightarrow> report \<Rightarrow> kernel_call list \<times> ended" where
  "treat listen_fd r =
     (if r_fd r = listen_fd
      then (if r_accept r = - 1 then ([], Continue)
            else if r_ctl r = - 1 then ([], Return (- 1))
            else ([AddFd (r_accept r)], Continue))
      else (if r_len r \<le> 0 then ([CloseFd (r_fd r)], Continue)
            else ([Respond (r_fd r), DelFd (r_fd r), CloseFd (r_fd r)], Continue)))"

fun batch :: "int \<Rightarrow> report list \<Rightarrow> kernel_call list \<times> ended" where
  "batch listen_fd [] = ([], Continue)"
| "batch listen_fd (r # rs) =
     (case treat listen_fd r of
        (cs, Return n) \<Rightarrow> (cs, Return n)
      | (cs, Continue) \<Rightarrow> (case batch listen_fd rs of (ds, e) \<Rightarrow> (cs @ ds, e)))"

text \<open>The loop: each wait gives its count, -1 for an error, and the reports.\<close>

fun server_loop :: "int \<Rightarrow> (int \<times> report list) list \<Rightarrow> kernel_call list \<times> ended" where
  "server_loop listen_fd [] = ([], Continue)"
| "server_loop listen_fd ((count, rs) # ws) =
     (if count = - 1 then ([], Return (- 1))
      else case batch listen_fd (take (nat count) rs) of
             (cs, Return n) \<Rightarrow> (cs, Return n)
           | (cs, Continue) \<Rightarrow> (case server_loop listen_fd ws of (ds, e) \<Rightarrow> (cs @ ds, e)))"

section \<open>The connections\<close>

text \<open>The connections open after the calls, from those open before.\<close>

fun open_after :: "int set \<Rightarrow> kernel_call list \<Rightarrow> int set" where
  "open_after A [] = A"
| "open_after A (AddFd fd # cs) = open_after (insert fd A) cs"
| "open_after A (CloseFd fd # cs) = open_after (A - {fd}) cs"
| "open_after A (_ # cs) = open_after A cs"

lemma open_after_append: "open_after A (cs @ ds) = open_after (open_after A cs) ds"
  by (induction A cs rule: open_after.induct) simp_all

text \<open>
  The kernel as the program relies on it: \<open>accept\<close> gives a descriptor that is not in use, and a report
  names the listening socket or an open connection.
\<close>

fun kernel_ok :: "int \<Rightarrow> int set \<Rightarrow> report list \<Rightarrow> bool" where
  "kernel_ok listen_fd A [] = True"
| "kernel_ok listen_fd A (r # rs) \<longleftrightarrow>
     (if r_fd r = listen_fd then r_accept r = - 1 \<or> r_accept r \<notin> insert listen_fd A else r_fd r \<in> A) \<and>
     kernel_ok listen_fd (open_after A (fst (treat listen_fd r))) rs"

text \<open>Every call on a descriptor is one on a connection that is open at that moment.\<close>

fun calls_ok :: "int set \<Rightarrow> kernel_call list \<Rightarrow> bool" where
  "calls_ok A [] = True"
| "calls_ok A (AddFd fd # cs) \<longleftrightarrow> fd \<notin> A \<and> calls_ok (insert fd A) cs"
| "calls_ok A (CloseFd fd # cs) \<longleftrightarrow> fd \<in> A \<and> calls_ok (A - {fd}) cs"
| "calls_ok A (Respond fd # cs) \<longleftrightarrow> fd \<in> A \<and> calls_ok A cs"
| "calls_ok A (DelFd fd # cs) \<longleftrightarrow> fd \<in> A \<and> calls_ok A cs"
| "calls_ok A (Listen fd # cs) \<longleftrightarrow> calls_ok A cs"

lemma calls_ok_append: "calls_ok A (cs @ ds) \<longleftrightarrow> calls_ok A cs \<and> calls_ok (open_after A cs) ds"
  by (induction A cs rule: calls_ok.induct) auto

lemma treat_ok:
  assumes "if r_fd r = listen_fd then r_accept r = - 1 \<or> r_accept r \<notin> insert listen_fd A else r_fd r \<in> A"
  shows "calls_ok A (fst (treat listen_fd r))"
  using assms by (auto simp: treat_def)

text \<open>
  A batch uses every connection within its life: it is added once, while it is not open, answered at
  most while it is open, and closed once; the listening socket is never closed.
\<close>

lemma batch_ok:
  assumes "kernel_ok listen_fd A rs"
  shows "calls_ok A (fst (batch listen_fd rs))"
  using assms
proof (induction listen_fd rs arbitrary: A rule: batch.induct)
  case (2 listen_fd r rs)
  obtain cs e where t: "treat listen_fd r = (cs, e)" by (cases "treat listen_fd r")
  have "calls_ok A (fst (treat listen_fd r))" 
    using 2(2) unfolding kernel_ok.simps by (intro treat_ok) (rule conjunct1)
  then have cs: "calls_ok A cs" by (simp add: t)
  show ?case
  proof (cases e)
    case Continue
    obtain ds e' where b: "batch listen_fd rs = (ds, e')" by (cases "batch listen_fd rs")
    have "calls_ok (open_after A cs) ds" using 2(1) [OF t [symmetric] Continue, of "open_after A cs"] 2(2) t b by simp
    with t b Continue cs show ?thesis by (simp add: calls_ok_append)
  next
    case (Return n)
    with t cs show ?thesis by simp
  qed
qed simp

fun waits_ok :: "int \<Rightarrow> int set \<Rightarrow> (int \<times> report list) list \<Rightarrow> bool" where
  "waits_ok listen_fd A [] = True"
| "waits_ok listen_fd A ((count, rs) # ws) \<longleftrightarrow>
     kernel_ok listen_fd A (take (nat count) rs) \<and>
     waits_ok listen_fd (open_after A (fst (batch listen_fd (take (nat count) rs)))) ws"

text \<open>The same of the whole loop: the server never touches a descriptor it has closed.\<close>

lemma server_loop_ok:
  assumes "waits_ok listen_fd A ws"
  shows "calls_ok A (fst (server_loop listen_fd ws))"
  using assms
proof (induction listen_fd ws arbitrary: A rule: server_loop.induct)
  case (2 listen_fd count rs ws)
  obtain cs e where b: "batch listen_fd (take (nat count) rs) = (cs, e)"
    by (cases "batch listen_fd (take (nat count) rs)")
  have "calls_ok A (fst (batch listen_fd (take (nat count) rs)))" by (rule batch_ok) (use 2(2) in simp)
  then have cs: "calls_ok A cs" by (simp add: b)
  show ?case
  proof (cases e)
    case Continue
    obtain ds e' where l: "server_loop listen_fd ws = (ds, e')" by (cases "server_loop listen_fd ws")
    show ?thesis
    proof (cases "count = - 1")
      case False
      have "calls_ok (open_after A cs) ds"
        using 2(1) [OF False b [symmetric] Continue, of "open_after A cs"] 2(2) b l by simp
      with b l Continue cs False show ?thesis by (simp add: calls_ok_append)
    qed simp
  next
    case (Return n)
    with b cs show ?thesis by simp
  qed
qed simp

text \<open>
  A connection is lost when its \<open>epoll_ctl\<close> fails: the program ends with it open and with the listening
  socket and every other connection left to the system.
\<close>

lemma failed_add_ends:
  "r_fd r = listen_fd \<Longrightarrow> r_accept r \<noteq> - 1 \<Longrightarrow> r_ctl r = - 1 \<Longrightarrow>
   batch listen_fd (r # rs) = ([], Return (- 1))"
  by (simp add: treat_def)

end
