(* ===== verification/Timer_Race.thy ===== *)
theory Timer_Race
  imports Timer_Spec
begin

text \<open>
  \<open>Timer::reset\<close> releases the manager's lock between taking the timer out of the set and adding it again.
  What another thread can do in between.
\<close>

text \<open>
  A timer cancelled in that window, by a \<open>cancel\<close> that reports success, is in the set again afterwards,
  without a function: it keeps \<open>hasTimer\<close> true and an \<open>IOManager\<close> from stopping until its new deadline,
  and \<open>listExpiredCb\<close> then hands out an empty function. (No other timer has the new deadline.)
\<close>

lemma reset_cancel_race:
  assumes wf: "tm_wf M" and t: "t \<in> set (m_timers M)" and cb: "tm_cb (heap M t) \<noteq> None"
    and free: "\<forall>u \<in> set (m_timers M). u \<noteq> t \<longrightarrow> m_next (heap M u) \<noteq> add_ms now ms"
  shows "\<exists>M1 M2 M3 front. reset_erase t M = (True, M1) \<and> cancel t M1 = (True, M2) \<and>
    reset_rearm ms True now t M2 = (front, M3) \<and>
    t \<in> set (m_timers M3) \<and> tm_cb (heap M3 t) = None \<and> hasTimer M3 \<and> \<not> tm_live M3"
proof -
  have sorted: "sorted_wrt (timer_less (heap M)) (m_timers M)" using wf by (simp add: tm_wf_def)
  obtain i where i: "oset_find (timer_less (heap M)) t (m_timers M) = Some i" "m_timers M ! i = t"
    using timer_order.find_member [OF sorted t] by metis
  let ?xs = "erase_at i (m_timers M)"
  define M1 where "M1 = M\<lparr>m_timers := ?xs\<rparr>"
  have xs: "set ?xs = set (m_timers M) - {t}"
    using set_erase_at_distinct [OF tm_wf_distinct [OF wf] oset_find_length [OF i(1)]] i(2) by simp
  have e: "reset_erase t M = (True, M1)" using cb i(1) by (simp add: reset_erase_def M1_def)
  have "m_next (heap M t) \<notin> (\<lambda>u. m_next (heap M u)) ` set ?xs"
    using tm_wf_inj [OF wf t] xs by auto
  then have gone: "oset_find (timer_less (heap M)) t ?xs = None"
    using timer_find_None_key [OF sorted_wrt_erase_at [OF sorted], of t i] by blast
  define M2 where "M2 = M1\<lparr>heap := (heap M)(t := (heap M t)\<lparr>tm_cb := None\<rparr>)\<rparr>"
  have c: "cancel t M1 = (True, M2)"
    using cb gone by (simp add: cancel_def Let_def M1_def M2_def)
  let ?tm = "(heap M t)\<lparr>tm_cb := None, m_ms := ms, m_next := add_ms now ms\<rparr>"
  let ?M3 = "M2\<lparr>heap := (heap M)(t := ?tm)\<rparr>"
  obtain front M3 where r: "addTimer_ptr t ?M3 = (front, M3)" by (cases "addTimer_ptr t ?M3")
  then have rearm: "reset_rearm ms True now t M2 = (front, M3)"
    by (simp add: reset_rearm_def Let_def M2_def)
  have h3: "heap M3 = (heap M)(t := ?tm)"
    using r heap_addTimer_ptr [of t ?M3] by simp
  have sorted3: "sorted_wrt (timer_less ((heap M)(t := ?tm))) ?xs"
    using sorted_timers_upd [of t ?xs "heap M" ?tm] sorted_wrt_erase_at [OF sorted, of i] xs by simp
  have "m_next (((heap M)(t := ?tm)) t) \<notin> (\<lambda>u. m_next (((heap M)(t := ?tm)) u)) ` set ?xs"
    using free xs by auto
  then have "oset_find (timer_less ((heap M)(t := ?tm))) t ?xs = None"
    using timer_find_None_key [OF sorted3, of t] by blast
  then have ins: "set (snd (oset_insert (timer_less ((heap M)(t := ?tm))) t ?xs)) = insert t (set ?xs)"
    by (rule timer_order.insert_fresh [OF sorted3])
  have "m_timers M3 = snd (oset_insert (timer_less ((heap M)(t := ?tm))) t ?xs)"
    using r by (auto simp: addTimer_ptr_def Let_def M2_def M1_def split: prod.splits)
  with ins have "set (m_timers M3) = insert t (set ?xs)" by simp
  then have "t \<in> set (m_timers M3)" "hasTimer M3" by (auto simp: hasTimer_def)
  with e c rearm h3 show ?thesis by (auto simp: tm_live_def)
qed

end
