(* ===== verification/IOManager_Round.thy ===== *)
theory IOManager_Round
  imports IOManager_Run
begin

text \<open>
  One round of the idle function as a whole: the wait with its retries, the timers, and the events that
  \<open>epoll_wait\<close> reported.
\<close>

section \<open>The wait\<close>

text \<open>A wait that has returned has only advanced the clock and cleared the flag of the timers.\<close>

lemma timeout_state: "snd (idle_timeout m) = m\<lparr>io_timers := (io_timers m)\<lparr>m_tickled := False\<rparr>\<rparr>"
  by (simp add: idle_timeout_def case_prod_beta next_timer_snd)

lemma wait_keeps:
  "idle_wait as m = Some (rt, m1) \<Longrightarrow>
     \<exists>c. m1 = m\<lparr>io_timers := (io_timers m)\<lparr>m_tickled := False\<rparr>, io_clock := c\<rparr>"
proof (induction as m rule: idle_wait.induct)
  case (2 r eintr clock as m)
  obtain t where t: "idle_timeout m = (t, m\<lparr>io_timers := (io_timers m)\<lparr>m_tickled := False\<rparr>\<rparr>)"
    using timeout_state [of m] by (cases "idle_timeout m") simp
  let ?m2 = "m\<lparr>io_timers := (io_timers m)\<lparr>m_tickled := False\<rparr>, io_clock := clock\<rparr>"
  show ?case
  proof (cases "r < 0 \<and> eintr")
    case True
    with 2(2) t have "idle_wait as ?m2 = Some (rt, m1)" by simp
    from 2(1) [OF t [symmetric] refl True] this show ?thesis by auto
  next
    case False
    with 2(2) t show ?thesis by auto
  qed
qed simp

text \<open>The retries: the wait returns with the first attempt that is not an interrupted one.\<close>

lemma wait_returns:
  "(\<exists>r. idle_wait as m = Some r) \<longleftrightarrow> (\<exists>(rt, eintr, clock) \<in> set as. \<not> (rt < 0 \<and> eintr))"
  by (induction as m rule: idle_wait.induct) (auto simp: Let_def split: prod.splits)

section \<open>The pipe\<close>

lemma drain_zero [simp]: "drain n = 0"
  by (induction n rule: drain.induct) (subst drain.simps, auto)

section \<open>The events of a report\<close>

definition event_tasks :: "iomanager \<Rightarrow> int \<times> ready_source \<times> 32 word \<Rightarrow> sched_task list" where
  "event_tasks m e =
     (case e of
        (rt2, TicklePipe, _) \<Rightarrow> []
      | (rt2, OfContext i, reported) \<Rightarrow>
          if rt2 \<noteq> 0 then []
          else let c = m_fdContexts m ! i
               in map context_task (filter (\<lambda>ec. ec_scheduler ec = Some (io_self m))
                    (contexts_of (real_events reported (fc_events c)) c)))"

definition sources :: "(int \<times> ready_source \<times> 32 word) list \<Rightarrow> nat list" where
  "sources es = concat (map (\<lambda>(_, src, _). case src of TicklePipe \<Rightarrow> [] | OfContext i \<Rightarrow> [i]) es)"

text \<open>The kernel reports each descriptor at most once, with the events its list has for it.\<close>

definition reports_ok :: "iomanager \<Rightarrow> (int \<times> ready_source \<times> 32 word) list \<Rightarrow> bool" where
  "reports_ok m es \<longleftrightarrow> distinct (sources es) \<and>
     (\<forall>(rt2, src, reported) \<in> set es. \<forall>i. src = OfContext i \<longrightarrow>
        usable (int i) m \<and> kernel_reports (fc_events (m_fdContexts m ! i)) reported)"

lemma event_self:
  assumes "io_reach m" and "usable (int i) m" and "kernel_reports (fc_events (m_fdContexts m ! i)) reported"
    and "idle_event rt (OfContext i) reported m = Inr m'"
  shows "io_self m' = io_self m"
  using idle_event_spec [OF io_reach_inv [OF assms(1)] _ assms(3), of rt] assms(2,4)
  by (auto simp: Let_def fire_all_def fire_def usable_def split: if_splits)

lemma contexts_of_zero [simp]: "contexts_of 0 c = []"
  by (simp add: contexts_of_def)

lemma one_event:
  assumes reach: "io_reach m" and u: "usable (int i) m"
    and rep: "kernel_reports (fc_events (m_fdContexts m ! i)) reported"
  obtains m' where "idle_event rt (OfContext i) reported m = Inr m'" and "io_reach m'"
    and "m_tasks m' = m_tasks m @ event_tasks m (rt, OfContext i, reported)"
    and "io_self m' = io_self m" and "m_tickleFds m' = m_tickleFds m"
    and "length (m_fdContexts m') = length (m_fdContexts m)"
    and "\<And>j. j \<noteq> i \<Longrightarrow> m_fdContexts m' ! j = m_fdContexts m ! j"
proof -
  from ready_delivered [OF reach u rep, of rt] obtain m' where
    r: "idle_event rt (OfContext i) reported m = Inr m'" and
    m': "if rt \<noteq> 0 \<or> real_events reported (fc_events (m_fdContexts m ! i)) = 0 then m' = m
      else m_tasks m' = m_tasks m @ map context_task (filter (\<lambda>ec. ec_scheduler ec = Some (io_self m))
             (contexts_of (real_events reported (fc_events (m_fdContexts m ! i))) (m_fdContexts m ! i))) \<and>
           m_fdContexts m' = (m_fdContexts m)[i := fired (real_events reported (fc_events (m_fdContexts m ! i)))
             (m_fdContexts m ! i)]"
    unfolding Let_def by (auto split: if_splits simp del: n_events.simps)
  show thesis
  proof (rule that [OF r])
    show "io_reach m'" by (rule io_reach.op [OF reach io_op.ready [OF u rep r]])
    show "m_tasks m' = m_tasks m @ event_tasks m (rt, OfContext i, reported)"
      using m' by (auto simp: event_tasks_def Let_def split: if_splits)
    show "io_self m' = io_self m" by (rule event_self [OF reach u rep r])
    show "m_tickleFds m' = m_tickleFds m" "length (m_fdContexts m') = length (m_fdContexts m)"
      using io_op_inv [OF io_op.ready [OF u rep r] io_reach_inv [OF reach]] by (simp_all add: same_shape_def)
    show "m_fdContexts m' ! j = m_fdContexts m ! j" if "j \<noteq> i" for j
      using m' that by (auto split: if_splits)
  qed
qed

lemma events_delivered:
  assumes "io_reach m" and "reports_ok m es"
  shows "\<exists>m'. idle_events es m = Inr m' \<and> io_reach m' \<and>
    m_tasks m' = m_tasks m @ concat (map (event_tasks m) es)"
  using assms
proof (induction es arbitrary: m)
  case (Cons e es)
  obtain rt src reported where e: "e = (rt, src, reported)" by (cases e) auto
  show ?case
  proof (cases src)
    case TicklePipe
    let ?m = "m\<lparr>pipe_bytes := 0\<rparr>"
    have "io_reach ?m" by (rule io_reach.op [OF Cons.prems(1) io_op.other]) simp_all
    moreover have "reports_ok ?m es"
      using Cons.prems(2) by (auto simp: reports_ok_def sources_def usable_def e TicklePipe)
    moreover have "event_tasks ?m = event_tasks m" by (intro ext) (auto simp: event_tasks_def split: prod.splits ready_source.splits)
    ultimately show ?thesis
      using Cons.IH [of ?m] by (auto simp: e TicklePipe idle_event_def event_tasks_def)
  next
    case (OfContext i)
    with Cons.prems(2) have u: "usable (int i) m" "kernel_reports (fc_events (m_fdContexts m ! i)) reported"
      and fresh: "i \<notin> set (sources es)" and ok: "reports_ok m es"
      by (auto simp: reports_ok_def sources_def e)
    obtain m1 where m1: "idle_event rt (OfContext i) reported m = Inr m1" "io_reach m1"
      "m_tasks m1 = m_tasks m @ event_tasks m (rt, OfContext i, reported)" "io_self m1 = io_self m"
      "m_tickleFds m1 = m_tickleFds m" "length (m_fdContexts m1) = length (m_fdContexts m)"
      "\<And>j. j \<noteq> i \<Longrightarrow> m_fdContexts m1 ! j = m_fdContexts m ! j"
      using one_event [OF Cons.prems(1) u, of rt] by metis
    have other: "j \<noteq> i" if "(r, OfContext j, p) \<in> set es" for r j p
      using that fresh by (force simp: sources_def)
    have "reports_ok m1 es"
      using ok m1(5-7) other unfolding reports_ok_def usable_def by fastforce
    moreover have "event_tasks m1 d = event_tasks m d" if "d \<in> set es" for d
      using that m1(4,7) other by (auto simp: event_tasks_def split: prod.splits ready_source.splits)
    then have "concat (map (event_tasks m1) es) = concat (map (event_tasks m) es)" by (metis map_cong)
    ultimately show ?thesis
      using Cons.IH [OF m1(2)] m1(1,3) by (auto simp: e OfContext)
  qed
qed simp

section \<open>A round\<close>

lemma expired_tasks:
  assumes "idle_timers now2 m = Some (Inr m2)"
  shows "m_fdContexts m2 = m_fdContexts m \<and> ctl_log m2 = ctl_log m \<and> m_pendingEventCount m2 = m_pendingEventCount m \<and>
    m_tickleFds m2 = m_tickleFds m \<and> io_self m2 = io_self m"
proof -
  from assms obtain cbs T where s: "schedule_all cbs (m\<lparr>io_timers := T\<rparr>) = Inr m2"
    by (auto simp: idle_timers_def split: option.splits)
  have "schedule_all cbs n = Inr n' \<Longrightarrow> m_fdContexts n' = m_fdContexts n \<and> ctl_log n' = ctl_log n \<and>
      m_pendingEventCount n' = m_pendingEventCount n \<and> m_tickleFds n' = m_tickleFds n \<and> io_self n' = io_self n" for n n'
    by (induction cbs arbitrary: n) (auto simp: scheduleLock_io pushed_def)
  from this [OF s] show ?thesis by simp
qed

text \<open>
  C12. A round of the idle function, from its test to its yield, succeeds and does what it is for. When
  the kernel reports each descriptor at most once and only with events of its list, or errors, and the
  recurring timers have sane periods, then nothing in it fails, whatever \<open>epoll_ctl\<close> returns; the queue
  grows by the functions of exactly the timers that are due, in order, and then by what was registered
  for each reported event, in the order of the report; and contexts, count and kernel agree afterwards.
\<close>

theorem idle_round_serves_all:
  assumes "io_reach m" and "idle_wait attempts m = Some (rt, m1)"
    and "tm_wf (io_timers m)" and "clock_ok (io_clock m1)" and "\<not> fst (detectClockRollover now2 (io_timers m))"
    and "\<forall>t \<in> set (m_timers (io_timers m)). m_recurring (heap (io_timers m) t) \<longrightarrow>
           m_ms (heap (io_timers m) t) \<noteq> 0 \<and> period_ok (m_ms (heap (io_timers m) t))"
    and "reports_ok m (take (nat rt) events)"
  shows "\<exists>m'. idle_round attempts now2 events m = Some (Inr m') \<and> io_reach m' \<and>
    m_tasks m' = m_tasks m @
      map (\<lambda>c. ScheduleTask (CbCopied c) (- 1)) (filter (\<lambda>c. c \<noteq> None) (map (\<lambda>t. tm_cb (heap (io_timers m) t))
        (takeWhile (due (io_clock m1) (io_timers m)) (m_timers (io_timers m))))) @
      concat (map (event_tasks m) (take (nat rt) events))"
proof -
  obtain c where m1: "m1 = m\<lparr>io_timers := (io_timers m)\<lparr>m_tickled := False\<rparr>, io_clock := c\<rparr>"
    using wait_keeps [OF assms(2)] by blast
  let ?T = "(io_timers m)\<lparr>m_tickled := False\<rparr>"
  let ?cbs = "map (\<lambda>t. tm_cb (heap (io_timers m) t)) (takeWhile (due c (io_timers m)) (m_timers (io_timers m)))"
  have c: "io_clock m1 = c" "clock_ok c" using m1 assms(4) by simp_all
  have due: "due c ?T = due c (io_timers m)" by (rule ext) (simp add: due_def)
  have "\<exists>T'. listExpiredCb c now2 [] ?T = Some (?cbs, T')"
    using listExpiredCb_correct_aux [of ?T c now2 "[]"] assms(3,5,6) c(2) due
    by (auto simp: tm_wf_def detectClockRollover_def)
  then obtain T' where T': "listExpiredCb c now2 [] ?T = Some (?cbs, T')" ..
  obtain m2 where m2: "schedule_all ?cbs (m1\<lparr>io_timers := T'\<rparr>) = Inr m2"
    "m_tasks m2 = m_tasks m @ map (\<lambda>c. ScheduleTask (CbCopied c) (- 1)) (filter (\<lambda>c. c \<noteq> None) ?cbs)"
    using schedule_all_spec [of ?cbs "m1\<lparr>io_timers := T'\<rparr>"] m1 by auto
  have expired: "idle_timers now2 m1 = Some (Inr m2)"
    using T' m2(1) by (simp add: idle_timers_def m1)
  note same = expired_tasks [OF expired]
  have reach: "io_reach m2"
    by (rule io_reach.op [OF assms(1) io_op.other]) (use same m1 in simp_all)
  have "reports_ok m2 (take (nat rt) events)"
    using assms(7) same m1 by (simp add: reports_ok_def usable_def)
  moreover have "event_tasks m2 = event_tasks m"
    using same m1 by (intro ext) (auto simp: event_tasks_def split: prod.splits ready_source.splits)
  ultimately obtain m' where "idle_events (take (nat rt) events) m2 = Inr m'" "io_reach m'"
    "m_tasks m' = m_tasks m2 @ concat (map (event_tasks m) (take (nat rt) events))"
    using events_delivered [OF reach] by metis
  with expired assms(2) m2(2) c show ?thesis by (simp add: idle_round_def)
qed

lemma idle_round_serves_all_witness:
  "\<exists>m'. idle_round [(- 1, True, 1), (1, False, 2)] 0 [(0, OfContext 7, EPOLLIN)] io1 = Some (Inr m') \<and>
     m_tasks m' = [\<lparr>st_fiber = None, st_cb = Some (UserFn 9), st_thread = - 1\<rparr>]"
proof -
  have T: "io_timers io1 = new_manager 0" by (simp add: io1_def after_add_def)
  have "\<exists>m1. idle_wait [(- 1, True, 1), (1, False, 2)] io1 = Some (1, m1) \<and> io_clock m1 = 2"
    by (simp add: case_prod_beta)
  then obtain m1 where m1: "idle_wait [(- 1, True, 1), (1, False, 2)] io1 = Some (1, m1)" "io_clock m1 = 2"
    by blast
  have "reports_ok io1 (take (nat 1) [(0, OfContext 7, EPOLLIN)])"
    by (simp add: reports_ok_def sources_def usable_def kernel_reports_def)
  moreover have "\<not> fst (detectClockRollover 0 (io_timers io1))" unfolding T by code_simp
  ultimately show ?thesis
    using idle_round_serves_all [OF io1_reach m1(1), of 0 "[(0, OfContext 7, EPOLLIN)]"] m1(2)
    by (simp add: T tm_wf_def new_manager_def clock_ok_def event_tasks_def Let_def real_events_def contexts_of_def
        io1_def after_add_def with_event_def set_context_def the_context_def new_fd_context_def context_task_def context_arg_def) blast
qed

end
