(* ===== verification/IOManager_Pollers.thy ===== *)
theory IOManager_Pollers
  imports IOManager_Round
begin

text \<open>
  The idle functions of several workers on one manager. Each asks the kernel for a report and treats
  it one event after the other, locking only the context it treats, while the others do the same and
  the program goes on registering and removing events.
\<close>

section \<open>Reports in flight\<close>

text \<open>\<open>batch p th\<close>: what the report of worker \<open>th\<close> has left, descriptors with their events.\<close>

record polling =
  mgr :: iomanager
  batch :: "nat \<Rightarrow> (nat \<times> 32 word) list"

definition reported_to :: "polling \<Rightarrow> nat \<Rightarrow> nat \<Rightarrow> bool" where
  "reported_to p th i \<longleftrightarrow> i \<in> fst ` set (batch p th)"

text \<open>
  \<open>wait\<close> is the return of an \<open>epoll_wait\<close>: each descriptor once, with events it is registered for at
  that moment. The descriptors are edge-triggered, so the kernel may report one to a second worker
  while the first has not treated its report; \<open>shared\<close> says whether that happens. \<open>op\<close> is any other
  operation on descriptors that no report in flight has; registering an event is always possible.
\<close>

inductive poll_step :: "bool \<Rightarrow> polling \<Rightarrow> polling \<Rightarrow> bool" for shared where
  wait: "batch p th = [] \<Longrightarrow> distinct (map fst es) \<Longrightarrow>
    \<forall>(i, r) \<in> set es. usable (int i) (mgr p) \<and> kernel_reports (fc_events (m_fdContexts (mgr p) ! i)) r \<Longrightarrow>
    shared \<or> (\<forall>(i, r) \<in> set es. \<forall>t. \<not> reported_to p t i) \<Longrightarrow>
    poll_step shared p (p\<lparr>batch := (batch p)(th := es)\<rparr>)"
| treat: "batch p th = (i, r) # es \<Longrightarrow> idle_event rt (OfContext i) r (mgr p) = Inr m' \<Longrightarrow>
    poll_step shared p (p\<lparr>mgr := m', batch := (batch p)(th := es)\<rparr>)"
| add: "usable fd (mgr p) \<Longrightarrow> valid_event v \<Longrightarrow>
    addEvent rt junk th (Some s) fd v cb (mgr p) W = Inr (b, m', W') \<Longrightarrow>
    poll_step shared p (p\<lparr>mgr := m'\<rparr>)"
| op: "io_op (mgr p) m' \<Longrightarrow>
    \<forall>th i. reported_to p th i \<longrightarrow> m_fdContexts m' ! i = m_fdContexts (mgr p) ! i \<Longrightarrow>
    poll_step shared p (p\<lparr>mgr := m'\<rparr>)"

inductive poll_reach :: "bool \<Rightarrow> polling \<Rightarrow> bool" for shared where
  start: "io_reach m \<Longrightarrow> poll_reach shared \<lparr>mgr = m, batch = (\<lambda>_. [])\<rparr>"
| step: "poll_reach shared p \<Longrightarrow> poll_step shared p p' \<Longrightarrow> poll_reach shared p'"

section \<open>Reports that are not shared\<close>

definition poll_inv :: "polling \<Rightarrow> bool" where
  "poll_inv p \<longleftrightarrow> io_reach (mgr p) \<and>
     (\<forall>th. distinct (map fst (batch p th)) \<and>
        (\<forall>(i, r) \<in> set (batch p th).
           usable (int i) (mgr p) \<and> kernel_reports (fc_events (m_fdContexts (mgr p) ! i)) r)) \<and>
     (\<forall>t1 t2 i. reported_to p t1 i \<longrightarrow> reported_to p t2 i \<longrightarrow> t1 = t2)"

lemma poll_inv_intro:
  assumes "io_reach (mgr p)" and "\<And>th. distinct (map fst (batch p th))"
    and "\<And>th i r. (i, r) \<in> set (batch p th) \<Longrightarrow>
      usable (int i) (mgr p) \<and> kernel_reports (fc_events (m_fdContexts (mgr p) ! i)) r"
    and "\<And>t1 t2 i. reported_to p t1 i \<Longrightarrow> reported_to p t2 i \<Longrightarrow> t1 = t2"
  shows "poll_inv p"
  using assms unfolding poll_inv_def by blast

lemma poll_inv_pending:
  assumes "poll_inv p" and "(i, r) \<in> set (batch p th)"
  shows "usable (int i) (mgr p)" and "kernel_reports (fc_events (m_fdContexts (mgr p) ! i)) r" and "reported_to p th i"
  using assms by (auto simp: poll_inv_def reported_to_def intro: rev_image_eqI)

lemma kernel_reports_mono: "kernel_reports e r \<Longrightarrow> kernel_reports (e OR v) r"
proof -
  assume "kernel_reports e r"
  then have "\<not> bit (r AND NOT (e OR EPOLLERR OR EPOLLHUP)) n" for n by (simp add: kernel_reports_def)
  then have "\<not> bit (r AND NOT ((e OR v) OR EPOLLERR OR EPOLLHUP)) n" for n
    by (auto simp: bit_and_iff bit_or_iff bit_not_iff)
  then show ?thesis unfolding kernel_reports_def by (intro bit_eqI) simp
qed

lemma addEvent_grows:
  assumes inv: "io_inv m" and u: "usable fd m" and v: "valid_event v"
    and r: "addEvent rt junk th (Some s) fd v cb m W = Inr (b, m', W')"
  shows "\<exists>e. fc_events (m_fdContexts m' ! j) = fc_events (m_fdContexts m ! j) OR e"
  using inv u v r
proof (cases rule: addEvent_outcome)
  case 1
  then show ?thesis by (intro exI [of _ 0]) simp
next
  case (2 ec)
  then show ?thesis
    using u by (cases "j = nat fd")
      (auto simp: after_add_def usable_def nat_less_iff intro: exI [of _ v] exI [of _ 0])
qed

lemma op_keeps:
  assumes "io_reach m" and "io_op m m'"
  shows "io_reach m'" and "usable fd m' \<longleftrightarrow> usable fd m"
  using io_reach.op [OF assms] io_op_inv [OF assms(2) io_reach_inv [OF assms(1)]]
  by (simp_all add: same_shape_def usable_def)

lemma poll_invI:
  assumes inv: "poll_inv p" and reach: "io_reach m'" and same: "\<And>fd. usable fd m' \<longleftrightarrow> usable fd (mgr p)"
    and keep: "\<And>t j r. (j, r) \<in> set (b' t) \<Longrightarrow> (j, r) \<in> set (batch p t) \<and>
      (kernel_reports (fc_events (m_fdContexts (mgr p) ! j)) r \<longrightarrow> kernel_reports (fc_events (m_fdContexts m' ! j)) r)"
    and dist: "\<And>t. distinct (map fst (b' t))"
  shows "poll_inv \<lparr>mgr = m', batch = b'\<rparr>"
proof -
  have sub: "reported_to p t i" if "reported_to \<lparr>mgr = m', batch = b'\<rparr> t i" for t i
    using that keep by (force simp: reported_to_def)
  have "t1 = t2" if "reported_to \<lparr>mgr = m', batch = b'\<rparr> t1 i" "reported_to \<lparr>mgr = m', batch = b'\<rparr> t2 i" for t1 t2 i
    using inv sub [OF that(1)] sub [OF that(2)] by (simp add: poll_inv_def)
  moreover have "usable (int j) m' \<and> kernel_reports (fc_events (m_fdContexts m' ! j)) r" if "(j, r) \<in> set (b' t)" for t j r
    using inv keep [OF that] same by (auto simp: poll_inv_def)
  ultimately show ?thesis using reach dist by (auto simp: poll_inv_def)
qed

lemma poll_inv_wait:
  assumes inv: "poll_inv p" and es: "distinct (map fst es)"
    "\<forall>(i, r) \<in> set es. usable (int i) (mgr p) \<and> kernel_reports (fc_events (m_fdContexts (mgr p) ! i)) r"
    and new: "\<forall>(i, r) \<in> set es. \<forall>t. \<not> reported_to p t i"
  shows "poll_inv (p\<lparr>batch := (batch p)(th := es)\<rparr>)"
proof -
  let ?p = "p\<lparr>batch := (batch p)(th := es)\<rparr>"
  have old: "if t = th then i \<in> fst ` set es else reported_to p t i" if "reported_to ?p t i" for t i
    using that by (auto simp: reported_to_def)
  have fresh: "\<not> reported_to p t i" if "i \<in> fst ` set es" for t i using new that by auto
  have uniq: "t1 = t2" if "reported_to ?p t1 i" "reported_to ?p t2 i" for t1 t2 i
  proof (cases "i \<in> fst ` set es")
    case True
    with old [OF that(1)] old [OF that(2)] fresh [of i] have "t1 = th" "t2 = th" by metis+
    then show ?thesis by simp
  next
    case False
    with old [OF that(1)] old [OF that(2)] have "reported_to p t1 i" "reported_to p t2 i" by metis+
    with inv show ?thesis unfolding poll_inv_def by blast
  qed
  have pending: "usable (int j) (mgr p) \<and> kernel_reports (fc_events (m_fdContexts (mgr p) ! j)) r"
    if "(j, r) \<in> set (batch ?p t)" for t j r
    using poll_inv_pending(1,2) [OF inv] es(2) that by (cases "t = th") auto
  have dist: "distinct (map fst (batch ?p t))" for t
    using inv es(1) by (simp add: poll_inv_def)
  have reach: "io_reach (mgr ?p)" using inv by (simp add: poll_inv_def)
  show ?thesis by (rule poll_inv_intro [OF reach dist _ uniq]) (use pending in simp)
qed

lemma poll_inv_step:
  assumes step: "poll_step False p p'" and inv: "poll_inv p"
  shows "poll_inv p'"
  using step
proof (cases rule: poll_step.cases)
  case (wait th es)
  then show ?thesis using poll_inv_wait [OF inv] by simp
next
  case (treat th i r es rt m')
  have dist: "distinct (map fst (batch p t))" for t using inv by (simp add: poll_inv_def)
  from dist [of th] treat have pending: "(i, r) \<in> set (batch p th)" "distinct (map fst ((i, r) # es))" by simp_all
  then have r: "usable (int i) (mgr p)" "kernel_reports (fc_events (m_fdContexts (mgr p) ! i)) r"
    using inv by (auto simp: poll_inv_def)
  have reach: "io_reach (mgr p)" using inv by (simp add: poll_inv_def)
  have other: "j \<noteq> i" if "(j, q) \<in> set (((batch p)(th := es)) t)" for j q t
  proof (cases "t = th")
    case True
    with that pending(2) treat show ?thesis by force
  next
    case False
    with that inv pending(1) show ?thesis by (force simp: poll_inv_def reported_to_def)
  qed
  from one_event [OF reach r, of rt] treat obtain
    "io_reach m'" "m_tickleFds m' = m_tickleFds (mgr p)" "length (m_fdContexts m') = length (m_fdContexts (mgr p))"
    "\<And>j. j \<noteq> i \<Longrightarrow> m_fdContexts m' ! j = m_fdContexts (mgr p) ! j" by (metis sum.inject(2))
  then have "poll_inv \<lparr>mgr = m', batch = (batch p)(th := es)\<rparr>"
    using inv treat other pending(2)
    by (intro poll_invI [OF inv]) (auto simp: usable_def poll_inv_def split: if_splits)
  moreover have "p' = \<lparr>mgr = m', batch = (batch p)(th := es)\<rparr>" using treat by simp
  ultimately show ?thesis by simp
next
  case (add fd v rt junk th s cb W b m' W')
  have reach: "io_reach (mgr p)" using inv by (simp add: poll_inv_def)
  have "io_op (mgr p) m'" by (rule io_op.add [OF add(2-4)])
  note keep = op_keeps [OF reach this]
  have "kernel_reports (fc_events (m_fdContexts m' ! j)) r"
    if "kernel_reports (fc_events (m_fdContexts (mgr p) ! j)) r" for j r
    using addEvent_grows [OF io_reach_inv [OF reach] add(2-4), of j] kernel_reports_mono [OF that] by auto
  with keep inv have "poll_inv \<lparr>mgr = m', batch = batch p\<rparr>"
    by (intro poll_invI [OF inv]) (auto simp: poll_inv_def)
  then show ?thesis using add by (cases p) simp
next
  case (op m')
  have reach: "io_reach (mgr p)" using inv by (simp add: poll_inv_def)
  note keep = op_keeps [OF reach op(2)]
  have "m_fdContexts m' ! j = m_fdContexts (mgr p) ! j" if "(j, r) \<in> set (batch p t)" for t j r
    using poll_inv_pending(3) [OF inv that] op(3) by blast
  with keep inv have "poll_inv \<lparr>mgr = m', batch = batch p\<rparr>"
    by (intro poll_invI [OF inv]) (auto simp: poll_inv_def)
  then show ?thesis using op by (cases p) simp
qed

lemma poll_reach_inv: "poll_reach False p \<Longrightarrow> poll_inv p"
proof (induction rule: poll_reach.induct)
  case (start m)
  then show ?case by (simp add: poll_inv_def reported_to_def)
qed (rule poll_inv_step)

text \<open>
  C24. Any number of idle functions treat their reports on one manager in any interleaving, with events
  registered everywhere and anything else done to descriptors that no report in flight has, and none of
  them aborts or loses an event, provided the kernel never gives the same descriptor to two workers at
  once: each reported event queues what was registered for it, and count, contexts and interest list go
  on agreeing.
\<close>

theorem unshared_reports_delivered:
  assumes "poll_reach False p" and "batch p th = (i, r) # es"
  shows "\<exists>m'. idle_event rt (OfContext i) r (mgr p) = Inr m' \<and>
           m_tasks m' = m_tasks (mgr p) @ event_tasks (mgr p) (rt, OfContext i, r) \<and>
           unat (m_pendingEventCount m') = registered m' \<and>
           (\<forall>fd. usable fd m' \<longrightarrow> interest m' fd = expected_interest (m_fdContexts m' ! nat fd))"
proof -
  have inv: "poll_inv p" by (rule poll_reach_inv [OF assms(1)])
  then have reach: "io_reach (mgr p)" by (simp add: poll_inv_def)
  have "(i, r) \<in> set (batch p th)" using assms(2) by simp
  then have "usable (int i) (mgr p)" "kernel_reports (fc_events (m_fdContexts (mgr p) ! i)) r"
    using inv by (auto simp: poll_inv_def)
  from one_event [OF reach this, of rt] obtain m' where m': "idle_event rt (OfContext i) r (mgr p) = Inr m'"
    "io_reach m'" "m_tasks m' = m_tasks (mgr p) @ event_tasks (mgr p) (rt, OfContext i, r)" by metis
  have "io_inv m'" by (rule io_reach_inv [OF m'(2)])
  moreover have "registered m' < 2 ^ 64" using registered_bound [of m'] io_reach_length [OF m'(2)] by simp
  ultimately have "unat (m_pendingEventCount m') = registered m'" using inv_pending [of m'] by (simp add: unat_of_nat)
  moreover have "interest m' fd = expected_interest (m_fdContexts m' ! nat fd)" if "usable fd m'" for fd
    using inv_interest [OF \<open>io_inv m'\<close>, of "nat fd"] that by (simp add: usable_def nat_less_iff)
  ultimately show ?thesis using m' by blast
qed

lemma unshared_reports_delivered_witness:
  "\<exists>m'. idle_event 0 (OfContext 7) EPOLLIN io1 = Inr m' \<and>
     m_tasks m' = [\<lparr>st_fiber = None, st_cb = Some (UserFn 9), st_thread = - 1\<rparr>]"
proof -
  let ?p = "\<lparr>mgr = io1, batch = (\<lambda>_. [])\<rparr>" let ?q = "\<lparr>mgr = io1, batch = (\<lambda>_. [])(2 := [(7, EPOLLIN)])\<rparr>"
  have "poll_step False ?p ?q"
    using poll_step.wait [of ?p 2 "[(7, EPOLLIN)]" False] by (simp add: usable_def kernel_reports_def reported_to_def)
  then have "poll_reach False ?q" by (rule poll_reach.step [OF poll_reach.start [OF io1_reach]])
  from unshared_reports_delivered [OF this, of 2 7 EPOLLIN "[]" 0] show ?thesis
    by (auto simp: event_tasks_def Let_def real_events_def contexts_of_def io1_def after_add_def with_event_def
        set_context_def the_context_def new_fd_context_def context_task_def context_arg_def)
qed

section \<open>Reports that are shared\<close>

lemma one_event_left:
  assumes reach: "io_reach m" and u: "usable (int i) m" and v: "valid_event v" "valid_event u" "u \<noteq> v"
    and on: "is_registered (int i) v m" "is_registered (int i) u m"
  shows "\<exists>m'. idle_event 0 (OfContext i) v m = Inr m' \<and> io_reach m' \<and> i < length (m_fdContexts m') \<and>
           fc_events (m_fdContexts m' ! i) = u"
proof -
  let ?c = "m_fdContexts m ! i"
  have i: "i < length (m_fdContexts m)" using u by (simp add: usable_def)
  note both = both_registered [OF io_reach_inv [OF reach] i v on]
  have rep: "kernel_reports (fc_events ?c) v" using both v by (auto simp: kernel_reports_def valid_event_def)
  have real: "real_events v (fc_events ?c) = v" using both v by (auto simp: real_events_def valid_event_def)
  from ready_delivered [OF reach u rep, of 0] real obtain m' where m': "idle_event 0 (OfContext i) v m = Inr m'"
    and ctx: "m_fdContexts m' = (m_fdContexts m)[i := fired v ?c]" and ev: "fc_events (fired v ?c) = fc_events ?c AND NOT v"
    using v by (auto simp: Let_def valid_event_def simp del: n_events.simps)
  have "io_reach m'" by (rule io_reach.op [OF reach io_op.ready [OF u rep m']])
  with m' ctx ev both i show ?thesis by simp
qed

text \<open>
  C37. The proviso is needed. Both events of a descriptor are registered, one becomes ready and is
  reported to an idle worker; before that worker treats it the other becomes ready too, and the kernel,
  which only promises a report per edge, gives both to a second idle worker. Then the first worker
  unregisters what it delivers and the second aborts: it triggers what was reported, not what is
  registered.
\<close>

theorem shared_reports_abort:
  assumes "io_reach m" and "usable (int i) m" and v: "valid_event v" "valid_event u" "u \<noteq> v"
    and "is_registered (int i) v m" and "is_registered (int i) u m" and "t1 \<noteq> t2"
  shows "\<exists>p. poll_reach True p \<and> batch p t2 = [(i, u OR v)] \<and>
           idle_event 0 (OfContext i) (u OR v) (mgr p) = Inl AssertionFailed"
proof -
  let ?p0 = "\<lparr>mgr = m, batch = (\<lambda>_. [])\<rparr>"
  let ?p1 = "?p0\<lparr>batch := (batch ?p0)(t1 := [(i, v)])\<rparr>" let ?p2 = "?p1\<lparr>batch := (batch ?p1)(t2 := [(i, u OR v)])\<rparr>"
  have i: "i < length (m_fdContexts m)" using assms(2) by (simp add: usable_def)
  note both = both_registered [OF io_reach_inv [OF assms(1)] i v assms(6,7)]
  have rep: "kernel_reports (u OR v) v" "kernel_reports (u OR v) (u OR v)"
    using v by (auto simp: kernel_reports_def valid_event_def)
  obtain m' where m': "idle_event 0 (OfContext i) v m = Inr m'" "io_reach m'" "i < length (m_fdContexts m')"
    "fc_events (m_fdContexts m' ! i) = u"
    using one_event_left [OF assms(1,2) v assms(6,7)] by blast
  let ?p3 = "?p2\<lparr>mgr := m', batch := (batch ?p2)(t1 := [])\<rparr>"
  have "poll_step True ?p0 ?p1" by (rule poll_step.wait) (use assms(2) both rep in simp_all)
  moreover have "poll_step True ?p1 ?p2" by (rule poll_step.wait) (use assms(2,8) both rep in simp_all)
  moreover have "poll_step True ?p2 ?p3" by (rule poll_step.treat) (use assms(8) m' in simp_all)
  ultimately have "poll_reach True ?p3" using poll_reach.start [OF assms(1)] by (meson poll_reach.step)
  moreover have "idle_event 0 (OfContext i) (u OR v) m' = Inl AssertionFailed"
    using inv_ctx [OF io_reach_inv [OF m'(2)] m'(3)] m'(3,4) by (intro unregistered_trigger_aborts [OF _ _ v]) simp_all
  ultimately show ?thesis using assms(8) by (intro exI [of _ ?p3]) simp
qed

lemma shared_reports_abort_witness:
  "\<exists>p. poll_reach True p \<and> batch p 1 = [(7, 5)] \<and> idle_event 0 (OfContext 7) 5 (mgr p) = Inl AssertionFailed"
proof -
  have "usable (int 7) io2" "valid_event READ_event" "valid_event WRITE_event" "WRITE_event \<noteq> READ_event"
    "is_registered (int 7) READ_event io2" "is_registered (int 7) WRITE_event io2" "(0 :: nat) \<noteq> 1"
    by (simp_all add: usable_def valid_event_def is_registered_def)
  from shared_reports_abort [OF io2_reach this] show ?thesis by simp
qed

end
