(* ===== verification/Timer_Test.thy ===== *)
theory Timer_Test
  imports Timer_Spec
begin

text \<open>
  Model of \<open>src/timer/test_timer.cc\<close>: ten one-shot timers listed in two portions, then a recurring one,
  and what the program prints. The clock readings are arguments.
\<close>

section \<open>The program\<close>

text \<open>\<open>func(i)\<close> prints \<open>i\<close>; the numbers a callback prints.\<close>

definition call_cb :: "closure option \<Rightarrow> nat list result" where
  "call_cb cb =
     and_then (call_closure (\<lambda>_. True) cb) (\<lambda>c. Inr (case c of Some (UserFn i) \<Rightarrow> [i] | _ \<Rightarrow> []))"

text \<open>The loop that removes and calls the first callback until none is left.\<close>

fun call_all :: "closure option list \<Rightarrow> nat list result" where
  "call_all [] = Inr []"
| "call_all (cb # cbs) =
     and_then (call_cb cb) (\<lambda>out. and_then (call_all cbs) (\<lambda>outs. Inr (out @ outs)))"

text \<open>The loop that adds the timers, from number \<open>i\<close> on, with a clock reading for each.\<close>

fun add_timers :: "nat \<Rightarrow> time list \<Rightarrow> timer_manager \<Rightarrow> timer_manager" where
  "add_timers i [] M = M"
| "add_timers i (now # nows) M =
     add_timers (Suc i) nows
       (snd (snd (addTimer now (of_nat ((i + 1) * 1000)) (Some (UserFn i)) False M)))"

text \<open>A portion: \<open>listExpiredCb\<close>, which reads the clock twice, then the calls.\<close>

definition portion ::
  "time \<times> time \<Rightarrow> timer_manager \<Rightarrow> (nat list \<times> timer_manager) result option" where
  "portion r M =
     (case listExpiredCb (fst r) (snd r) [] M of
        None \<Rightarrow> None
      | Some (cbs, M') \<Rightarrow> Some (and_then (call_all cbs) (\<lambda>out. Inr (out, M'))))"

text \<open>
  The rounds with the recurring timer take the first element of the vector without a test for an empty
  one, and leave the rest in it.
\<close>

fun rounds ::
  "(time \<times> time) list \<Rightarrow> closure option list \<Rightarrow> timer_manager \<Rightarrow> nat list result option" where
  "rounds [] cbs M = Some (Inr [])"
| "rounds (r # rs) cbs M =
     (case listExpiredCb (fst r) (snd r) cbs M of
        None \<Rightarrow> None
      | Some ([], M') \<Rightarrow> Some (Inl OutOfBounds)
      | Some (cb # cbs', M') \<Rightarrow>
          (case call_cb cb of
             Inl e \<Rightarrow> Some (Inl e)
           | Inr out \<Rightarrow> map_option (\<lambda>res. and_then res (\<lambda>outs. Inr (out @ outs))) (rounds rs cbs' M')))"

definition test_timer_main ::
  "time \<Rightarrow> time list \<Rightarrow> time \<times> time \<Rightarrow> time \<times> time \<Rightarrow> time \<Rightarrow> (time \<times> time) list \<Rightarrow> nat list result option" where
  "test_timer_main start nows r1 r2 again rs =
     (case portion r1 (add_timers 0 nows (new_manager start)) of
        None \<Rightarrow> None
      | Some (Inl e) \<Rightarrow> Some (Inl e)
      | Some (Inr (out1, M1)) \<Rightarrow>
          (case portion r2 M1 of
             None \<Rightarrow> None
           | Some (Inl e) \<Rightarrow> Some (Inl e)
           | Some (Inr (out2, M2)) \<Rightarrow>
               map_option (\<lambda>res. and_then res (\<lambda>out3. Inr (out1 @ out2 @ out3)))
                 (rounds rs [] (snd (snd (addTimer again 1000 (Some (UserFn 1000)) True M2))))))"

section \<open>One-shot timers\<close>

lemma call_all_users: "call_all (map (\<lambda>i. Some (UserFn (f i))) xs) = Inr (map f xs)"
  by (induction xs) (simp_all add: call_cb_def)

lemma insert_last:
  "\<forall>y \<in> set xs. timer_less h y x \<Longrightarrow> snd (oset_insert (timer_less h) x xs) = xs @ [x]"
  by (induction xs) auto

text \<open>The set holds the timers from \<open>k\<close> to \<open>n\<close>, with the deadlines \<open>d\<close>.\<close>

definition holds_timers :: "(nat \<Rightarrow> time) \<Rightarrow> nat \<Rightarrow> nat \<Rightarrow> timer_manager \<Rightarrow> bool" where
  "holds_timers d k n M \<longleftrightarrow> m_timers M = [k..<n] \<and> fresh M = n \<and>
     (\<forall>i. k \<le> i \<and> i < n \<longrightarrow> \<not> m_recurring (heap M i) \<and> m_next (heap M i) = d i \<and>
        tm_cb (heap M i) = Some (UserFn i))"

lemma add_timers_spec:
  assumes "holds_timers d 0 n M" and "\<And>i j. i < j \<Longrightarrow> j < n + length nows \<Longrightarrow> d i < d j"
    and "\<And>j. j < length nows \<Longrightarrow> add_ms (nows ! j) (of_nat ((n + j + 1) * 1000)) = d (n + j)"
  shows "holds_timers d 0 (n + length nows) (add_timers n nows M) \<and>
    m_previouseTime (add_timers n nows M) = m_previouseTime M"
  using assms
proof (induction nows arbitrary: n M)
  case (Cons now nows)
  let ?M = "M\<lparr>heap := (heap M)(n := new_timer now (of_nat ((n + 1) * 1000)) (Some (UserFn n)) False), fresh := Suc n\<rparr>"
  let ?M1 = "snd (snd (addTimer now (of_nat ((n + 1) * 1000)) (Some (UserFn n)) False M))"
  have n: "fresh M = n" "m_timers M = [0..<n]" using Cons.prems(1) by (simp_all add: holds_timers_def)
  have d: "add_ms now (of_nat ((n + 1) * 1000)) = d n" using Cons.prems(3) [of 0] by simp
  have "\<forall>y \<in> set [0..<n]. timer_less (heap ?M) y n"
    using Cons.prems(1,2) d by (auto simp: timer_less_def holds_timers_def new_timer_def)
  from insert_last [OF this] have M1: "m_timers ?M1 = [0..<Suc n]" "heap ?M1 = heap ?M" "fresh ?M1 = Suc n"
    "m_previouseTime ?M1 = m_previouseTime M"
    using n by (simp_all add: addTimer_def addTimer_ptr_def Let_def case_prod_beta)
  have "holds_timers d 0 (Suc n) ?M1"
    using Cons.prems(1) M1 d by (auto simp: holds_timers_def new_timer_def)
  moreover have "\<And>j. j < length nows \<Longrightarrow> add_ms (nows ! j) (of_nat ((Suc n + j + 1) * 1000)) = d (Suc n + j)"
    using Cons.prems(3) [of "Suc _"] by simp
  ultimately show ?case using Cons.IH [of "Suc n" ?M1] Cons.prems(2) M1(4) by simp
qed simp

lemma oneshots_expire:
  assumes "m_timers M = ts" and "distinct ts" and "\<forall>t \<in> set ts. \<not> m_recurring (heap M t)"
  shows "\<exists>h. expire_loop False now cbs M =
      Some (cbs @ map (\<lambda>t. tm_cb (heap M t)) (takeWhile (due now M) ts),
            M\<lparr>heap := h, m_timers := dropWhile (due now M) ts\<rparr>) \<and>
    (\<forall>u. u \<notin> set (takeWhile (due now M) ts) \<longrightarrow> h u = heap M u)"
  using assms
proof (induction ts arbitrary: M cbs)
  case Nil
  then show ?case by (intro exI [of _ "heap M"]) simp
next
  case (Cons t ts)
  show ?case
  proof (cases "due now M t")
    case False
    with Cons.prems(1) show ?thesis by (intro exI [of _ "heap M"]) simp
  next
    case True
    let ?M = "M\<lparr>heap := (heap M)(t := (heap M t)\<lparr>tm_cb := None\<rparr>), m_timers := ts\<rparr>"
    have first: "snd (expire_first now t M) = ?M" using Cons.prems(1,3) by (intro expire_first_oneshot) auto
    have due: "due now ?M = due now M" by (auto simp: due_def fun_eq_iff)
    have same: "map (\<lambda>u. tm_cb (heap ?M u)) (takeWhile (due now M) ts) =
        map (\<lambda>u. tm_cb (heap M u)) (takeWhile (due now M) ts)"
      using Cons.prems(2) by (auto dest: set_takeWhileD)
    have prems: "m_timers ?M = ts" "distinct ts" "\<forall>u \<in> set ts. \<not> m_recurring (heap ?M u)"
      using Cons.prems by auto
    from Cons.IH [OF prems, of "cbs @ [tm_cb (heap M t)]"] obtain h where "expire_loop False now (cbs @ [tm_cb (heap M t)]) ?M =
        Some ((cbs @ [tm_cb (heap M t)]) @ map (\<lambda>t. tm_cb (heap ?M t)) (takeWhile (due now ?M) ts),
              ?M\<lparr>heap := h, m_timers := dropWhile (due now ?M) ts\<rparr>)"
      "\<forall>u. u \<notin> set (takeWhile (due now ?M) ts) \<longrightarrow> h u = heap ?M u"
      by blast
    with True first same show ?thesis
      unfolding due by (intro exI [of _ h]) (simp add: expire_loop_step [OF Cons.prems(1)])
  qed
qed

text \<open>The clock of the program never goes back, so no call sees a rollover.\<close>

lemma no_rollover:
  assumes "0 \<le> m_previouseTime M" and "m_previouseTime M \<le> now2" and "now2 < 2 ^ 62"
  shows "\<not> fst (detectClockRollover now2 M)"
proof -
  have "ms_to_ns 3600000 = 3600000000000" by (subst ms_to_ns_exact) (simp_all add: period_ok_def)
  then have "sub_ms (m_previouseTime M) 3600000 = m_previouseTime M - 3600000000000"
    unfolding sub_ms_def using assms by (subst i64_id_num) auto
  with assms show ?thesis by (simp add: detectClockRollover_def)
qed

lemma listExpiredCb_loop:
  "\<not> fst (detectClockRollover now2 M) \<Longrightarrow>
   listExpiredCb now now2 cbs M = expire_loop False now cbs (M\<lparr>m_previouseTime := now2\<rparr>)"
  by (simp add: listExpiredCb_def detectClockRollover_def)

lemma portion_spec:
  assumes h: "holds_timers d k n M" and "k \<le> n" and mono: "\<And>i j. k \<le> i \<Longrightarrow> i < j \<Longrightarrow> j < n \<Longrightarrow> d i < d j"
    and no: "\<not> fst (detectClockRollover now2 M)"
  shows "\<exists>j M'. portion (now, now2) M = Some (Inr ([k..<j], M')) \<and> k \<le> j \<and> j \<le> n \<and> holds_timers d j n M' \<and>
    m_previouseTime M' = now2 \<and> (\<forall>i. k \<le> i \<and> i < n \<longrightarrow> (i < j \<longleftrightarrow> d i \<le> now))"
proof -
  let ?M = "M\<lparr>m_previouseTime := now2\<rparr>" let ?P = "due now ?M"
  define q where "q = length (takeWhile ?P [k..<n])"
  have m: "q \<le> n - k" using length_takeWhile_le [of ?P "[k..<n]"] by (simp add: q_def)
  have tw: "takeWhile ?P [k..<n] = [k..<k + q]"
    using m \<open>k \<le> n\<close> by (subst takeWhile_eq_take) (simp add: take_upt flip: q_def)
  have dw: "dropWhile ?P [k..<n] = [k + q..<n]" by (subst dropWhile_eq_drop) (simp flip: q_def)
  have P: "?P i \<longleftrightarrow> d i \<le> now" if "k \<le> i" "i < n" for i using h that by (simp add: due_def holds_timers_def)
  obtain h' where r: "expire_loop False now [] ?M =
      Some (map (\<lambda>t. tm_cb (heap M t)) [k..<k + q], ?M\<lparr>heap := h', m_timers := [k + q..<n]\<rparr>)"
    and h': "\<forall>u. u \<notin> {k..<k + q} \<longrightarrow> h' u = heap M u"
    using oneshots_expire [of ?M "[k..<n]" now "[]"] h unfolding tw dw by (auto simp: holds_timers_def)
  have eq: "map (\<lambda>t. tm_cb (heap M t)) [k..<k + q] = map (\<lambda>i. Some (UserFn (id i))) [k..<k + q]"
    using h m \<open>k \<le> n\<close> unfolding holds_timers_def by (intro map_cong) auto
  have "call_all (map (\<lambda>t. tm_cb (heap M t)) [k..<k + q]) = Inr [k..<k + q]"
    by (simp only: eq call_all_users list.map_id)
  with r have out: "portion (now, now2) M = Some (Inr ([k..<k + q], ?M\<lparr>heap := h', m_timers := [k + q..<n]\<rparr>))"
    by (simp add: portion_def listExpiredCb_loop [OF no])
  have iff: "i < k + q \<longleftrightarrow> d i \<le> now" if i: "k \<le> i" "i < n" for i
  proof
    assume "i < k + q"
    then have "i \<in> set (takeWhile ?P [k..<n])" using tw i by simp
    then show "d i \<le> now" using P [OF i] by (auto dest: set_takeWhileD)
  next
    assume le: "d i \<le> now"
    show "i < k + q"
    proof (rule ccontr)
      assume "\<not> i < k + q"
      with i have lt: "k + q < n" by simp
      then have "\<not> ?P (k + q)" using nth_length_takeWhile [of ?P "[k..<n]"] by (simp flip: q_def)
      then have "now < d (k + q)" using P [of "k + q"] lt by simp
      with le mono [of "k + q" i] i \<open>\<not> i < k + q\<close> show False by (cases "i = k + q") auto
    qed
  qed
  let ?M' = "?M\<lparr>heap := h', m_timers := [k + q..<n]\<rparr>"
  have "holds_timers d (k + q) n ?M'" using h h' by (simp add: holds_timers_def)
  moreover have "k + q \<le> n" using m \<open>k \<le> n\<close> by simp
  ultimately show ?thesis
    using out iff by (intro exI [of _ "k + q"] exI [of _ ?M']) simp
qed

section \<open>The recurring timer\<close>

definition recurs :: "time \<Rightarrow> nat \<Rightarrow> timer_manager \<Rightarrow> bool" where
  "recurs d t M \<longleftrightarrow> m_timers M = [t] \<and> heap M t = \<lparr>m_recurring = True, m_ms = 1000, m_next = d, tm_cb = Some (UserFn 1000)\<rparr>"

lemma second_exact: "clock_ok now \<Longrightarrow> add_ms now 1000 = now + 10 ^ 9"
  by (simp add: add_ms_exact period_ok_def)

lemma recurs_round:
  assumes "recurs d t M" and "d \<le> now" and "clock_ok now" and "\<not> fst (detectClockRollover now2 M)"
  shows "\<exists>M'. listExpiredCb now now2 [] M = Some ([Some (UserFn 1000)], M') \<and>
    recurs (now + 10 ^ 9) t M' \<and> m_previouseTime M' = now2"
proof -
  let ?M = "M\<lparr>m_previouseTime := now2\<rparr>" let ?M1 = "snd (expire_first now t ?M)"
  have t: "m_timers ?M = [t]" "heap ?M t = \<lparr>m_recurring = True, m_ms = 1000, m_next = d, tm_cb = Some (UserFn 1000)\<rparr>"
    using assms(1) by (simp_all add: recurs_def)
  have M1: "recurs (now + 10 ^ 9) t ?M1" "m_previouseTime ?M1 = now2"
    using t second_exact [OF assms(3)] by (simp_all add: recurs_def expire_first_def)
  then have "m_timers ?M1 = [t]" "\<not> due now ?M1 t" by (simp_all add: recurs_def due_def)
  then have "expire_loop False now [Some (UserFn 1000)] ?M1 = Some ([Some (UserFn 1000)], ?M1)" by simp
  moreover have "due now ?M t" using t assms(2) by (simp add: due_def)
  ultimately show ?thesis
    using M1 t by (simp add: listExpiredCb_loop [OF assms(4)] expire_loop_step [OF t(1)])
qed

text \<open>Rounds whose readings are at least the second apart that \<open>sleep(1)\<close> takes.\<close>

fun seconds_apart :: "time \<Rightarrow> (time \<times> time) list \<Rightarrow> bool" where
  "seconds_apart prev [] = True"
| "seconds_apart prev ((now, now2) # rs) \<longleftrightarrow>
     prev + 10 ^ 9 \<le> now \<and> now \<le> now2 \<and> now2 < 2 ^ 62 \<and> seconds_apart now2 rs"

lemma rounds_spec:
  assumes "seconds_apart prev rs" and "recurs d t M" and "d \<le> prev + 10 ^ 9" and "m_previouseTime M \<le> prev"
    and "0 \<le> m_previouseTime M"
  shows "rounds rs [] M = Some (Inr (replicate (length rs) 1000))"
  using assms
proof (induction rs arbitrary: prev d M)
  case (Cons r rs)
  obtain now now2 where r: "r = (now, now2)" by (cases r)
  have c: "clock_ok now" and d: "d \<le> now" using Cons.prems r by (auto simp: clock_ok_def)
  have no: "\<not> fst (detectClockRollover now2 M)" using Cons.prems r by (intro no_rollover) auto
  obtain M' where M': "listExpiredCb now now2 [] M = Some ([Some (UserFn 1000)], M')" "recurs (now + 10 ^ 9) t M'"
    "m_previouseTime M' = now2"
    using recurs_round [OF Cons.prems(2) d c no] by blast
  have "rounds rs [] M' = Some (Inr (replicate (length rs) 1000))"
    using Cons.prems r M'(2,3) by (intro Cons.IH [of now2 "now + 10 ^ 9"]) auto
  with M'(1) r show ?case by (simp add: call_cb_def)
qed simp

section \<open>The output\<close>

lemma started_timers:
  assumes "\<And>j. j < length nows \<Longrightarrow> clock_ok (nows ! j)" and "sorted nows" and "length nows \<le> 10"
  shows "holds_timers (\<lambda>i. nows ! i + (int i + 1) * 10 ^ 9) 0 (length nows) (add_timers 0 nows (new_manager start))"
    and "m_previouseTime (add_timers 0 nows (new_manager start)) = start"
proof -
  let ?d = "\<lambda>i. nows ! i + (int i + 1) * 10 ^ 9"
  have "holds_timers ?d 0 0 (new_manager start)" by (simp add: holds_timers_def new_manager_def)
  moreover have "?d i < ?d j" if "i < j" "j < 0 + length nows" for i j
    using that assms(2) sorted_nth_mono [of nows i j] by simp
  moreover have "add_ms (nows ! j) (of_nat ((0 + j + 1) * 1000)) = ?d (0 + j)" if "j < length nows" for j
  proof -
    have j: "j < 10" using that assms(3) by simp
    have u: "uint (of_nat ((0 + j + 1) * 1000) :: 64 word) = int (j + 1) * 1000"
      using j by (simp add: unsigned_of_nat take_bit_nat_eq_self del: of_nat_mult of_nat_add)
    then have "period_ok (of_nat ((0 + j + 1) * 1000))" using j by (simp add: period_ok_def)
    then show ?thesis using u assms(1) [OF that] by (subst add_ms_exact) simp_all
  qed
  ultimately show "holds_timers ?d 0 (length nows) (add_timers 0 nows (new_manager start))"
    and "m_previouseTime (add_timers 0 nows (new_manager start)) = start"
    using add_timers_spec [of ?d 0 "new_manager start" nows] by (auto simp: new_manager_def)
qed

text \<open>
  \<open>test_timer.cc\<close> prints what it is written to print. With a clock that does not go back, the five
  seconds it sleeps before each portion and the second before each round: the two portions together are
  the ten timers in order, at least five of them in the first one; each round with the recurring
  timer finds exactly one callback, so taking the first without a test is safe, and prints 1000.
\<close>

lemma test_timer_output:
  assumes "0 \<le> start" and "sorted (start # nows)" and "length nows = 10"
    and "last nows + 5 * 10 ^ 9 \<le> fst r1" and "fst r1 \<le> snd r1" and "snd r1 + 5 * 10 ^ 9 \<le> fst r2"
    and "fst r2 \<le> snd r2" and "snd r2 \<le> again" and "again < 2 ^ 62" and "seconds_apart again rs"
  shows "test_timer_main start nows r1 r2 again rs = Some (Inr ([0..<10] @ replicate (length rs) 1000)) \<and>
    (\<exists>j M. 5 \<le> j \<and> j \<le> 10 \<and> portion r1 (add_timers 0 nows (new_manager start)) = Some (Inr ([0..<j], M)))"
proof -
  let ?d = "\<lambda>i. nows ! i + (int i + 1) * 10 ^ 9" let ?M = "add_timers 0 nows (new_manager start)"
  have le: "start \<le> nows ! i \<and> nows ! i \<le> last nows" if "i < 10" for i
    using that assms(2,3) sorted_nth_mono [of nows i 9] by (cases nows rule: rev_cases) (auto simp: nth_append)
  have bounds: "clock_ok (nows ! i)" if "i < 10" for i
    using le [OF that] assms by (simp add: clock_ok_def)
  have M: "holds_timers ?d 0 10 ?M" "m_previouseTime ?M = start"
    using started_timers [of nows start] bounds assms(2,3) by simp_all
  have mono: "?d i < ?d j" if "i < j" "j < 10" for i j
    using that assms(2,3) sorted_nth_mono [of nows i j] by simp
  have "start \<le> nows ! 0" "nows ! 0 \<le> last nows" using le [of 0] by simp_all
  then have "start \<le> snd r1" using assms(4,5) by simp
  then have no: "\<not> fst (detectClockRollover (snd r1) ?M)" using M assms by (intro no_rollover) auto
  obtain j M1 where M1: "portion r1 ?M = Some (Inr ([0..<j], M1))" "j \<le> 10" "holds_timers ?d j 10 M1"
    "m_previouseTime M1 = snd r1" "\<forall>i < 10. i < j \<longleftrightarrow> ?d i \<le> fst r1"
    using portion_spec [OF M(1) _ mono no, of "fst r1"] by auto
  have "5 \<le> j" using M1(5) [rule_format, of 4] le [of 4] assms(4) by simp
  with M1(1,2) have first: "\<exists>j M. 5 \<le> j \<and> j \<le> 10 \<and> portion r1 ?M = Some (Inr ([0..<j], M))" by blast
  have no1: "\<not> fst (detectClockRollover (snd r2) M1)"
    using M1(4) assms \<open>start \<le> snd r1\<close> by (intro no_rollover) auto
  obtain k M2 where M2: "portion r2 M1 = Some (Inr ([j..<k], M2))" "k \<le> 10" "j \<le> k" "holds_timers ?d k 10 M2"
    "m_previouseTime M2 = snd r2" "\<forall>i. j \<le> i \<and> i < 10 \<longrightarrow> (i < k \<longleftrightarrow> ?d i \<le> fst r2)"
    using portion_spec [OF M1(3,2) _ no1, of "fst r2"] mono by auto
  have "k = 10"
  proof (cases "j = 10")
    case False
    then have "j \<le> 9" using M1(2) by simp
    moreover have "?d 9 \<le> fst r2" using le [of 9] assms by simp
    ultimately show ?thesis using M2(2) M2(6) [rule_format, of 9] by simp
  qed (use M2 in simp)
  let ?R = "snd (snd (addTimer again 1000 (Some (UserFn 1000)) True M2))"
  have e: "m_timers M2 = []" "fresh M2 = 10" using M2(4) \<open>k = 10\<close> by (simp_all add: holds_timers_def)
  have again: "clock_ok again" using assms \<open>start \<le> snd r1\<close> by (simp add: clock_ok_def)
  have "recurs (again + 10 ^ 9) 10 ?R" "m_previouseTime ?R = snd r2"
    using e M2(5) second_exact [OF again]
    by (simp_all add: addTimer_def addTimer_ptr_def Let_def recurs_def new_timer_def)
  then have "rounds rs [] ?R = Some (Inr (replicate (length rs) 1000))"
    using assms \<open>start \<le> snd r1\<close> by (intro rounds_spec [OF assms(10)]) auto
  moreover have "[0..<j] @ [j..<10] = [0..<10]"
    using upt_add_eq_append [of 0 j "10 - j"] M1(2) by simp
  ultimately have "test_timer_main start nows r1 r2 again rs = Some (Inr ([0..<10] @ replicate (length rs) 1000))"
    using M1(1) M2(1) \<open>k = 10\<close> by (simp add: test_timer_main_def flip: append_assoc)
  with first show ?thesis by blast
qed

lemma test_timer_output_witness:
  "test_timer_main 0 (replicate 10 1) (5000000001, 5000000002) (10000000002, 10000000002) 10000000003
     [(11000000003, 11000000003), (12000000005, 12000000005)] =
   Some (Inr [0, 1, 2, 3, 4, 5, 6, 7, 8, 9, 1000, 1000])"
proof -
  have "[0..<10] = [0, 1, 2, 3, 4, 5, 6, 7, 8, 9 :: nat]" by code_simp
  moreover have "sorted (0 # replicate 10 (1 :: int))" "last (replicate 10 (1 :: int)) = 1" by code_simp+
  ultimately show ?thesis
    using test_timer_output [of 0 "replicate 10 1" "(5000000001, 5000000002)" "(10000000002, 10000000002)" 10000000003
        "[(11000000003, 11000000003), (12000000005, 12000000005)]"]
    by (simp add: numeral_2_eq_2)
qed

end
