(* ===== verification/Fiber_Test.thy ===== *)
theory Fiber_Test
  imports Fiber "HOL-Library.Multiset"
begin

text \<open>
  Model of \<open>tests/test_fiber.cc\<close>: a first-come scheduler on one thread, whose fibers switch with the main
  fiber, and what the program prints and leaves behind.
\<close>

section \<open>The program\<close>

text \<open>
  A task is resumed, its \<open>MainFunc\<close> calls the function, which prints its number, and ends; the thread is
  back in \<open>run\<close>. The result is the function that was called.
\<close>

definition run_task :: "nat \<Rightarrow> nat \<Rightarrow> fiber_world \<Rightarrow> (closure \<times> fiber_world) result" where
  "run_task th task W =
     and_then (resume True th task W) (\<lambda>W1.
     and_then (main_func_call th W1) (\<lambda>(curr, c).
     and_then (main_func_return True th curr W1) (\<lambda>W2. Inr (c, W2))))"

fun run_tasks :: "nat \<Rightarrow> nat list \<Rightarrow> fiber_world \<Rightarrow> (closure list \<times> fiber_world) result" where
  "run_tasks th [] W = Inr ([], W)"
| "run_tasks th (task # tasks) W =
     and_then (run_task th task W) (\<lambda>(c, W1).
     and_then (run_tasks th tasks W1) (\<lambda>(cs, W2). Inr (c # cs, W2)))"

text \<open>The loop of \<open>main\<close>: the fibers it schedules; the list has what \<open>malloc\<close> returns for each stack.\<close>

fun make_tasks :: "nat \<Rightarrow> nat option list \<Rightarrow> fiber_world \<Rightarrow> (nat list \<times> fiber_world) result" where
  "make_tasks i [] W = Inr ([], W)"
| "make_tasks i (mem # mems) W =
     and_then (new_fiber (Some (UserFn i)) 0 False mem True W) (\<lambda>(fiber, W1).
     and_then (make_tasks (Suc i) mems W1) (\<lambda>(tasks, W2). Inr (fiber # tasks, W2)))"

text \<open>\<open>main\<close> up to \<open>m_tasks.clear()\<close>, which holds the last references to the fibers.\<close>

definition test_fiber_main ::
  "bool \<Rightarrow> nat \<Rightarrow> nat option list \<Rightarrow> fiber_world \<Rightarrow> (closure list \<times> fiber_world) result" where
  "test_fiber_main junk th mems W =
     and_then (Fiber.GetThis True junk th W) (\<lambda>(_, W1).
     and_then (make_tasks 0 mems W1) (\<lambda>(m_tasks, W2).
     and_then (run_tasks th m_tasks W2) (\<lambda>(out, W3). Inr (out, fold delete_fiber m_tasks W3))))"

section \<open>One task\<close>

definition at_main :: "nat \<Rightarrow> nat \<Rightarrow> fiber_world \<Rightarrow> bool" where
  "at_main th m W \<longleftrightarrow> t_fiber (tls W th) = Some m \<and> t_thread_fiber (tls W th) = Some m \<and> flow_of W th = Native th"

definition task_ready :: "fiber_world \<Rightarrow> nat \<Rightarrow> closure \<Rightarrow> bool" where
  "task_ready W f c \<longleftrightarrow> state_of W f = READY \<and> m_ctx (fibers W f) = StartOf f \<and>
     fb_cb (fibers W f) = Some c \<and> \<not> m_runInScheduler (fibers W f)"

definition ended :: "nat \<Rightarrow> nat \<Rightarrow> nat \<Rightarrow> fiber_world \<Rightarrow> fiber_world" where
  "ended th m f W =
     W\<lparr>fibers := (fibers W)
         (f := (fibers W f)\<lparr>fb_cb := None, m_state := TERM_state, m_ctx := Suspended (OnStack f)\<rparr>,
          m := (fibers W m)\<lparr>m_ctx := Suspended (Native th)\<rparr>)\<rparr>"

lemma run_task_spec:
  assumes "at_main th m W" and "task_ready W f c" and "f \<noteq> m"
  shows "run_task th f W = Inr (c, ended th m f W)"
  using assms
  by (simp add: run_task_def at_main_def task_ready_def ended_def resume_def Let_def SetThis_def partner_def swapcontext_def
      main_func_call_def main_func_return_def Fiber.GetThis_def yield_def fun_upd_twist upd_fiber_def upd_tls_def)
    (auto simp: fun_eq_iff)

lemma ended_simps [simp]:
  "f \<noteq> m \<Longrightarrow> at_main th m (ended th m f W) = at_main th m W"
  "g \<noteq> f \<Longrightarrow> g \<noteq> m \<Longrightarrow> fibers (ended th m f W) g = fibers W g"
  "f \<noteq> m \<Longrightarrow> state_of (ended th m f W) f = TERM_state"
  "m_stack (fibers (ended th m f W) g) = m_stack (fibers W g)"
  "blocks (ended th m f W) = blocks W" "s_fiber_count (ended th m f W) = s_fiber_count W"
  by (simp_all add: ended_def at_main_def)

section \<open>All tasks\<close>

lemma run_tasks_spec:
  assumes "at_main th m W" and "list_all2 (task_ready W) fs cs" and "distinct (m # fs)"
  shows "\<exists>W'. run_tasks th fs W = Inr (cs, W') \<and> at_main th m W' \<and> blocks W' = blocks W \<and>
           s_fiber_count W' = s_fiber_count W \<and> (\<forall>f \<in> set fs. state_of W' f = TERM_state) \<and>
           (\<forall>g. m_stack (fibers W' g) = m_stack (fibers W g)) \<and>
           (\<forall>g. g \<noteq> m \<and> g \<notin> set fs \<longrightarrow> fibers W' g = fibers W g)"
  using assms
proof (induction fs arbitrary: W cs)
  case (Cons f fs)
  then obtain c cs' where cs: "cs = c # cs'" "task_ready W f c" "list_all2 (task_ready W) fs cs'"
    by (auto simp: list_all2_Cons1)
  let ?W = "ended th m f W"
  have "list_all2 (task_ready ?W) fs cs'"
    using cs(3) Cons.prems(3) by (auto simp: list_all2_conv_all_nth task_ready_def) (metis ended_simps(2) nth_mem)+
  then obtain W' where W': "run_tasks th fs ?W = Inr (cs', W')" "at_main th m W'" "blocks W' = blocks W"
    "s_fiber_count W' = s_fiber_count W" "\<forall>f \<in> set fs. state_of W' f = TERM_state"
    "\<forall>g. m_stack (fibers W' g) = m_stack (fibers W g)" "\<forall>g. g \<noteq> m \<and> g \<notin> set fs \<longrightarrow> fibers W' g = fibers ?W g"
    using Cons.IH [of ?W cs'] Cons.prems by auto
  have "state_of W' f = TERM_state" using W'(7) Cons.prems(3) by simp
  with W' cs(1,2) Cons.prems show ?case by (intro exI [of _ W']) (auto simp: run_task_spec)
qed simp

lemma make_tasks_spec:
  "None \<notin> set mems \<Longrightarrow> \<exists>W'. make_tasks i mems W = Inr ([next_fiber W..<next_fiber W + length mems], W') \<and>
     tls W' = tls W \<and> flow_of W' = flow_of W \<and>
     s_fiber_count W' = s_fiber_count W + of_nat (length mems) \<and>
     blocks W' = rev (map the (filter (\<lambda>a. a \<noteq> None) mems)) @ blocks W \<and>
     (\<forall>g < next_fiber W. fibers W' g = fibers W g) \<and>
     (\<forall>k < length mems. task_ready W' (next_fiber W + k) (UserFn (i + k)) \<and>
        m_stack (fibers W' (next_fiber W + k)) = mems ! k)"
proof (induction mems arbitrary: i W)
  case (Cons mem mems)
  then obtain a where a: "mem = Some a" by (cases mem) auto
  obtain W1 where W1: "new_fiber (Some (UserFn i)) 0 False mem True W = Inr (next_fiber W, W1)"
    and f: "next_fiber W1 = Suc (next_fiber W)" "tls W1 = tls W" "flow_of W1 = flow_of W"
      "s_fiber_count W1 = s_fiber_count W + 1"
      "blocks W1 = a # blocks W"
      "\<forall>g < next_fiber W. fibers W1 g = fibers W g" "task_ready W1 (next_fiber W) (UserFn i)"
      "m_stack (fibers W1 (next_fiber W)) = mem"
    by (auto simp: new_fiber_def Let_def task_ready_def a)
  from Cons.IH [of "Suc i" W1] Cons.prems f(1-5) obtain W' where
    r: "make_tasks (Suc i) mems W1 = Inr ([Suc (next_fiber W)..<Suc (next_fiber W) + length mems], W')"
    and W': "tls W' = tls W" "flow_of W' = flow_of W" "s_fiber_count W' = s_fiber_count W + 1 + of_nat (length mems)"
      "blocks W' = rev (map the (filter (\<lambda>a. a \<noteq> None) mems)) @ blocks W1"
      "\<forall>g < Suc (next_fiber W). fibers W' g = fibers W1 g"
      "\<forall>k < length mems. task_ready W' (Suc (next_fiber W) + k) (UserFn (Suc i + k)) \<and>
        m_stack (fibers W' (Suc (next_fiber W) + k)) = mems ! k"
    by auto
  have "task_ready W' (next_fiber W) (UserFn i)" "m_stack (fibers W' (next_fiber W)) = mem"
    using W'(5) f(7,8) by (simp_all add: task_ready_def)
  moreover have "task_ready W' (next_fiber W + k) (UserFn (i + k)) \<and> m_stack (fibers W' (next_fiber W + k)) = (mem # mems) ! k"
    if "k < length (mem # mems)" "0 < k" for k
    using W'(6) that by (cases k) auto
  moreover have "blocks W' = rev (map the (filter (\<lambda>a. a \<noteq> None) (mem # mems))) @ blocks W"
    using W'(4) f(5) by (simp add: a)
  ultimately have "\<forall>k < length (mem # mems). task_ready W' (next_fiber W + k) (UserFn (i + k)) \<and>
      m_stack (fibers W' (next_fiber W + k)) = (mem # mems) ! k"
    "blocks W' = rev (map the (filter (\<lambda>a. a \<noteq> None) (mem # mems))) @ blocks W"
    by (metis add_0_right gr0I nth_Cons_0, blast)
  moreover have "[next_fiber W..<next_fiber W + length (mem # mems)] =
      next_fiber W # [Suc (next_fiber W)..<Suc (next_fiber W) + length mems]"
    by (simp add: upt_conv_Cons del: upt_Suc)
  then have "make_tasks i (mem # mems) W = Inr ([next_fiber W..<next_fiber W + length (mem # mems)], W')"
    using W1 r by simp
  ultimately show ?case using W'(1-3,5) f(6) by (intro exI [of _ W']) simp
qed simp

text \<open>The fibers are deleted in the order of the list.\<close>

lemma deleted_simps [simp]:
  "fibers (fold delete_fiber fs W) = fibers W" "tls (fold delete_fiber fs W) = tls W"
  "flow_of (fold delete_fiber fs W) = flow_of W"
  "s_fiber_count (fold delete_fiber fs W) = s_fiber_count W - of_nat (length fs)"
  by (induction fs arbitrary: W) (simp_all add: delete_fiber_def)

lemma deleted_blocks:
  "mset (blocks W) = mset (map the (filter (\<lambda>a. a \<noteq> None) (map (\<lambda>f. m_stack (fibers W f)) fs))) + A \<Longrightarrow>
   mset (blocks (fold delete_fiber fs W)) = A"
proof (induction fs arbitrary: W)
  case (Cons f fs)
  have "fibers (delete_fiber f W) = fibers W" by (simp add: delete_fiber_def)
  moreover have "mset (blocks (delete_fiber f W)) =
      mset (map the (filter (\<lambda>a. a \<noteq> None) (map (\<lambda>f. m_stack (fibers W f)) fs))) + A"
    using Cons.prems by (cases "m_stack (fibers W f)") (auto simp: delete_fiber_def)
  ultimately show ?case using Cons.IH [of "delete_fiber f W"] by simp
qed simp

text \<open>
  \<open>test_fiber.cc\<close> does what its comments say, for any number of fibers: \<open>GetThis\<close> makes the thread's main
  fiber, each task runs once, in the order they were scheduled, and switches back to \<open>run\<close> at its end;
  all fibers are TERM, the thread is in its main fiber, the only one left, and every stack has been freed.
  Each \<open>malloc\<close> has to succeed.
\<close>

lemma test_fiber_prints_in_order:
  "None \<notin> set mems \<Longrightarrow> \<exists>W. test_fiber_main junk th mems init_world = Inr (map UserFn [0..<length mems], W) \<and>
     flow_of W th = Native th \<and> t_fiber (tls W th) = Some 0 \<and> s_fiber_count W = 1 \<and> blocks W = [] \<and>
     (\<forall>f. 1 \<le> f \<and> f \<le> length mems \<longrightarrow> state_of W f = TERM_state)"
proof -
  assume mems: "None \<notin> set mems"
  let ?fs = "[1..<1 + length mems]"
  obtain W1 where W1: "Fiber.GetThis True junk th init_world = Inr (0, W1)" "at_main th 0 W1"
    "next_fiber W1 = 1" "s_fiber_count W1 = 1" "blocks W1 = []"
    by (simp add: Fiber.GetThis_def new_main_fiber_def init_world_def Let_def SetThis_def at_main_def)
  obtain W2 where r: "make_tasks 0 mems W1 = Inr (?fs, W2)" and
    W2: "tls W2 = tls W1" "flow_of W2 = flow_of W1" "s_fiber_count W2 = 1 + of_nat (length mems)"
    "blocks W2 = rev (map the (filter (\<lambda>a. a \<noteq> None) mems))"
    "\<And>k. k < length mems \<Longrightarrow> task_ready W2 (Suc k) (UserFn k)"
    "\<And>k. k < length mems \<Longrightarrow> m_stack (fibers W2 (Suc k)) = mems ! k"
    using make_tasks_spec [OF mems, of 0 W1] W1(3-5) by auto
  have main: "at_main th 0 W2" using W1(2) W2(1,2) by (simp add: at_main_def)
  have ready: "list_all2 (task_ready W2) ?fs (map UserFn [0..<length mems])"
    using W2(5) by (auto simp: list_all2_conv_all_nth simp del: upt_Suc)
  obtain W3 where W3: "run_tasks th ?fs W2 = Inr (map UserFn [0..<length mems], W3)"
    "at_main th 0 W3" "blocks W3 = blocks W2" "s_fiber_count W3 = s_fiber_count W2"
    "\<forall>f \<in> set ?fs. state_of W3 f = TERM_state" "\<forall>g. m_stack (fibers W3 g) = m_stack (fibers W2 g)"
    using run_tasks_spec [OF main ready] by (auto simp del: upt_Suc)
  have "map (\<lambda>f. m_stack (fibers W3 f)) ?fs = mems"
    using W3(6) W2(6) by (intro nth_equalityI) (simp_all del: upt_Suc)
  then have "mset (blocks (fold delete_fiber ?fs W3)) = {#}"
    using W3(3) W2(4) by (intro deleted_blocks) simp
  then have "blocks (fold delete_fiber ?fs W3) = []" by simp
  moreover have "test_fiber_main junk th mems init_world =
      Inr (map UserFn [0..<length mems], fold delete_fiber ?fs W3)"
    using W1(1) r W3(1) by (simp add: test_fiber_main_def del: upt_Suc)
  ultimately show ?thesis
    using W3(2,4,5) W2(3) by (intro exI [of _ "fold delete_fiber ?fs W3"]) (simp add: at_main_def del: upt_Suc)
qed

end
