(* ===== verification/Thread_Test.thy ===== *)
theory Thread_Test
  imports Thread_Spec Scheduler
begin

text \<open>
  Model of \<open>tests/test_thread.cc\<close>: five threads are constructed one after the other, each prints what the
  class says of it, and all are joined.
\<close>

section \<open>The program\<close>

text \<open>What \<open>func\<close> prints on thread \<open>th\<close>: its id and name, and those of its object.\<close>

definition test_thread_func :: "nat \<Rightarrow> thread_world \<Rightarrow> (int \<times> string \<times> int \<times> string) result" where
  "test_thread_func th W =
     (case Thread_GetThis th W of
        None \<Rightarrow> Inl NullDereference
      | Some t \<Rightarrow> Inr (GetThreadID th, GetName th W, getID t W, getName t W))"

text \<open>
  The first loop of \<open>main\<close>, on thread \<open>cr\<close>, from its \<open>i\<close>-th round. Each round is a constructor that
  returns, in any interleaving with its new thread; the list has the objects, the new threads and
  their \<open>pthread_t\<close>.
\<close>

inductive test_thread_loop ::
  "nat \<Rightarrow> nat \<Rightarrow> (nat \<times> nat \<times> nat) list \<Rightarrow> thread_world \<Rightarrow> thread_world \<Rightarrow> bool" for cr where
  finished: "test_thread_loop cr i [] W W"
| round: "(hs_step p cr th handle (Some (UserFn 0)) (''thread_'' @ to_string i))\<^sup>*\<^sup>* (hs_start W) h \<Longrightarrow>
    creator h = Constructed \<Longrightarrow> test_thread_loop cr (Suc i) ts (hs_world h) W' \<Longrightarrow>
    test_thread_loop cr i ((p, th, handle) # ts) W W'"

inductive_cases loop_done: "test_thread_loop cr i [] W W'"
inductive_cases loop_round: "test_thread_loop cr i ((p, th, handle) # ts) W W'"

text \<open>The second loop; every \<open>pthread_join\<close> succeeds.\<close>

fun test_thread_joins :: "nat list \<Rightarrow> thread_world \<Rightarrow> thread_world result" where
  "test_thread_joins [] W = Inr W"
| "test_thread_joins (p # ps) W = and_then (Thread_join 0 p W) (test_thread_joins ps)"

section \<open>What a constructor leaves alone\<close>

definition apart :: "nat \<Rightarrow> nat \<Rightarrow> thread_world \<Rightarrow> thread_world \<Rightarrow> bool" where
  "apart p th W W' \<longleftrightarrow> (\<forall>q. q \<noteq> p \<longrightarrow> thread_objs W' q = thread_objs W q) \<and>
     (\<forall>t. t \<noteq> th \<longrightarrow> thread_locals W' t = thread_locals W t) \<and> pthread_log W' = pthread_log W"

lemma hs_step_apart:
  "hs_step p cr th handle cb name h h' \<Longrightarrow> apart p th (hs_world h) (hs_world h')"
  by (induction rule: hs_step.induct)
    (auto simp: apart_def Thread_create_def run_set_this_def run_set_id_def run_set_kernel_name_def
      run_take_cb_def run_signal_def split: if_splits)

lemma hs_apart:
  "(hs_step p cr th handle cb name)\<^sup>*\<^sup>* h h' \<Longrightarrow> apart p th (hs_world h) (hs_world h')"
  by (induction rule: rtranclp_induct) (auto simp: apart_def dest: hs_step_apart)

lemma loop_apart:
  assumes "test_thread_loop cr i ts W W'"
  shows "q \<notin> fst ` set ts \<Longrightarrow> thread_objs W' q = thread_objs W q"
    and "t \<notin> (fst \<circ> snd) ` set ts \<Longrightarrow> thread_locals W' t = thread_locals W t"
    and "pthread_log W' = pthread_log W"
  using assms by (induction rule: test_thread_loop.induct) (auto simp: apart_def dest!: hs_apart)

section \<open>What the program prints\<close>

lemma loop_prints:
  assumes "test_thread_loop cr i ts W W'" and "distinct (map fst ts)" and "distinct (map (fst \<circ> snd) ts)"
    and "k < length ts" and "ts ! k = (p, th, handle)"
  shows "test_thread_func th W' =
      Inr (int th, ''thread_'' @ to_string (i + k), int th, ''thread_'' @ to_string (i + k)) \<and>
    m_thread (thread_objs W' p) = handle"
  using assms
proof (induction arbitrary: k rule: test_thread_loop.induct)
  case (round p' th' handle' i W h ts W')
  show ?case
  proof (cases k)
    case 0
    with round.prems have eq: "p' = p" "th' = th" "handle' = handle" by simp_all
    have inv: "hs_inv p cr th handle (Some (UserFn 0)) (''thread_'' @ to_string i) h"
      using hs_inv_reach [OF round.hyps(1)] by (simp add: eq)
    have "p \<notin> fst ` set ts" "th \<notin> (fst \<circ> snd) ` set ts" using round.prems eq by (auto simp: image_iff)
    with loop_apart [OF round.hyps(3)] inv round.hyps(2) 0 show ?thesis
      by (simp add: test_thread_func_def Thread_GetThis_def GetName_def getID_def getName_def GetThreadID_def
          hs_inv_def Let_def)
  next
    case (Suc k')
    with round.IH [of k'] round.prems show ?thesis by simp
  qed
qed simp

lemma joins_all:
  assumes "distinct ps" and "\<forall>p \<in> set ps. m_thread (thread_objs W p) \<noteq> 0"
  shows "\<exists>W'. test_thread_joins ps W = Inr W' \<and>
    pthread_log W' = pthread_log W @ map (\<lambda>p. Join (m_thread (thread_objs W p))) ps \<and>
    (\<forall>p \<in> set ps. m_thread (thread_objs W' p) = 0) \<and> (\<forall>q. q \<notin> set ps \<longrightarrow> thread_objs W' q = thread_objs W q)"
  using assms
proof (induction ps arbitrary: W)
  case (Cons p ps)
  let ?W = "upd_obj p (\<lambda>t. t\<lparr>m_thread := 0\<rparr>) (W\<lparr>pthread_log := pthread_log W @ [Join (m_thread (thread_objs W p))]\<rparr>)"
  have j: "Thread_join 0 p W = Inr ?W" using Cons.prems by (simp add: Thread_join_def Let_def)
  have same: "thread_objs ?W q = thread_objs W q" if "q \<noteq> p" for q using that by simp
  have ne: "q \<noteq> p" if "q \<in> set ps" for q using Cons.prems(1) that by auto
  have "m_thread (thread_objs ?W q) \<noteq> 0" if "q \<in> set ps" for q
    unfolding same [OF ne [OF that]] using Cons.prems(2) that by simp
  then have "\<forall>q \<in> set ps. m_thread (thread_objs ?W q) \<noteq> 0" by blast
  moreover have "distinct ps" using Cons.prems(1) by simp
  ultimately obtain W' where W': "test_thread_joins ps ?W = Inr W'"
    "pthread_log W' = pthread_log ?W @ map (\<lambda>p. Join (m_thread (thread_objs ?W p))) ps"
    "\<forall>p \<in> set ps. m_thread (thread_objs W' p) = 0" "\<forall>q. q \<notin> set ps \<longrightarrow> thread_objs W' q = thread_objs ?W q"
    using Cons.IH [of ?W] by blast
  have logs: "map (\<lambda>p. Join (m_thread (thread_objs ?W p))) ps = map (\<lambda>p. Join (m_thread (thread_objs W p))) ps"
    by (rule map_cong [OF refl]) (use same [OF ne] in simp)
  show ?case
    using j W' Cons.prems(1) unfolding logs by (intro exI [of _ W']) auto
qed simp

text \<open>
  The program on five threads, from any state of the world: the \<open>k\<close>-th prints its own id twice and the
  name \<open>thread_k\<close> twice, however the constructors and the threads interleave; then the five are joined in
  their order, each once, and hold no handle any more.
\<close>

lemma test_thread_output:
  assumes loop: "test_thread_loop cr 0 ts W W1" and "length ts = 5"
    and d: "distinct (map fst ts)" "distinct (map (fst \<circ> snd) ts)" and "\<forall>(p, th, handle) \<in> set ts. handle \<noteq> 0"
  shows "map (\<lambda>(p, th, handle). test_thread_func th W1) ts =
      map (\<lambda>(k, p, th, handle). Inr (int th, ''thread_'' @ to_string k, int th, ''thread_'' @ to_string k))
        (zip [0..<5] ts) \<and>
    (\<exists>W2. test_thread_joins (map fst ts) W1 = Inr W2 \<and>
       pthread_log W2 = pthread_log W @ map (\<lambda>(p, th, handle). Join handle) ts \<and>
       (\<forall>p \<in> fst ` set ts. m_thread (thread_objs W2 p) = 0))"
proof
  have at: "test_thread_func (fst (snd (ts ! k))) W1 =
      Inr (int (fst (snd (ts ! k))), ''thread_'' @ to_string k, int (fst (snd (ts ! k))), ''thread_'' @ to_string k)"
    and handle: "m_thread (thread_objs W1 (fst (ts ! k))) = snd (snd (ts ! k))"
    if "k < length ts" for k
    using loop_prints [OF loop d that, of "fst (ts ! k)" "fst (snd (ts ! k))" "snd (snd (ts ! k))"] by simp_all
  show "map (\<lambda>(p, th, handle). test_thread_func th W1) ts =
      map (\<lambda>(k, p, th, handle). Inr (int th, ''thread_'' @ to_string k, int th, ''thread_'' @ to_string k))
        (zip [0..<5] ts)"
    using assms(2) at by (intro nth_equalityI) (simp_all add: case_prod_unfold)
  have h: "map (\<lambda>p. Join (m_thread (thread_objs W1 p))) (map fst ts) = map (\<lambda>(p, th, handle). Join handle) ts"
    using handle by (intro nth_equalityI) (simp_all add: case_prod_unfold)
  have "m_thread (thread_objs W1 p) \<noteq> 0" if p: "p \<in> set (map fst ts)" for p
  proof -
    from p obtain k where k: "k < length ts" "p = fst (ts ! k)" by (auto simp: in_set_conv_nth)
    with handle [OF k(1)] assms(5) nth_mem [OF k(1)] show ?thesis by (auto simp: case_prod_unfold)
  qed
  with joins_all [OF d(1), of W1] loop_apart(3) [OF loop] h
  show "\<exists>W2. test_thread_joins (map fst ts) W1 = Inr W2 \<and>
       pthread_log W2 = pthread_log W @ map (\<lambda>(p, th, handle). Join handle) ts \<and>
       (\<forall>p \<in> fst ` set ts. m_thread (thread_objs W2 p) = 0)" by auto
qed

end
