(* ===== verification/Scheduler_Test.thy ===== *)
theory Scheduler_Test
  imports Scheduler_Control
begin

text \<open>
  Model of \<open>tests/test_scheduler.cc\<close>: a scheduler with the calling thread and two others gets two batches
  of three fibers, and is stopped. What the workers do while \<open>main\<close> sleeps is a parameter.
\<close>

section \<open>The program\<close>

text \<open>A batch: each fiber is made on what \<open>malloc\<close> returns and scheduled for any thread.\<close>

fun post_fibers ::
  "nat option list \<Rightarrow> scheduler \<times> fiber_world \<Rightarrow> (nat list \<times> scheduler \<times> fiber_world) result" where
  "post_fibers [] (s, W) = Inr ([], s, W)"
| "post_fibers (mem # mems) (s, W) =
     and_then (new_fiber (Some (UserFn 0)) 0 True mem True W) (\<lambda>(f, W1).
     and_then (scheduleLock Scheduler_tickle (FiberCopied (Some f)) (- 1) s) (\<lambda>s1.
     and_then (post_fibers mems (s1, W1)) (\<lambda>(fs, r). Inr (f # fs, r))))"

text \<open>
  \<open>main\<close> up to the point where \<open>stop\<close> resumes the scheduler fiber. \<open>slept\<close> is what the three sleeps
  make of the scheduler and the fibers; the result also has the fibers of each batch.
\<close>

definition test_scheduler_main ::
  "bool \<Rightarrow> bool \<Rightarrow> nat option \<Rightarrow> nat \<Rightarrow> nat \<Rightarrow> (nat \<Rightarrow> string \<Rightarrow> (nat \<times> int) result) \<Rightarrow> nat option list \<Rightarrow>
   (nat \<Rightarrow> scheduler \<times> fiber_world \<Rightarrow> scheduler \<times> fiber_world) \<Rightarrow> runtime \<Rightarrow>
   (nat list \<times> nat list \<times> bool \<times> scheduler \<times> fiber_world) result" where
  "test_scheduler_main junk junk2 mem self th mk mems slept R =
     and_then (Scheduler_construct junk junk2 mem self th 3 True ''scheduler_1'' R) (\<lambda>(s, R1).
     and_then (start mk s) (\<lambda>s1.
     and_then (post_fibers (take 3 mems) (slept 0 (s1, rt_fibers R1))) (\<lambda>(fs, x).
     and_then (post_fibers (drop 3 mems) (slept 1 x)) (\<lambda>(gs, y).
     case slept 2 y of (s2, W2) \<Rightarrow>
       and_then (stop_request Scheduler_tickle Scheduler_stopping (Scheduler_GetThis th R1 = Some self) s2)
         (\<lambda>(requested, s3). Inr (fs, gs, requested, s3, W2))))))"

section \<open>A batch\<close>

definition pool_task :: "nat \<Rightarrow> sched_task" where
  "pool_task f = \<lparr>st_fiber = Some f, st_cb = None, st_thread = - 1\<rparr>"

text \<open>The fibers of a batch are new and ready, and queued in their order for any worker.\<close>

lemma post_fibers_spec:
  "None \<notin> set mems \<Longrightarrow> \<exists>W'. post_fibers mems (s, W) =
      Inr ([next_fiber W..<next_fiber W + length mems],
           s\<lparr>m_tasks := m_tasks s @ map pool_task [next_fiber W..<next_fiber W + length mems]\<rparr>, W') \<and>
    next_fiber W' = next_fiber W + length mems \<and>
    (\<forall>f < next_fiber W. fibers W' f = fibers W f) \<and>
    (\<forall>f. next_fiber W \<le> f \<and> f < next_fiber W' \<longrightarrow>
       state_of W' f = READY \<and> m_ctx (fibers W' f) = StartOf f \<and> fb_cb (fibers W' f) = Some (UserFn 0))"
proof (induction mems arbitrary: s W)
  case (Cons mem mems)
  let ?f = "next_fiber W" let ?s = "s\<lparr>m_tasks := m_tasks s @ [pool_task ?f]\<rparr>"
  obtain W1 where W1: "new_fiber (Some (UserFn 0)) 0 True mem True W = Inr (?f, W1)"
    and f: "next_fiber W1 = Suc ?f" "\<forall>g < ?f. fibers W1 g = fibers W g" "state_of W1 ?f = READY"
      "m_ctx (fibers W1 ?f) = StartOf ?f" "fb_cb (fibers W1 ?f) = Some (UserFn 0)"
    using Cons.prems by (cases mem) (auto simp: new_fiber_def Let_def)
  have s: "scheduleLock Scheduler_tickle (FiberCopied (Some ?f)) (- 1) s = Inr ?s"
    by (simp add: scheduleLock_def Scheduler_tickle_def pool_task_def has_work_def Let_def)
  have up: "[?f..<?f + length (mem # mems)] = ?f # [Suc ?f..<Suc ?f + length mems]"
    using upt_conv_Cons [of ?f "?f + length (mem # mems)"] by simp
  from Cons.IH [of ?s W1] Cons.prems f(1) obtain W' where
    r: "post_fibers mems (?s, W1) = Inr ([Suc ?f..<Suc ?f + length mems],
          ?s\<lparr>m_tasks := m_tasks ?s @ map pool_task [Suc ?f..<Suc ?f + length mems]\<rparr>, W')"
    and W': "next_fiber W' = Suc ?f + length mems" "\<forall>g < Suc ?f. fibers W' g = fibers W1 g"
      "\<forall>g. Suc ?f \<le> g \<and> g < next_fiber W' \<longrightarrow>
         state_of W' g = READY \<and> m_ctx (fibers W' g) = StartOf g \<and> fb_cb (fibers W' g) = Some (UserFn 0)"
    by auto
  have "state_of W' g = READY \<and> m_ctx (fibers W' g) = StartOf g \<and> fb_cb (fibers W' g) = Some (UserFn 0)"
    if "?f \<le> g" "g < next_fiber W'" for g
    using that W'(2,3) f(3-5) by (cases "g = ?f") (simp_all add: Suc_le_eq)
  with W1 s r up W'(1,2) f(2) show ?case by (intro exI [of _ W']) simp
qed auto

section \<open>The whole program\<close>

text \<open>While \<open>main\<close> sleeps the workers change the queue, the counters and the fibers, not the rest.\<close>

definition sleeps_well :: "(nat \<Rightarrow> scheduler \<times> fiber_world \<Rightarrow> scheduler \<times> fiber_world) \<Rightarrow> bool" where
  "sleeps_well slept \<longleftrightarrow> (\<forall>k s W. case slept k (s, W) of (s', W') \<Rightarrow>
     m_useCaller s' = m_useCaller s \<and> m_stopping s' = m_stopping s \<and> m_threadCount s' = m_threadCount s \<and>
     m_schedulerFiber s' = m_schedulerFiber s \<and> m_threads s' = m_threads s \<and> next_fiber W \<le> next_fiber W')"

lemma sleeps_wellD:
  assumes "sleeps_well slept" and "slept k (s, W) = (s', W')"
  shows "m_useCaller s' = m_useCaller s" "m_stopping s' = m_stopping s" "m_threadCount s' = m_threadCount s"
    "m_schedulerFiber s' = m_schedulerFiber s" "m_threads s' = m_threads s" "next_fiber W \<le> next_fiber W'"
  using assms by (auto simp: sleeps_well_def split: prod.splits)

lemma test_started:
  assumes none: "t_scheduler R th = None" and "rt_fibers R = init_world"
    and mem: "mem \<noteq> None"
  obtains s R1 s1 where
    "Scheduler_construct junk junk2 mem self th 3 True ''scheduler_1'' R = Inr (s, R1)"
    and "start (\<lambda>k name. Inr (obj k name, tid k name)) s = Inr s1" and "t_scheduler R1 th = Some self"
    and "m_useCaller s1 = junk" and "m_stopping s1 = False" and "m_threads s1 = [obj 0 ''_0'', obj 1 ''_1'']"
proof -
  obtain a where stack: "mem = Some a" using mem by auto
  obtain s R1 where c: "Scheduler_construct junk junk2 mem self th 3 True ''scheduler_1'' R = Inr (s, R1)"
    and s: "m_useCaller s = junk" "m_stopping s = False" "m_threadCount s = 2" "m_threads s = []" "m_name s = ''''"
    and R1: "t_scheduler R1 th = Some self"
    using assms(1,2) stack
    by (simp add: Scheduler_construct_def Let_def new_scheduler_def GetThis_def new_main_fiber_def new_fiber_def
        init_world_def SetThis_def)
  have "[0..<unat (2 :: 64 word)] = [0, 1]" by (simp add: upt_rec)
  moreover have "to_string 0 = ''0''" "to_string 1 = ''1''" by code_simp+
  ultimately show thesis using that [OF c _ R1] s by (simp add: start_creates_pool)
qed

text \<open>
  The program on a thread without a scheduler: six different fibers are posted, three and three, and
  the pool has the two threads. Then \<open>stop\<close> asks the workers to end and goes on, if the uninitialised
  \<open>m_useCaller\<close> happens to be true; if it happens to be false, the assertion of \<open>stop\<close> ends the program. Each
  \<open>malloc\<close> has to succeed.
\<close>

lemma test_scheduler_outcome:
  assumes none: "t_scheduler R th = None" and "rt_fibers R = init_world" and "length mems = 6" and "mem \<noteq> None" and "None \<notin> set mems"
    and well: "sleeps_well slept"
  shows "\<not> junk \<Longrightarrow> test_scheduler_main junk junk2 mem self th (\<lambda>k name. Inr (obj k name, tid k name)) mems slept R =
      Inl AssertionFailed"
    and "junk \<Longrightarrow> \<exists>fs gs s W. test_scheduler_main junk junk2 mem self th
        (\<lambda>k name. Inr (obj k name, tid k name)) mems slept R = Inr (fs, gs, True, s, W) \<and>
      length fs = 3 \<and> length gs = 3 \<and> distinct (fs @ gs) \<and> m_stopping s \<and>
      m_threads s = [obj 0 ''_0'', obj 1 ''_1'']"
proof -
  let ?mk = "\<lambda>k name. Inr (obj k name, tid k name)"
  obtain s R1 s1 where c: "Scheduler_construct junk junk2 mem self th 3 True ''scheduler_1'' R = Inr (s, R1)"
    and st: "start ?mk s = Inr s1" and R1: "t_scheduler R1 th = Some self" and s1: "m_useCaller s1 = junk"
      "m_stopping s1 = False" "m_threads s1 = [obj 0 ''_0'', obj 1 ''_1'']"
    by (rule test_started [OF assms(1,2,4)])
  obtain s2 W2 where n0: "slept 0 (s1, rt_fibers R1) = (s2, W2)" by fastforce
  obtain W3 where p0: "post_fibers (take 3 mems) (s2, W2) =
      Inr ([next_fiber W2..<next_fiber W2 + 3], s2\<lparr>m_tasks := m_tasks s2 @ map pool_task [next_fiber W2..<next_fiber W2 + 3]\<rparr>, W3)"
    and W3: "next_fiber W3 = next_fiber W2 + 3"
    using post_fibers_spec [of "take 3 mems" s2 W2] assms(3,5) by (auto dest: in_set_takeD)
  let ?s3 = "s2\<lparr>m_tasks := m_tasks s2 @ map pool_task [next_fiber W2..<next_fiber W2 + 3]\<rparr>"
  obtain s4 W4 where n1: "slept 1 (?s3, W3) = (s4, W4)" by fastforce
  obtain W5 where p1: "post_fibers (drop 3 mems) (s4, W4) =
      Inr ([next_fiber W4..<next_fiber W4 + 3], s4\<lparr>m_tasks := m_tasks s4 @ map pool_task [next_fiber W4..<next_fiber W4 + 3]\<rparr>, W5)"
    using post_fibers_spec [of "drop 3 mems" s4 W4] assms(3,5) by (auto dest: in_set_dropD)
  let ?s5 = "s4\<lparr>m_tasks := m_tasks s4 @ map pool_task [next_fiber W4..<next_fiber W4 + 3]\<rparr>"
  obtain s6 W6 where n2: "slept 2 (?s5, W5) = (s6, W6)" by fastforce
  note w = sleeps_wellD [OF well n0] sleeps_wellD [OF well n1] sleeps_wellD [OF well n2]
  have s6: "m_useCaller s6 = junk" "m_stopping s6 = False" "m_threads s6 = [obj 0 ''_0'', obj 1 ''_1'']"
    using w s1 by simp_all
  have later: "next_fiber W2 + 3 \<le> next_fiber W4" using w W3 by simp
  have tick: "tickles Scheduler_tickle n (u :: scheduler) = Inr u" for n u
    by (induction n) (simp_all add: Scheduler_tickle_def)
  have stop: "stop_request Scheduler_tickle Scheduler_stopping True s6 =
      (if junk then Inr (True, s6\<lparr>m_stopping := True\<rparr>) else Inl AssertionFailed)"
    using s6 by (simp add: stop_request_def Scheduler_stopping_def tick) (simp add: Scheduler_tickle_def Let_def)
  have main: "test_scheduler_main junk junk2 mem self th ?mk mems slept R =
      (if junk then Inr ([next_fiber W2..<next_fiber W2 + 3], [next_fiber W4..<next_fiber W4 + 3], True,
          s6\<lparr>m_stopping := True\<rparr>, W6) else Inl AssertionFailed)"
    by (simp add: test_scheduler_main_def c st n0 p0 n1 p1 n2 R1 stop del: One_nat_def)
  show "\<not> junk \<Longrightarrow> test_scheduler_main junk junk2 mem self th ?mk mems slept R = Inl AssertionFailed"
    using main by simp
  show "junk \<Longrightarrow> \<exists>fs gs s W. test_scheduler_main junk junk2 mem self th ?mk mems slept R = Inr (fs, gs, True, s, W) \<and>
      length fs = 3 \<and> length gs = 3 \<and> distinct (fs @ gs) \<and> m_stopping s \<and>
      m_threads s = [obj 0 ''_0'', obj 1 ''_1'']"
    using main later s6(3) by simp
qed

end
