(* ===== verification/IOManager_Test.thy ===== *)
theory IOManager_Test
  imports IOManager_Theorems
begin

text \<open>
  Model of \<open>tests/test_iomanager.cc\<close>: \<open>main\<close> registers both events of a connecting socket, and the
  manager runs \<open>func2\<close>, which sends the request, when it is writable, and \<open>func\<close>, which receives the
  answer, when it is readable.
\<close>

section \<open>The program\<close>

abbreviation func :: closure where "func \<equiv> UserFn 0"
abbreviation func2 :: closure where "func2 \<equiv> UserFn 2"

text \<open>
  \<open>main\<close> after \<open>connect\<close>, on thread \<open>th\<close> with the scheduler \<open>cur\<close>; \<open>rts\<close> are the results of
  \<open>epoll_ctl\<close>. Those of \<open>addEvent\<close> are ignored.
\<close>

definition test_iomanager_main ::
  "int \<times> int \<Rightarrow> bool \<Rightarrow> nat \<Rightarrow> nat option \<Rightarrow> int \<Rightarrow> iomanager \<Rightarrow> fiber_world \<Rightarrow>
   (iomanager \<times> fiber_world) result" where
  "test_iomanager_main rts junk th cur sock m W =
     and_then (addEvent (fst rts) junk th cur sock WRITE_event (Some func2) m W) (\<lambda>(_, m1, W1).
     and_then (addEvent (snd rts) junk th cur sock READ_event (Some func) m1 W1) (\<lambda>(_, m2, W2).
       Inr (m2, W2)))"

section \<open>A socket without events\<close>

lemma unregistered_context:
  assumes "io_inv m" and "i < length (m_fdContexts m)" and "fc_events (m_fdContexts m ! i) = 0"
  shows "m_fdContexts m ! i = new_fd_context i"
  using inv_ctx [OF assms(1,2)] inv_fd [OF assms(1,2)] assms(3)
  by (cases "m_fdContexts m ! i") (simp add: ctx_ok_def new_fd_context_def)

definition cb_context :: "nat \<Rightarrow> closure \<Rightarrow> event_context" where
  "cb_context self f = \<lparr>ec_scheduler = Some self, ec_fiber = None, ec_cb = Some f\<rparr>"

text \<open>The context of the socket with the events \<open>e\<close> left, and the task of a function.\<close>

definition test_context :: "nat \<Rightarrow> nat \<Rightarrow> 32 word \<Rightarrow> fd_context" where
  "test_context self i e =
     \<lparr>fc_read = (if e AND READ_event \<noteq> 0 then cb_context self func else no_context),
      fc_write = (if e AND WRITE_event \<noteq> 0 then cb_context self func2 else no_context),
      fc_fd = int i, fc_events = e\<rparr>"

lemma test_contexts:
  "test_context self i 0 = new_fd_context i"
  "with_event WRITE_event (cb_context self func2) (new_fd_context i) = test_context self i 4"
  "with_event READ_event (cb_context self func) (test_context self i 4) = test_context self i 5"
  "without WRITE_event (test_context self i 5) = test_context self i 1"
  "without READ_event (test_context self i 5) = test_context self i 4"
  "without READ_event (test_context self i 1) = new_fd_context i"
  "without WRITE_event (test_context self i 4) = new_fd_context i"
  "the_context READ_event (test_context self i 1) = cb_context self func"
  "the_context READ_event (test_context self i 5) = cb_context self func"
  "the_context WRITE_event (test_context self i 4) = cb_context self func2"
  "the_context WRITE_event (test_context self i 5) = cb_context self func2"
  "fc_events (test_context self i e) = e"
  by (simp_all add: test_context_def cb_context_def new_fd_context_def with_event_def set_context_def
      without_def resetEventContext_def the_context_def no_context_def)

definition fn_task :: "closure \<Rightarrow> sched_task" where
  "fn_task f = \<lparr>st_fiber = None, st_cb = Some f, st_thread = - 1\<rparr>"

lemma delivered_cb:
  "delivered (cb_context (io_self m) f) m = pushed (fn_task f) m"
  by (simp add: delivered_def cb_context_def context_task_def context_arg_def fn_task_def)

lemma pushed_tasks: "m_tasks (pushed (fn_task f) m) = m_tasks m @ [fn_task f]"
  by (simp add: pushed_def fn_task_def has_work_def)

text \<open>The manager with the events \<open>e\<close> of the socket left: \<open>n\<close> counted, the tasks \<open>ts\<close> queued.\<close>

definition socket_state :: "iomanager \<Rightarrow> nat \<Rightarrow> 32 word \<Rightarrow> 64 word \<Rightarrow> sched_task list \<Rightarrow> iomanager \<Rightarrow> bool" where
  "socket_state m i e n ts m' \<longleftrightarrow> io_inv m' \<and>
     m_fdContexts m' = (m_fdContexts m)[i := test_context (io_self m) i e] \<and>
     m_pendingEventCount m' = m_pendingEventCount m + n \<and> m_tasks m' = m_tasks m @ ts \<and>
     m_tickleFds m' = m_tickleFds m \<and> io_self m' = io_self m"

lemma fire_self [simp]: "io_self (fire v real i m) = io_self m"
  by (simp add: fire_def)

lemma fire_cb:
  assumes "real AND v \<noteq> 0 \<longrightarrow> the_context v (m_fdContexts m ! i) = cb_context (io_self m) f"
  shows "m_tasks (fire v real i m) = m_tasks m @ (if real AND v \<noteq> 0 then [fn_task f] else [])"
  using assms by (auto simp: fire_def delivered_cb pushed_tasks)

lemma fired_test:
  assumes "valid_mask e" and "valid_mask real" and "real AND NOT e = 0"
  shows "fired real (test_context self i e) = test_context self i (e AND NOT real)"
proof -
  from assms consider "real = 0" | "real = 1" "e = 1 \<or> e = 5" | "real = 4" "e = 4 \<or> e = 5" | "real = 5" "e = 5"
    unfolding valid_mask_def by (elim disjE; simp)
  then show ?thesis by cases (auto simp: fired_def test_contexts Let_def)
qed

lemma fire_all_test:
  assumes i: "i < length (m_fdContexts m)" and c: "m_fdContexts m ! i = test_context (io_self m) i e"
    and real: "valid_mask e" "valid_mask real" "real AND NOT e = 0"
  shows "m_tasks (fire_all real i m) = m_tasks m @ (if real AND READ_event \<noteq> 0 then [fn_task func] else [])
      @ (if real AND WRITE_event \<noteq> 0 then [fn_task func2] else [])"
    and "io_self (fire_all real i m) = io_self m"
proof -
  note mem = fired_mask(3,4) [OF real]
  let ?m = "fire READ_event real i m"
  have "the_context READ_event (m_fdContexts m ! i) = cb_context (io_self m) func" if "real AND READ_event \<noteq> 0"
    using mem(1) that by (simp add: c test_context_def the_context_def)
  then have r: "m_tasks ?m = m_tasks m @ (if real AND READ_event \<noteq> 0 then [fn_task func] else [])"
    by (simp add: fire_cb)
  have "m_fdContexts ?m ! i = (if real AND READ_event \<noteq> 0 then without READ_event (test_context (io_self m) i e)
      else test_context (io_self m) i e)"
    using i by (simp add: fire_def c)
  then have "the_context WRITE_event (m_fdContexts ?m ! i) = cb_context (io_self ?m) func2"
    if "real AND WRITE_event \<noteq> 0"
    using mem(2) that
    by (simp add: test_context_def the_context_def without_def resetEventContext_def set_context_def)
  then show "m_tasks (fire_all real i m) = m_tasks m @ (if real AND READ_event \<noteq> 0 then [fn_task func] else [])
      @ (if real AND WRITE_event \<noteq> 0 then [fn_task func2] else [])" "io_self (fire_all real i m) = io_self m"
    unfolding fire_all_def by (simp_all add: fire_cb r)
qed

lemma socket_ready:
  assumes st: "socket_state m i e n ts m'" and i: "i < length (m_fdContexts m)" "int i \<noteq> fst (m_tickleFds m)"
    and e: "valid_mask e" and rep: "kernel_reports e reported" and some: "real_events reported e \<noteq> 0"
  shows "\<exists>m2. idle_event 0 (OfContext i) reported m' = Inr m2 \<and>
    socket_state m i (e AND NOT (real_events reported e)) (n - of_nat (n_events (real_events reported e)))
      (ts @ (if real_events reported e AND READ_event \<noteq> 0 then [fn_task func] else [])
          @ (if real_events reported e AND WRITE_event \<noteq> 0 then [fn_task func2] else [])) m2"
proof -
  let ?real = "real_events reported e" let ?left = "e AND NOT ?real"
  let ?l = "m'\<lparr>ctl_log := ctl_log m' @ [(if ?left \<noteq> 0 then CTL_MOD else CTL_DEL, int i, EPOLLET OR ?left)]\<rparr>"
  note st = st[unfolded socket_state_def]
  have i': "i < length (m_fdContexts m')" and c: "m_fdContexts m' ! i = test_context (io_self m) i e"
    using st i by simp_all
  have idle: "idle_event 0 (OfContext i) reported m' = Inr (fire_all ?real i ?l)"
    using idle_event_spec [of m' i reported 0] st i' c rep some by (simp add: test_contexts(12) Let_def)
  have "usable (int i) m'" using i i' st by (simp add: usable_def)
  then have inv: "io_inv (fire_all ?real i ?l)"
    using io_op_inv [OF io_op.ready [OF _ _ idle]] st rep c by (simp add: test_contexts(12))
  have real: "valid_mask ?real" "?real AND NOT e = 0" "e AND ?real = ?real"
    using real_subset [OF rep e] real_events_valid by auto
  note f = fire_all_fields [of i ?l ?real] fire_all_test [of i ?l e ?real] fired_test [OF e real(1,2)]
  have "m_fdContexts (fire_all ?real i ?l) = (m_fdContexts m)[i := test_context (io_self m) i ?left] \<and>
      m_tasks (fire_all ?real i ?l) = m_tasks m @ ts @ (if ?real AND READ_event \<noteq> 0 then [fn_task func] else [])
          @ (if ?real AND WRITE_event \<noteq> 0 then [fn_task func2] else []) \<and>
      m_pendingEventCount (fire_all ?real i ?l) = m_pendingEventCount m + (n - of_nat (n_events ?real)) \<and>
      io_self (fire_all ?real i ?l) = io_self m \<and> m_tickleFds (fire_all ?real i ?l) = m_tickleFds m"
    using st i' c e real f by (simp del: n_events.simps)
  with inv idle show ?thesis by (simp add: socket_state_def del: n_events.simps)
qed

text \<open>
  The program on a manager that has nothing registered for the socket, with the manager as the
  scheduler of its thread: both events are registered. When the connection is made, the socket first
  becomes writable and then readable, and \<open>func2\<close> is queued before \<open>func\<close>; when it fails (an error
  and a hang-up in one report), \<open>func\<close> is queued first and receives before anything was sent. In both
  cases the socket has no event left, and the count is back where it was.
\<close>

lemma test_iomanager_run:
  assumes "io_reach m" and u: "usable sock m" and none: "fc_events (m_fdContexts m ! nat sock) = 0"
  shows "\<exists>m1 m2 m3 m4. test_iomanager_main (0, 0) junk th (Some (io_self m)) sock m W = Inr (m1, W) \<and>
    m_pendingEventCount m1 = m_pendingEventCount m + 2 \<and> interest m1 sock = Some (EPOLLET OR READ_event OR WRITE_event) \<and>
    idle_event 0 (OfContext (nat sock)) EPOLLOUT m1 = Inr m2 \<and> idle_event 0 (OfContext (nat sock)) EPOLLIN m2 = Inr m3 \<and>
    m_tasks m3 = m_tasks m @ [fn_task func2, fn_task func] \<and>
    idle_event 0 (OfContext (nat sock)) (EPOLLERR OR EPOLLHUP) m1 = Inr m4 \<and>
    m_tasks m4 = m_tasks m @ [fn_task func, fn_task func2] \<and>
    (\<forall>m' \<in> {m3, m4}. m_fdContexts m' = m_fdContexts m \<and> m_pendingEventCount m' = m_pendingEventCount m)"
proof -
  have inv: "io_inv m" by (rule io_reach_inv [OF assms(1)])
  let ?i = "nat sock" let ?s = "io_self m"
  have fd: "0 \<le> sock" "sock < int (length (m_fdContexts m))" and i: "?i < length (m_fdContexts m)"
    "int ?i \<noteq> fst (m_tickleFds m)" using u by (simp_all add: usable_def nat_less_iff)
  have c: "m_fdContexts m ! ?i = new_fd_context ?i" by (rule unregistered_context [OF inv i(1) none])
  have v: "valid_event WRITE_event" "valid_event READ_event" by (simp_all add: valid_event_def)
  let ?ma = "after_add ?i WRITE_event (cb_context ?s func2) m"
  let ?m1 = "after_add ?i READ_event (cb_context ?s func) ?ma"
  have arm: "armed (cb_context ?s f)" for f by (simp add: armed_def cb_context_def)
  have inva: "io_inv ?ma" by (rule io_inv_after_add [OF inv i v(1) _ arm]) (simp add: none)
  have ca: "m_fdContexts ?ma = (m_fdContexts m)[?i := test_context ?s ?i 4]"
    by (simp add: after_add_def c test_contexts)
  have inv1: "io_inv ?m1"
    by (rule io_inv_after_add [OF inva _ _ v(2) _ arm]) (use i ca in \<open>simp_all add: test_contexts after_add_def\<close>)
  have c1: "m_fdContexts ?m1 = (m_fdContexts m)[?i := test_context ?s ?i 5]"
    using i(1) ca by (simp add: after_add_def [of _ READ_event] test_contexts)
  have main: "test_iomanager_main (0, 0) junk th (Some ?s) sock m W = Inr (?m1, W)"
    using addEvent_cb_spec [OF inv fd v(1), of junk th "Some ?s" func2 W]
      addEvent_cb_spec [OF inva _ _ v(2), of sock junk th "Some ?s" func W] fd i ca none
    by (simp add: test_iomanager_main_def cb_context_def test_contexts)
  have st: "socket_state m ?i 5 2 [] ?m1"
    using inv1 c1 by (simp add: socket_state_def) (simp add: after_add_def)
  have "m_fdContexts ?m1 ! ?i = test_context ?s ?i 5" unfolding c1 using i(1) by simp
  moreover have "interest ?m1 (int ?i) = expected_interest (m_fdContexts ?m1 ! ?i)"
    by (rule inv_interest [OF inv1]) (use i in \<open>simp_all add: after_add_def\<close>)
  ultimately have "interest ?m1 (int ?i) = expected_interest (test_context ?s ?i 5)" by argo
  then have int: "interest ?m1 sock = Some (EPOLLET OR READ_event OR WRITE_event)"
    using fd by (simp add: expected_interest_def test_contexts)
  note masks = kernel_reports_def real_events_def valid_mask_def
  obtain m2 where m2: "idle_event 0 (OfContext ?i) EPOLLOUT ?m1 = Inr m2" and s2: "socket_state m ?i 1 1 [fn_task func2] m2"
    using socket_ready [OF st i, of EPOLLOUT] by (auto simp: masks)
  obtain m3 where m3: "idle_event 0 (OfContext ?i) EPOLLIN m2 = Inr m3"
    and s3: "socket_state m ?i 0 0 [fn_task func2, fn_task func] m3"
    using socket_ready [OF s2 i, of EPOLLIN] by (auto simp: masks)
  obtain m4 where m4: "idle_event 0 (OfContext ?i) (EPOLLERR OR EPOLLHUP) ?m1 = Inr m4"
    and s4: "socket_state m ?i 0 0 [fn_task func, fn_task func2] m4"
    using socket_ready [OF st i, of "EPOLLERR OR EPOLLHUP"] by (auto simp: masks)
  have "(m_fdContexts m)[?i := test_context ?s ?i 0] = m_fdContexts m"
    using c by (metis list_update_id test_contexts(1))
  with s3 s4 main st int m2 m3 m4 show ?thesis
    by (intro exI [of _ ?m1] exI [of _ m2] exI [of _ m3] exI [of _ m4]) (simp add: socket_state_def)
qed

lemma test_iomanager_run_example:
  "\<exists>m1 m2 m3. test_iomanager_main (0, 0) False 0 (Some 1) 6 io0 init_world = Inr (m1, init_world) \<and>
    idle_event 0 (OfContext 6) EPOLLOUT m1 = Inr m2 \<and> idle_event 0 (OfContext 6) EPOLLIN m2 = Inr m3 \<and>
    m_tasks m3 = [fn_task func2, fn_task func]"
  using test_iomanager_run [OF io0_reach, of 6 False 0 init_world]
  by (auto simp: usable_def new_fd_context_def)

end
