(* ===== verification/IOManager_Fine.thy ===== *)
theory IOManager_Fine
  imports IOManager_Theorems "HOL-Library.Multiset"
begin

text \<open>
  The operations of \<open>IOManager\<close> statement by statement. What \<open>addEvent\<close>, \<open>delEvent\<close>, \<open>cancelEvent\<close>,
  \<open>cancelAll\<close> and the event loop of \<open>idle\<close> do after their tests runs under the mutex of one context,
  while other threads are in the middle of the same functions on other contexts: they share the
  kernel's interest list, the count of pending events and the queue of the scheduler. The theory
  gives the statements, the interleaved runs, and the view of a manager on which statements of
  different contexts commute.
\<close>

section \<open>Statements\<close>

text \<open>
  Each is one access to shared state: a system call, an atomic increment, an assignment in the locked
  context, the critical section of \<open>scheduleLock\<close>, and the wakeup after it.
\<close>

datatype io_stmt =
    S_ctl ctl_op int "32 word"       \<comment> \<open>\<open>epoll_ctl(m_epfd, op, fd, &epevent)\<close>\<close>
  | S_count_up                       \<comment> \<open>\<open>++m_pendingEventCount\<close>\<close>
  | S_count_down                     \<comment> \<open>\<open>--m_pendingEventCount\<close>\<close>
  | S_or_events "32 word"            \<comment> \<open>\<open>fd_ctx->events = events | event\<close>\<close>
  | S_set_events "32 word"           \<comment> \<open>\<open>fd_ctx->events = new_events\<close>\<close>
  | S_arm "32 word" event_context    \<comment> \<open>the assertion and the assignments to \<open>event_ctx\<close>\<close>
  | S_check "32 word"                \<comment> \<open>\<open>assert(events & event)\<close>\<close>
  | S_clear_events "32 word"         \<comment> \<open>\<open>events = events & ~event\<close>\<close>
  | S_push "32 word"                 \<comment> \<open>\<open>ctx.scheduler->scheduleLock\<close>, up to the unlock\<close>
  | S_tickle                         \<comment> \<open>\<open>if (need_tickle) tickle()\<close>\<close>
  | S_reset "32 word"                \<comment> \<open>\<open>resetEventContext(ctx)\<close>\<close>
  | S_assert_none                    \<comment> \<open>\<open>assert(fd_ctx->events == 0)\<close>\<close>

text \<open>The critical section of \<open>scheduleLock\<close>, with its \<open>need_tickle\<close>; another scheduler's is its own.\<close>

definition push_to :: "nat option \<Rightarrow> sched_arg \<Rightarrow> iomanager \<Rightarrow> (bool \<times> iomanager) result" where
  "push_to target fc m =
     (case target of
        None \<Rightarrow> Inl NullDereference
      | Some s \<Rightarrow>
          if s = io_self m
          then let task = ScheduleTask fc (- 1)
               in Inr (m_tasks m = [], if has_work task then m\<lparr>m_tasks := m_tasks m @ [task]\<rparr> else m)
          else Inr (False, m\<lparr>io_foreign := io_foreign m @ [(s, fc)]\<rparr>))"

text \<open>A statement in the function that holds context \<open>i\<close>; the flag is its local \<open>need_tickle\<close>.\<close>

fun io_exec :: "io_stmt \<Rightarrow> nat \<Rightarrow> bool \<times> iomanager \<Rightarrow> (bool \<times> iomanager) result" where
  "io_exec (S_ctl op fd ev) i (need, m) = Inr (need, m\<lparr>ctl_log := ctl_log m @ [(op, fd, ev)]\<rparr>)"
| "io_exec S_count_up i (need, m) = Inr (need, m\<lparr>m_pendingEventCount := m_pendingEventCount m + 1\<rparr>)"
| "io_exec S_count_down i (need, m) = Inr (need, m\<lparr>m_pendingEventCount := m_pendingEventCount m - 1\<rparr>)"
| "io_exec (S_or_events v) i (need, m) =
     Inr (need, upd_ctx i (\<lambda>c. c\<lparr>fc_events := fc_events c OR v\<rparr>) m)"
| "io_exec (S_set_events w) i (need, m) = Inr (need, upd_ctx i (\<lambda>c. c\<lparr>fc_events := w\<rparr>) m)"
| "io_exec (S_arm v ec) i (need, m) =
     and_then (getEventContext v (m_fdContexts m ! i)) (\<lambda>ctx.
     assert_that (ec_scheduler ctx = None \<and> ec_fiber ctx = None \<and> ec_cb ctx = None)
       (Inr (need, upd_ctx i (set_context v ec) m)))"
| "io_exec (S_check v) i (need, m) =
     assert_that (fc_events (m_fdContexts m ! i) AND v \<noteq> 0) (Inr (need, m))"
| "io_exec (S_clear_events v) i (need, m) =
     Inr (need, upd_ctx i (\<lambda>c. c\<lparr>fc_events := fc_events c AND NOT v\<rparr>) m)"
| "io_exec (S_push v) i (need, m) =
     and_then (getEventContext v (m_fdContexts m ! i)) (\<lambda>ctx.
     push_to (ec_scheduler ctx)
       (if ec_cb ctx \<noteq> None then CbSwapped (ec_cb ctx) else FiberSwapped (ec_fiber ctx)) m)"
| "io_exec S_tickle i (need, m) =
     (if need then and_then (IOManager_tickle 1 m) (\<lambda>m'. Inr (False, m')) else Inr (need, m))"
| "io_exec (S_reset v) i (need, m) =
     and_then (getEventContext v (m_fdContexts m ! i)) (\<lambda>_. Inr (need, upd_ctx i (resetEventContext v) m))"
| "io_exec S_assert_none i (need, m) =
     assert_that (fc_events (m_fdContexts m ! i) = 0) (Inr (need, m))"

fun run_code :: "io_stmt list \<Rightarrow> nat \<Rightarrow> bool \<times> iomanager \<Rightarrow> (bool \<times> iomanager) result" where
  "run_code [] i x = Inr x"
| "run_code (s # p) i x = and_then (io_exec s i x) (run_code p i)"

section \<open>The functions as lists of statements\<close>

text \<open>
  What each function does on the locked context \<open>c\<close> once its tests have passed and \<open>epoll_ctl\<close>
  succeeds; a failed \<open>epoll_ctl\<close> and a failed test change nothing.
\<close>

definition add_code :: "int \<Rightarrow> 32 word \<Rightarrow> event_context \<Rightarrow> fd_context \<Rightarrow> io_stmt list" where
  "add_code fd v ec c =
     [S_ctl (if fc_events c \<noteq> 0 then CTL_MOD else CTL_ADD) fd (EPOLLET OR fc_events c OR v),
      S_count_up, S_or_events v, S_arm v ec]"

definition del_code :: "int \<Rightarrow> 32 word \<Rightarrow> fd_context \<Rightarrow> io_stmt list" where
  "del_code fd v c =
     (let new_events = fc_events c AND NOT v
      in [S_ctl (if new_events \<noteq> 0 then CTL_MOD else CTL_DEL) fd (EPOLLET OR new_events),
          S_count_down, S_set_events new_events, S_reset v])"

definition trigger_code :: "32 word \<Rightarrow> io_stmt list" where
  "trigger_code v = [S_check v, S_clear_events v, S_push v, S_tickle, S_reset v]"

definition cancel_code :: "int \<Rightarrow> 32 word \<Rightarrow> fd_context \<Rightarrow> io_stmt list" where
  "cancel_code fd v c =
     (let new_events = fc_events c AND NOT v
      in [S_ctl (if new_events \<noteq> 0 then CTL_MOD else CTL_DEL) fd (EPOLLET OR new_events),
          S_count_down] @ trigger_code v)"

definition fire_code :: "32 word \<Rightarrow> 32 word \<Rightarrow> io_stmt list" where
  "fire_code real v = (if real AND v \<noteq> 0 then trigger_code v @ [S_count_down] else [])"

definition cancel_all_code :: "int \<Rightarrow> fd_context \<Rightarrow> io_stmt list" where
  "cancel_all_code fd c =
     S_ctl CTL_DEL fd 0 # fire_code (fc_events c) READ_event @ fire_code (fc_events c) WRITE_event
     @ [S_assert_none]"

definition ready_code :: "32 word \<Rightarrow> fd_context \<Rightarrow> io_stmt list" where
  "ready_code reported c =
     (let real = real_events reported (fc_events c); left_events = fc_events c AND NOT real
      in S_ctl (if left_events \<noteq> 0 then CTL_MOD else CTL_DEL) (fc_fd c) (EPOLLET OR left_events)
         # fire_code real READ_event @ fire_code real WRITE_event)"

text \<open>
  The context an \<open>addEvent\<close> fills in: the scheduler of the thread, and its function or the thread's
  fiber, which is running.
\<close>

definition event_target ::
  "bool \<Rightarrow> nat \<Rightarrow> nat option \<Rightarrow> closure option \<Rightarrow> fiber_world \<Rightarrow> (event_context \<times> fiber_world) result" where
  "event_target junk th cur cb W =
     (case cb of
        Some f \<Rightarrow> Inr (\<lparr>ec_scheduler = cur, ec_fiber = None, ec_cb = Some f\<rparr>, W)
      | None \<Rightarrow>
          and_then (Fiber.GetThis True junk th W) (\<lambda>(f, W1).
          assert_that (state_of W1 f = RUNNING)
            (Inr (\<lparr>ec_scheduler = cur, ec_fiber = Some f, ec_cb = None\<rparr>, W1))))"

datatype io_call =
    AddCall bool nat nat "32 word" "closure option" fiber_world
  | DelCall "32 word"
  | CancelCall "32 word"
  | CancelAllCall
  | ReadyCall "32 word"

fun io_code :: "io_call \<Rightarrow> nat \<Rightarrow> fd_context \<Rightarrow> io_stmt list" where
  "io_code (AddCall junk th s v cb W) i c =
     (case event_target junk th (Some s) cb W of
        Inl _ \<Rightarrow> [] | Inr (ec, _) \<Rightarrow> add_code (int i) v ec c)"
| "io_code (DelCall v) i c = del_code (int i) v c"
| "io_code (CancelCall v) i c = cancel_code (int i) v c"
| "io_code CancelAllCall i c = cancel_all_code (int i) c"
| "io_code (ReadyCall reported) i c = ready_code reported c"

text \<open>The same call as one atomic operation, and the tests under which it changes the context.\<close>

fun io_atomic :: "io_call \<Rightarrow> nat \<Rightarrow> iomanager \<Rightarrow> iomanager result" where
  "io_atomic (AddCall junk th s v cb W) i m =
     and_then (addEvent 0 junk th (Some s) (int i) v cb m W) (\<lambda>(_, m', _). Inr m')"
| "io_atomic (DelCall v) i m = and_then (delEvent 0 (int i) v m) (\<lambda>(_, m'). Inr m')"
| "io_atomic (CancelCall v) i m = and_then (cancelEvent 0 (int i) v m) (\<lambda>(_, m'). Inr m')"
| "io_atomic CancelAllCall i m = and_then (cancelAll 0 (int i) m) (\<lambda>(_, m'). Inr m')"
| "io_atomic (ReadyCall reported) i m = idle_event 0 (OfContext i) reported m"

fun io_enabled :: "io_call \<Rightarrow> fd_context \<Rightarrow> bool" where
  "io_enabled (AddCall junk th s v cb W) c \<longleftrightarrow>
     valid_event v \<and> fc_events c AND v = 0 \<and> \<not> isl (event_target junk th (Some s) cb W)"
| "io_enabled (DelCall v) c \<longleftrightarrow> valid_event v \<and> fc_events c AND v \<noteq> 0"
| "io_enabled (CancelCall v) c \<longleftrightarrow> valid_event v \<and> fc_events c AND v \<noteq> 0"
| "io_enabled CancelAllCall c \<longleftrightarrow> fc_events c \<noteq> 0"
| "io_enabled (ReadyCall reported) c \<longleftrightarrow>
     kernel_reports (fc_events c) reported \<and> real_events reported (fc_events c) \<noteq> 0"

text \<open>Without interruption the statements are the operation.\<close>

lemma run_code_append: "run_code (p @ q) i x = and_then (run_code p i x) (run_code q i)"
proof (induction p arbitrary: x)
  case (Cons s p)
  then have "run_code (p @ q) i = (\<lambda>y. and_then (run_code p i y) (run_code q i))" by blast
  then show ?case by (simp add: and_then_assoc)
qed simp

lemma run_code_Cons: "run_code (s # p) i = (\<lambda>x. and_then (io_exec s i x) (run_code p i))"
  by (rule ext) simp

lemma push_tickle:
  "and_then (push_to target fc m) (\<lambda>y. and_then (io_exec S_tickle i y) k) =
     and_then (schedule_to target fc m) (\<lambda>m'. k (False, m'))"
proof (cases target)
  case (Some s)
  then show ?thesis
    by (cases "m_tasks m = []") (simp_all add: push_to_def schedule_to_def scheduleLock_def Let_def
        IOManager_tickle_def hasIdleThreads_def)
qed (simp add: push_to_def schedule_to_def)

lemma run_trigger:
  "run_code (trigger_code v) i (False, m) = and_then (triggerEvent v i m) (\<lambda>m'. Inr (False, m'))"
proof -
  let ?m1 = "upd_ctx i (\<lambda>c. c\<lparr>fc_events := fc_events c AND NOT v\<rparr>) m"
  let ?arg = "\<lambda>ctx. if ec_cb ctx \<noteq> None then CbSwapped (ec_cb ctx) else FiberSwapped (ec_fiber ctx)"
  have "and_then (io_exec (S_push v) i (False, ?m1)) (run_code [S_tickle, S_reset v] i) =
    and_then (getEventContext v (m_fdContexts ?m1 ! i)) (\<lambda>ctx.
      and_then (push_to (ec_scheduler ctx) (?arg ctx) ?m1) (\<lambda>y. and_then (io_exec S_tickle i y)
        (run_code [S_reset v] i)))"
    by (simp only: io_exec.simps and_then_assoc run_code_Cons [of S_tickle])
  also have "\<dots> = and_then (getEventContext v (m_fdContexts ?m1 ! i)) (\<lambda>ctx.
      and_then (schedule_to (ec_scheduler ctx) (?arg ctx) ?m1) (\<lambda>m'. run_code [S_reset v] i (False, m')))"
    by (simp only: push_tickle)
  also have "\<dots> = and_then (getEventContext v (m_fdContexts ?m1 ! i)) (\<lambda>ctx.
      and_then (schedule_to (ec_scheduler ctx) (?arg ctx) ?m1)
        (\<lambda>m'. Inr (False, upd_ctx i (resetEventContext v) m')))"
    by (cases "v = READ_event \<or> v = WRITE_event") (simp_all add: getEventContext_def)
  finally show ?thesis
    by (simp add: trigger_code_def triggerEvent_def Let_def and_then_assoc assert_that_def)
qed

lemma run_fire:
  "run_code (fire_code real v) i (False, m) =
    and_then (if real AND v \<noteq> 0 then trigger_and_count v i m else Inr m) (\<lambda>m'. Inr (False, m'))"
  by (simp add: fire_code_def run_code_append run_trigger trigger_and_count_def and_then_assoc)

lemma run_two_fires:
  assumes i: "i < length (m_fdContexts m)" and ok: "ctx_ok (m_fdContexts m ! i)"
    and real: "valid_mask real" "real AND NOT (fc_events (m_fdContexts m ! i)) = 0"
  shows "run_code (fire_code real READ_event @ fire_code real WRITE_event @ p) i (False, m) =
    run_code p i (False, fire_all real i m)"
proof -
  have "run_code (fire_code real READ_event @ fire_code real WRITE_event @ p) i (False, m) =
    and_then (if real AND READ_event \<noteq> 0 then trigger_and_count READ_event i m else Inr m) (\<lambda>m2.
    and_then (if real AND WRITE_event \<noteq> 0 then trigger_and_count WRITE_event i m2 else Inr m2) (\<lambda>m3.
      run_code p i (False, m3)))"
    by (simp only: run_code_append run_fire and_then_assoc and_then.simps)
  then show ?thesis
    using two_fires [OF assms] by (simp add: and_then_assoc [symmetric] del: and_then_assoc)
qed

lemma usable_index: "usable (int i) m \<longleftrightarrow> i < length (m_fdContexts m) \<and> int i \<noteq> fst (m_tickleFds m)"
  by (auto simp: usable_def)

lemma run_add:
  assumes "io_inv m" and "usable (int i) m" and en: "io_enabled (AddCall junk th s v cb W) (m_fdContexts m ! i)"
  obtains ec W' where "event_target junk th (Some s) cb W = Inr (ec, W')" and "armed ec"
    and "addEvent 0 junk th (Some s) (int i) v cb m W = Inr (0, after_add i v ec m, W')"
    and "run_code (add_code (int i) v ec (m_fdContexts m ! i)) i (False, m) = Inr (False, after_add i v ec m)"
proof -
  let ?c = "m_fdContexts m ! i"
  have i: "0 \<le> int i" "int i < int (length (m_fdContexts m))" "i < length (m_fdContexts m)"
    using assms(2) by (auto simp: usable_def)
  have v: "valid_event v" and off: "fc_events ?c AND v = 0" using en by simp_all
  from en obtain ec W' where t: "event_target junk th (Some s) cb W = Inr (ec, W')"
    by (cases "event_target junk th (Some s) cb W") auto
  have "armed ec" and "addEvent 0 junk th (Some s) (int i) v cb m W = Inr (0, after_add i v ec m, W')"
    using t addEvent_cb_spec [OF assms(1) i(1,2) v] addEvent_fiber_spec [OF assms(1) i(1,2) v] off
    by (auto simp: event_target_def armed_def result_simps split: option.splits)
  moreover have "the_context v ?c = no_context"
    by (rule context_empty [OF inv_ctx [OF assms(1) i(3)] v off])
  then have "getEventContext v (?c\<lparr>fc_events := fc_events ?c OR v\<rparr>) = Inr no_context"
    using v by (auto simp: getEventContext_def the_context_def valid_event_def)
  then have "run_code (add_code (int i) v ec ?c) i (False, m) = Inr (False, after_add i v ec m)"
    using i(3) by (simp add: add_code_def upd_ctx_def after_add_def with_event_def no_context_def)
  ultimately show thesis using that t by blast
qed

text \<open>
  What each call does to a manager that satisfies the invariant, as one operation and as its
  statements: the same, and it is one of the operations of \<open>io_op\<close>.
\<close>

definition same_as_atomic :: "io_call \<Rightarrow> nat \<Rightarrow> iomanager \<Rightarrow> bool" where
  "same_as_atomic call i m \<longleftrightarrow> (\<exists>m'. io_atomic call i m = Inr m' \<and> io_op m m' \<and>
     run_code (io_code call i (m_fdContexts m ! i)) i (False, m) = Inr (False, m'))"

lemma add_call:
  assumes inv: "io_inv m" and u: "usable (int i) m" and en: "io_enabled (AddCall junk th s v cb W) (m_fdContexts m ! i)"
  shows "same_as_atomic (AddCall junk th s v cb W) i m"
proof -
  have v: "valid_event v" using en by simp
  obtain ec W' where t: "event_target junk th (Some s) cb W = Inr (ec, W')"
    and a: "addEvent 0 junk th (Some s) (int i) v cb m W = Inr (0, after_add i v ec m, W')"
    and r: "run_code (add_code (int i) v ec (m_fdContexts m ! i)) i (False, m) = Inr (False, after_add i v ec m)"
    by (rule run_add [OF inv u en])
  from io_op.add [OF u v a] a r show ?thesis by (simp add: same_as_atomic_def t)
qed

lemma removal_calls:
  assumes inv: "io_inv m" and u: "usable (int i) m"
    and v: "valid_event v" and on: "fc_events (m_fdContexts m ! i) AND v \<noteq> 0"
  shows "same_as_atomic (DelCall v) i m" and "same_as_atomic (CancelCall v) i m"
proof -
  let ?c = "m_fdContexts m ! i"
  have fd: "0 \<le> int i" "int i < int (length (m_fdContexts m))" and i: "i < length (m_fdContexts m)"
    using u by (auto simp: usable_def)
  have reg: "is_registered (int i) v m" using on by (simp add: is_registered_def)
  have "run_code (del_code (int i) v ?c) i (False, m) = Inr (False, after_remove i v m)"
    using i v by (auto simp: del_code_def Let_def upd_ctx_def after_remove_def without_def
        getEventContext_def valid_event_def)
  then show "same_as_atomic (DelCall v) i m"
    using delEvent_spec [OF inv fd v] io_op.del [OF u v reg, of 0] on by (simp add: same_as_atomic_def)
  have "and_then (cancelEvent 0 (int i) v m) (\<lambda>(_, m'). Inr (False, m')) =
      run_code (cancel_code (int i) v ?c) i (False, m)"
    using inv fd guard_registered [OF on]
    by (simp add: cancelEvent_def cancel_code_def find_context_ok Let_def run_trigger and_then_assoc)
  then show "same_as_atomic (CancelCall v) i m"
    using cancelEvent_spec [OF inv fd v] io_op.cancel [OF u v reg, of 0] on by (simp add: same_as_atomic_def)
qed

lemma cancel_all_call:
  assumes inv: "io_inv m" and u: "usable (int i) m" and on: "fc_events (m_fdContexts m ! i) \<noteq> 0"
  shows "same_as_atomic CancelAllCall i m"
proof -
  let ?c = "m_fdContexts m ! i"
  have fd: "0 \<le> int i" "int i < int (length (m_fdContexts m))" and i: "i < length (m_fdContexts m)"
    using u by (auto simp: usable_def)
  have ok: "ctx_ok ?c" and mask: "valid_mask (fc_events ?c)"
    using inv_ctx [OF inv i] by (simp_all add: ctx_ok_def)
  let ?m = "m\<lparr>ctl_log := ctl_log m @ [(CTL_DEL, int i, 0)]\<rparr>" let ?m' = "fire_all (fc_events ?c) i ?m"
  have "fc_events (m_fdContexts ?m' ! i) = 0"
    using fire_all_fields(1) [of i ?m] fired_mask(2) [OF mask mask, of ?c] i by simp
  then have "run_code (cancel_all_code (int i) ?c) i (False, m) = Inr (False, ?m')"
    using run_two_fires [of i ?m "fc_events ?c"] i ok mask by (simp add: cancel_all_code_def)
  then show ?thesis
    using cancelAll_spec [OF inv fd] io_op.cancel_all [OF u, of 0] on by (simp add: same_as_atomic_def)
qed

lemma ready_call:
  assumes inv: "io_inv m" and u: "usable (int i) m" and rep: "kernel_reports (fc_events (m_fdContexts m ! i)) r"
    and on: "real_events r (fc_events (m_fdContexts m ! i)) \<noteq> 0"
  shows "same_as_atomic (ReadyCall r) i m"
proof -
  let ?c = "m_fdContexts m ! i"
  have i: "i < length (m_fdContexts m)" using u by (auto simp: usable_def)
  have ok: "ctx_ok ?c" and mask: "valid_mask (fc_events ?c)"
    using inv_ctx [OF inv i] by (simp_all add: ctx_ok_def)
  let ?real = "real_events r (fc_events ?c)" let ?left = "fc_events ?c AND NOT ?real"
  let ?m = "m\<lparr>ctl_log := ctl_log m @ [(if ?left \<noteq> 0 then CTL_MOD else CTL_DEL, int i, EPOLLET OR ?left)]\<rparr>"
  have "run_code (ready_code r ?c) i (False, m) = Inr (False, fire_all ?real i ?m)"
    using run_two_fires [of i ?m ?real "[]"] i ok real_events_valid real_subset [OF rep mask] inv_fd [OF inv i]
    by (simp add: ready_code_def Let_def)
  then show ?thesis
    using idle_event_spec [OF inv i rep, of 0] io_op.ready [OF u rep, of 0] on by (simp add: same_as_atomic_def Let_def)
qed

lemma call_spec:
  assumes inv: "io_inv m" and u: "usable (int i) m" and en: "io_enabled call (m_fdContexts m ! i)"
  shows "\<exists>m'. io_atomic call i m = Inr m' \<and> io_op m m' \<and>
    run_code (io_code call i (m_fdContexts m ! i)) i (False, m) = Inr (False, m')"
proof -
  have "same_as_atomic call i m"
    using en add_call [OF inv u] removal_calls [OF inv u] cancel_all_call [OF inv u] ready_call [OF inv u]
    by (cases call) simp_all
  then show ?thesis by (simp add: same_as_atomic_def)
qed

section \<open>Interleaved runs\<close>

text \<open>
  \<open>f_ops\<close> holds the functions under way: the context whose mutex each has, its \<open>need_tickle\<close> and the
  statements it has left. A function locks a context no other holds; any of them may execute its next
  statement; one that has none left unlocks. \<open>other\<close> is what leaves the contexts, the log, and the
  count alone: the workers that take and run tasks, the timers, the pipe, the clock. \<open>cancels\<close> says
  whether the program calls \<open>cancelEvent\<close>.

  \<open>may_lock\<close> is the discipline of these runs, which the source does not check: removals are of events that
  are registered when the mutex is taken, and a report is current then, that is, has only events the context
  still has. Outside of it a removal miscounts or aborts, and the event loop aborts on a report that is stale
  or shared. A function whose own tests fail, and one whose \<open>epoll_ctl\<close> fails, returns without changing
  anything and does not appear.
\<close>

record fine =
  f_mgr :: iomanager
  f_ops :: "(nat \<times> bool \<times> io_stmt list) list"

definition is_cancel :: "io_call \<Rightarrow> bool" where
  "is_cancel call \<longleftrightarrow> (case call of CancelCall _ \<Rightarrow> True | _ \<Rightarrow> False)"

definition locked_by :: "io_call \<Rightarrow> nat \<Rightarrow> fine \<Rightarrow> fine" where
  "locked_by call i x =
     x\<lparr>f_ops := f_ops x @ [(i, False, io_code call i (m_fdContexts (f_mgr x) ! i))]\<rparr>"

definition may_lock :: "bool \<Rightarrow> io_call \<Rightarrow> nat \<Rightarrow> fine \<Rightarrow> bool" where
  "may_lock cancels call i x \<longleftrightarrow>
     usable (int i) (f_mgr x) \<and> i \<notin> fst ` set (f_ops x) \<and>
     io_enabled call (m_fdContexts (f_mgr x) ! i) \<and> (is_cancel call \<longrightarrow> cancels)"

inductive fine_step :: "bool \<Rightarrow> fine \<Rightarrow> fine \<Rightarrow> bool" for cancels where
  lock: "may_lock cancels call i x \<Longrightarrow> fine_step cancels x (locked_by call i x)"
| stmt: "f_ops x = before @ (i, need, s # p) # after \<Longrightarrow>
    io_exec s i (need, f_mgr x) = Inr (need', m') \<Longrightarrow>
    fine_step cancels x (x\<lparr>f_mgr := m', f_ops := before @ (i, need', p) # after\<rparr>)"
| unlock: "f_ops x = before @ (i, need, []) # after \<Longrightarrow>
    fine_step cancels x (x\<lparr>f_ops := before @ after\<rparr>)"
| other: "m_fdContexts m' = m_fdContexts (f_mgr x) \<Longrightarrow> ctl_log m' = ctl_log (f_mgr x) \<Longrightarrow>
    m_pendingEventCount m' = m_pendingEventCount (f_mgr x) \<Longrightarrow>
    m_tickleFds m' = m_tickleFds (f_mgr x) \<Longrightarrow> io_self m' = io_self (f_mgr x) \<Longrightarrow>
    fine_step cancels x (x\<lparr>f_mgr := m'\<rparr>)"

text \<open>The states interleaved runs reach from a manager that no function is at work on.\<close>

inductive fine_reach :: "bool \<Rightarrow> iomanager \<Rightarrow> fine \<Rightarrow> bool" for cancels m where
  start: "fine_reach cancels m \<lparr>f_mgr = m, f_ops = []\<rparr>"
| step: "fine_reach cancels m x \<Longrightarrow> fine_step cancels x y \<Longrightarrow> fine_reach cancels m y"

end
