(* ===== verification/IOManager_Interleaving.thy ===== *)
theory IOManager_Interleaving
  imports IOManager_Fine
begin

text \<open>
  Why the operations of \<open>IOManager\<close> may be treated as atomic: statements of different contexts commute
  on what the invariant and the workers see of a manager, so an interleaved run is, up to the order
  of the queue, one in which every function runs at the moment it locks its context. And what the
  order of the statements within \<open>cancelEvent\<close> gives away.
\<close>

section \<open>Interleaving in general\<close>

text \<open>
  \<open>act s i V\<close> is the action of statement \<open>s\<close> of the function at \<open>i\<close> on the view \<open>V\<close>, \<open>None\<close> when it
  cannot be executed; \<open>finish\<close> lets every function under way run to its end.
\<close>

fun run_on :: "('s \<Rightarrow> nat \<Rightarrow> 'v \<Rightarrow> 'v option) \<Rightarrow> 's list \<Rightarrow> nat \<Rightarrow> 'v \<Rightarrow> 'v option" where
  "run_on act [] i V = Some V"
| "run_on act (s # p) i V = Option.bind (act s i V) (run_on act p i)"

fun finish :: "('s \<Rightarrow> nat \<Rightarrow> 'v \<Rightarrow> 'v option) \<Rightarrow> (nat \<times> bool \<times> 's list) list \<Rightarrow> 'v \<Rightarrow> 'v option" where
  "finish act [] V = Some V"
| "finish act ((i, _, p) # ops) V = Option.bind (run_on act p i V) (finish act ops)"

lemma run_on_Nil: "run_on act [] i = Some"
  by (rule ext) simp

lemma run_on_Cons: "run_on act (s # p) i = (\<lambda>V. Option.bind (act s i V) (run_on act p i))"
  by (rule ext) simp

lemma finish_Nil: "finish act [] = Some"
  by (rule ext) simp

lemma finish_Cons: "finish act ((i, b, p) # ops) = (\<lambda>V. Option.bind (run_on act p i V) (finish act ops))"
  by (rule ext) simp

lemmas finishing = run_on_Nil run_on_Cons finish_Nil finish_Cons

lemma finish_append: "finish act (xs @ ys) V = Option.bind (finish act xs V) (finish act ys)"
proof (induction xs arbitrary: V)
  case (Cons a xs)
  obtain i b p where a: "a = (i, b, p)" by (cases a)
  from Cons have "finish act (xs @ ys) = (\<lambda>V. Option.bind (finish act xs V) (finish act ys))" by blast
  then show ?case by (simp add: a)
qed simp

text \<open>What the interleaving of functions at different places rests on: their statements commute.\<close>

locale commuting =
  fixes act :: "'s \<Rightarrow> nat \<Rightarrow> 'v \<Rightarrow> 'v option"
  assumes commute: "i \<noteq> j \<Longrightarrow>
    Option.bind (act s i V) (act t j) = Option.bind (act t j V) (act s i)"
begin

lemma commute_run:
  assumes "i \<noteq> j"
  shows "Option.bind (act s i V) (run_on act p j) = Option.bind (run_on act p j V) (act s i)"
proof (induction p arbitrary: V)
  case (Cons t p)
  have "Option.bind (act s i V) (run_on act (t # p) j) =
      Option.bind (Option.bind (act s i V) (act t j)) (run_on act p j)"
    by (simp add: run_on_Cons)
  also have "\<dots> = Option.bind (act t j V) (\<lambda>U. Option.bind (act s i U) (run_on act p j))"
    by (simp add: commute [OF assms])
  also have "\<dots> = Option.bind (run_on act (t # p) j V) (act s i)"
    using Cons.IH by simp
  finally show ?case .
qed (simp add: run_on_Nil)

lemma commute_finish:
  assumes "i \<notin> fst ` set ops"
  shows "Option.bind (act s i V) (finish act ops) = Option.bind (finish act ops V) (act s i)"
  using assms
proof (induction ops arbitrary: V)
  case (Cons a ops)
  obtain j b p where a: "a = (j, b, p)" by (cases a)
  with Cons.prems have j: "i \<noteq> j" and rest: "i \<notin> fst ` set ops" by auto
  have "Option.bind (act s i V) (finish act (a # ops)) =
      Option.bind (Option.bind (act s i V) (run_on act p j)) (finish act ops)"
    by (simp add: a finish_Cons)
  also have "\<dots> = Option.bind (run_on act p j V) (\<lambda>U. Option.bind (act s i U) (finish act ops))"
    by (simp add: commute_run [OF j])
  also have "\<dots> = Option.bind (finish act (a # ops) V) (act s i)"
    using Cons.IH [OF rest] by (simp add: a)
  finally show ?case .
qed (simp add: finish_Nil)

text \<open>Executing one statement out of its turn does not change how everything ends.\<close>

lemma step_finish:
  assumes "i \<notin> fst ` set before"
  shows "finish act (before @ (i, b, s # p) # after) V =
    Option.bind (act s i V) (finish act (before @ (i, b', p) # after))"
proof -
  have "finish act (before @ (i, b, s # p) # after) V =
      Option.bind (Option.bind (finish act before V) (act s i)) (finish act ((i, b', p) # after))"
    by (simp add: finish_append finishing)
  also have "\<dots> = Option.bind (Option.bind (act s i V) (finish act before)) (finish act ((i, b', p) # after))"
    by (simp only: commute_finish [OF assms])
  also have "\<dots> = Option.bind (act s i V) (finish act (before @ (i, b', p) # after))"
    by (cases "act s i V") (simp_all only: bind.simps finish_append)
  finally show ?thesis .
qed

end

section \<open>The view of a manager\<close>

text \<open>
  The contexts, the count, the calls of \<open>epoll_ctl\<close> for each descriptor in their order, and the tasks
  queued or handed to other schedulers, in any order.
\<close>

record io_view =
  v_ctxs :: "fd_context list"
  v_count :: "64 word"
  v_logs :: "int \<Rightarrow> (ctl_op \<times> int \<times> 32 word) list"
  v_tasks :: "sched_task multiset"
  v_foreign :: "(nat \<times> sched_arg) multiset"
  v_self :: nat
  v_tickle :: "int \<times> int"

definition view_of :: "iomanager \<Rightarrow> io_view" where
  "view_of m = \<lparr>v_ctxs = m_fdContexts m, v_count = m_pendingEventCount m,
     v_logs = (\<lambda>fd. filter (\<lambda>(_, d, _). d = fd) (ctl_log m)), v_tasks = mset (m_tasks m),
     v_foreign = mset (io_foreign m), v_self = io_self m, v_tickle = m_tickleFds m\<rparr>"

text \<open>A statement on the view: on its context, and what it adds to the rest.\<close>

fun on_context :: "io_stmt \<Rightarrow> fd_context \<Rightarrow> fd_context option" where
  "on_context (S_or_events v) c = Some (c\<lparr>fc_events := fc_events c OR v\<rparr>)"
| "on_context (S_set_events w) c = Some (c\<lparr>fc_events := w\<rparr>)"
| "on_context (S_arm v ec) c =
     (if valid_event v \<and> the_context v c = no_context then Some (set_context v ec c) else None)"
| "on_context (S_check v) c = (if fc_events c AND v \<noteq> 0 then Some c else None)"
| "on_context (S_clear_events v) c = Some (c\<lparr>fc_events := fc_events c AND NOT v\<rparr>)"
| "on_context (S_push v) c =
     (if valid_event v \<and> ec_scheduler (the_context v c) \<noteq> None then Some c else None)"
| "on_context (S_reset v) c = (if valid_event v then Some (resetEventContext v c) else None)"
| "on_context S_assert_none c = (if fc_events c = 0 then Some c else None)"
| "on_context _ c = Some c"

definition counted :: "io_stmt \<Rightarrow> 64 word" where
  "counted s = (case s of S_count_up \<Rightarrow> 1 | S_count_down \<Rightarrow> - 1 | _ \<Rightarrow> 0)"

definition logged :: "io_stmt \<Rightarrow> int \<Rightarrow> (ctl_op \<times> int \<times> 32 word) list" where
  "logged s d = (case s of S_ctl op fd ev \<Rightarrow> if fd = d then [(op, fd, ev)] else [] | _ \<Rightarrow> [])"

definition queued :: "io_stmt \<Rightarrow> nat \<Rightarrow> fd_context \<Rightarrow> sched_task multiset" where
  "queued s self c =
     (case s of
        S_push v \<Rightarrow>
          let ctx = the_context v c
          in if ec_scheduler ctx = Some self \<and> has_work (context_task ctx) then {#context_task ctx#} else {#}
      | _ \<Rightarrow> {#})"

definition handed_over :: "io_stmt \<Rightarrow> nat \<Rightarrow> fd_context \<Rightarrow> (nat \<times> sched_arg) multiset" where
  "handed_over s self c =
     (case s of
        S_push v \<Rightarrow>
          let ctx = the_context v c
          in if ec_scheduler ctx = Some self then {#} else {#(the (ec_scheduler ctx), context_arg ctx)#}
      | _ \<Rightarrow> {#})"

text \<open>A call of \<open>epoll_ctl\<close> is on the descriptor of the context that is locked.\<close>

definition own_descriptor :: "io_stmt \<Rightarrow> nat \<Rightarrow> bool" where
  "own_descriptor s i \<longleftrightarrow> (case s of S_ctl _ fd _ \<Rightarrow> fd = int i | _ \<Rightarrow> True)"

definition v_act :: "io_stmt \<Rightarrow> nat \<Rightarrow> io_view \<Rightarrow> io_view option" where
  "v_act s i V =
     (case on_context s (v_ctxs V ! i) of
        None \<Rightarrow> None
      | Some c \<Rightarrow>
          if own_descriptor s i
          then Some (V\<lparr>v_ctxs := (v_ctxs V)[i := c], v_count := v_count V + counted s,
                 v_logs := (\<lambda>d. v_logs V d @ logged s d),
                 v_tasks := v_tasks V + queued s (v_self V) (v_ctxs V ! i),
                 v_foreign := v_foreign V + handed_over s (v_self V) (v_ctxs V ! i)\<rparr>)
          else None)"

lemma logged_own: "own_descriptor s i \<Longrightarrow> d \<noteq> int i \<Longrightarrow> logged s d = []"
  by (cases s) (auto simp: own_descriptor_def logged_def)

interpretation views: commuting v_act
proof unfold_locales
  fix i j :: nat and s t V
  assume ij: "i \<noteq> j"
  show "Option.bind (v_act s i V) (v_act t j) = Option.bind (v_act t j V) (v_act s i)"
  proof (cases "on_context s (v_ctxs V ! i) = None \<or> on_context t (v_ctxs V ! j) = None \<or>
      \<not> own_descriptor s i \<or> \<not> own_descriptor t j")
    case True
    with ij show ?thesis by (auto simp: v_act_def split: option.splits)
  next
    case False
    then obtain c c' where cs: "on_context s (v_ctxs V ! i) = Some c" "on_context t (v_ctxs V ! j) = Some c'"
      and own: "own_descriptor s i" "own_descriptor t j" by auto
    have "logged s d @ logged t d = logged t d @ logged s d" for d
      using logged_own [OF own(1), of d] logged_own [OF own(2), of d] ij by (cases "d = int i") auto
    with ij cs own show ?thesis
      by (simp add: v_act_def list_update_swap ac_simps)
  qed
qed

lemma context_lookup:
  "getEventContext v c = (if valid_event v then Inr (the_context v c) else Inl AssertionFailed)"
  by (auto simp: getEventContext_def valid_event_def the_context_def assert_that_def)

lemma is_no_context:
  "ec_scheduler ctx = None \<and> ec_fiber ctx = None \<and> ec_cb ctx = None \<longleftrightarrow> ctx = no_context"
  by (cases ctx) (simp add: no_context_def)

text \<open>The view is faithful: a statement does on it what it does on the manager, and fails where it fails.\<close>

lemma exec_view:
  assumes "i < length (m_fdContexts m)" and "own_descriptor s i"
  shows "v_act s i (view_of m) =
    (case io_exec s i (need, m) of Inl _ \<Rightarrow> None | Inr (_, m') \<Rightarrow> Some (view_of m'))"
proof (cases s)
  case (S_push v)
  show ?thesis
  proof (cases "valid_event v")
    case True
    then show ?thesis
      using assms
      by (auto simp: S_push v_act_def view_of_def counted_def logged_def queued_def handed_over_def
          own_descriptor_def context_lookup push_to_def context_task_def context_arg_def Let_def
          split: option.splits)
  qed (simp add: S_push v_act_def view_of_def context_lookup)
next
  case S_tickle
  then show ?thesis
    using assms
    by (simp add: v_act_def view_of_def counted_def logged_def queued_def handed_over_def own_descriptor_def
        IOManager_tickle_def)
next
  case (S_arm v ec)
  then show ?thesis
    using assms
    by (auto simp: v_act_def view_of_def counted_def logged_def queued_def handed_over_def own_descriptor_def
        context_lookup is_no_context upd_ctx_def assert_that_def)
qed (use assms in \<open>auto simp: v_act_def view_of_def counted_def logged_def queued_def handed_over_def
    own_descriptor_def context_lookup upd_ctx_def assert_that_def\<close>)

lemma v_act_keeps:
  assumes "v_act s i V = Some V'"
  shows "length (v_ctxs V') = length (v_ctxs V)" and "v_self V' = v_self V" and "v_tickle V' = v_tickle V"
    and "j \<noteq> i \<Longrightarrow> v_ctxs V' ! j = v_ctxs V ! j" and "v_count V' = v_count V + counted s"
    and "own_descriptor s i"
  using assms by (auto simp: v_act_def split: option.splits if_splits)

definition total_count :: "io_stmt list \<Rightarrow> 64 word" where
  "total_count p = sum_list (map counted p)"

lemma run_on_keeps:
  "run_on v_act p i V = Some V' \<Longrightarrow>
     length (v_ctxs V') = length (v_ctxs V) \<and> v_self V' = v_self V \<and> v_tickle V' = v_tickle V \<and>
     (\<forall>j. j \<noteq> i \<longrightarrow> v_ctxs V' ! j = v_ctxs V ! j) \<and> v_count V' = v_count V + total_count p"
proof (induction p arbitrary: V)
  case (Cons s p)
  then obtain U where U: "v_act s i V = Some U" and "run_on v_act p i U = Some V'" by (auto simp: bind_eq_Some_conv)
  from Cons.IH [OF this(2)] v_act_keeps [OF U] show ?case by (simp add: total_count_def add.assoc)
qed (simp add: total_count_def)

lemma finish_keeps:
  "finish v_act ops V = Some V' \<Longrightarrow>
     length (v_ctxs V') = length (v_ctxs V) \<and> v_self V' = v_self V \<and> v_tickle V' = v_tickle V \<and>
     (\<forall>j. j \<notin> fst ` set ops \<longrightarrow> v_ctxs V' ! j = v_ctxs V ! j) \<and>
     v_count V' = v_count V + (\<Sum>(_, _, p) \<leftarrow> ops. total_count p)"
proof (induction ops arbitrary: V)
  case (Cons a ops)
  obtain i b p where a: "a = (i, b, p)" by (cases a)
  with Cons.prems obtain U where U: "run_on v_act p i V = Some U" and "finish v_act ops U = Some V'"
    by (auto simp: bind_eq_Some_conv)
  from Cons.IH [OF this(2)] run_on_keeps [OF U] show ?case by (simp add: a add.assoc)
qed simp

lemma view_fields [simp]:
  "v_ctxs (view_of m) = m_fdContexts m" "v_count (view_of m) = m_pendingEventCount m"
  "v_self (view_of m) = io_self m" "v_tickle (view_of m) = m_tickleFds m"
  by (simp_all add: view_of_def)

lemma run_view:
  assumes "i < length (m_fdContexts m)" and "\<forall>s \<in> set p. own_descriptor s i"
  shows "run_on v_act p i (view_of m) =
    (case run_code p i (need, m) of Inl _ \<Rightarrow> None | Inr (_, m') \<Rightarrow> Some (view_of m'))"
  using assms
proof (induction p arbitrary: m need)
  case (Cons s p)
  have step: "v_act s i (view_of m) =
      (case io_exec s i (need, m) of Inl _ \<Rightarrow> None | Inr (_, m') \<Rightarrow> Some (view_of m'))"
    by (rule exec_view) (use Cons.prems in simp_all)
  show ?case
  proof (cases "io_exec s i (need, m)")
    case (Inr r)
    obtain need' m' where r: "r = (need', m')" by (cases r)
    from step Inr r have "v_act s i (view_of m) = Some (view_of m')" by simp
    with v_act_keeps(1) [OF this] Cons.IH [of m' need'] Cons.prems show ?thesis by (simp add: Inr r)
  qed (use step in simp)
qed simp

lemma io_code_own: "fc_fd c = int i \<Longrightarrow> \<forall>s \<in> set (io_code call i c). own_descriptor s i"
  by (cases call) (auto simp: own_descriptor_def add_code_def del_code_def cancel_code_def cancel_all_code_def
      ready_code_def fire_code_def trigger_code_def Let_def split: sum.splits)

section \<open>Tasks that come and go\<close>

definition tasks_apart :: "io_view \<Rightarrow> io_view \<Rightarrow> bool" where
  "tasks_apart V W \<longleftrightarrow> W = V\<lparr>v_tasks := v_tasks W, v_foreign := v_foreign W\<rparr>"

lemma tasks_apart_iff:
  "tasks_apart V W \<longleftrightarrow> v_ctxs W = v_ctxs V \<and> v_count W = v_count V \<and> v_logs W = v_logs V \<and>
     v_self W = v_self V \<and> v_tickle W = v_tickle V"
  by (cases V; cases W) (auto simp: tasks_apart_def)

lemma tasks_apart_act:
  assumes "v_act s i V = Some V'" and "tasks_apart V W"
  shows "\<exists>W'. v_act s i W = Some W' \<and> tasks_apart V' W'"
  using assms by (auto simp: tasks_apart_iff v_act_def split: option.splits if_splits)

lemma tasks_apart_run:
  "run_on v_act p i V = Some V' \<Longrightarrow> tasks_apart V W \<Longrightarrow>
     \<exists>W'. run_on v_act p i W = Some W' \<and> tasks_apart V' W'"
proof (induction p arbitrary: V W)
  case (Cons s p)
  then obtain U where U: "v_act s i V = Some U" and V': "run_on v_act p i U = Some V'"
    by (auto simp: bind_eq_Some_conv)
  from tasks_apart_act [OF U Cons.prems(2)] obtain W1 where "v_act s i W = Some W1" "tasks_apart U W1" by blast
  with Cons.IH [OF V'] show ?case by auto
qed simp

lemma tasks_apart_finish:
  "finish v_act ops V = Some V' \<Longrightarrow> tasks_apart V W \<Longrightarrow>
     \<exists>W'. finish v_act ops W = Some W' \<and> tasks_apart V' W'"
proof (induction ops arbitrary: V W)
  case (Cons a ops)
  obtain i b p where a: "a = (i, b, p)" by (cases a)
  with Cons.prems obtain U where U: "run_on v_act p i V = Some U" and V': "finish v_act ops U = Some V'"
    by (auto simp: bind_eq_Some_conv)
  from tasks_apart_run [OF U Cons.prems(2)] obtain W1 where "run_on v_act p i W = Some W1" "tasks_apart U W1"
    by blast
  with Cons.IH [OF V'] show ?case by (auto simp: a)
qed simp

lemma tasks_apart_manager:
  assumes "tasks_apart (view_of n) W"
  obtains n' where "io_op n n'" and "view_of n' = W"
proof -
  obtain ts fs where t: "mset ts = v_tasks W" "mset fs = v_foreign W" by (metis ex_mset)
  let ?n = "n\<lparr>m_tasks := ts, io_foreign := fs\<rparr>"
  have "view_of ?n = W" using assms t by (cases W) (auto simp: tasks_apart_iff view_of_def)
  moreover have "io_op n ?n" by (rule io_op.other) simp_all
  ultimately show thesis using that by blast
qed

end
