(* ===== verification/IOManager_Atomicity.thy ===== *)
theory IOManager_Atomicity
  imports IOManager_Interleaving
begin

text \<open>
  The interleaved runs refine the atomic ones: letting the functions under way run to their end gives
  a manager the atomic operations reach, a function takes its effect when it locks its context, and
  no statement fails. The count of pending events is then what the statements still owed say; which
  is where \<open>cancelEvent\<close> differs from the other functions.
\<close>

section \<open>What the functions under way still owe\<close>

definition completed :: "fine \<Rightarrow> io_view option" where
  "completed x = finish v_act (f_ops x) (view_of (f_mgr x))"

definition ups :: "io_stmt list \<Rightarrow> nat" where
  "ups p = length (filter (\<lambda>s. s = S_count_up) p)"

definition downs :: "io_stmt list \<Rightarrow> nat" where
  "downs p = length (filter (\<lambda>s. s = S_count_down) p)"

definition is_push :: "io_stmt \<Rightarrow> bool" where
  "is_push s \<longleftrightarrow> (case s of S_push _ \<Rightarrow> True | _ \<Rightarrow> False)"

text \<open>Every task still to be queued has its decrement after it.\<close>

fun paid :: "io_stmt list \<Rightarrow> bool" where
  "paid [] = True"
| "paid (s # p) = ((is_push s \<longrightarrow> 0 < downs p) \<and> paid p)"

lemma owed_Cons [simp]:
  "ups [] = 0" "downs [] = 0"
  "ups (s # p) = (if s = S_count_up then 1 else 0) + ups p"
  "downs (s # p) = (if s = S_count_down then 1 else 0) + downs p"
  by (simp_all add: ups_def downs_def)

lemma owed_append: "ups (p @ q) = ups p + ups q" "downs (p @ q) = downs p + downs q"
  by (simp_all add: ups_def downs_def)

lemma paid_append: "paid p \<Longrightarrow> paid q \<Longrightarrow> paid (p @ q)"
  by (induction p) (auto simp: owed_append)

lemma paid_push: "paid p \<Longrightarrow> s \<in> set p \<Longrightarrow> is_push s \<Longrightarrow> 0 < downs p"
  by (induction p) auto

lemma total_count_owed: "total_count p = of_nat (ups p) - of_nat (downs p)"
proof (induction p)
  case (Cons s p)
  then show ?case by (cases s) (simp_all add: total_count_def counted_def)
qed (simp add: total_count_def)

lemma fire_code_owed:
  "ups (fire_code real v) = 0" "downs (fire_code real v) \<le> 1" "paid (fire_code real v)"
  by (simp_all add: fire_code_def trigger_code_def is_push_def)

lemma io_code_owed:
  shows "downs (io_code call i c) \<le> 2"
    and "\<not> is_cancel call \<Longrightarrow> paid (io_code call i c)"
    and "ups (io_code call i c) \<le> (case call of AddCall _ _ _ _ _ _ \<Rightarrow> 1 | _ \<Rightarrow> 0)"
proof -
  note f = fire_code_owed [of "fc_events c" READ_event] fire_code_owed [of "fc_events c" WRITE_event]
  note r = fire_code_owed [of _ READ_event] fire_code_owed [of _ WRITE_event]
  note codes = add_code_def del_code_def cancel_code_def cancel_all_code_def ready_code_def
    trigger_code_def owed_append is_cancel_def is_push_def Let_def
  have two: "downs (fire_code real READ_event) + downs (fire_code real WRITE_event) \<le> 2" for real
    using fire_code_owed(2) [of real READ_event] fire_code_owed(2) [of real WRITE_event] by simp
  show "downs (io_code call i c) \<le> 2"
    using two by (cases call) (auto simp: codes split: sum.splits)
  show "paid (io_code call i c)" if "\<not> is_cancel call"
    using that by (cases call) (auto simp: codes fire_code_owed intro!: paid_append split: sum.splits)
  show "ups (io_code call i c) \<le> (case call of AddCall _ _ _ _ _ _ \<Rightarrow> 1 | _ \<Rightarrow> 0)"
    by (cases call) (auto simp: codes fire_code_owed split: sum.splits)
qed

text \<open>An event that \<open>addEvent\<close> is yet to count is registered once it has run.\<close>

lemma add_registers:
  assumes "io_inv m" and "usable (int i) m" and "io_enabled call (m_fdContexts m ! i)"
    and "io_atomic call i m = Inr m'"
  shows "ups (io_code call i (m_fdContexts m ! i)) \<le> n_events (fc_events (m_fdContexts m' ! i))"
proof (cases call)
  case (AddCall junk th s v cb W)
  have i: "i < length (m_fdContexts m)" using assms(2) by (simp add: usable_def)
  have v: "valid_event v" using assms(3) by (simp add: AddCall)
  obtain ec W' where "addEvent 0 junk th (Some s) (int i) v cb m W = Inr (0, after_add i v ec m, W')"
    by (rule run_add [OF assms(1,2) assms(3)[unfolded AddCall]])
  with assms(4) have m': "m' = after_add i v ec m" by (simp add: AddCall)
  have "valid_mask (fc_events (m_fdContexts m ! i))" using inv_ctx [OF assms(1) i] by (simp add: ctx_ok_def)
  from mask_ops(5) [OF this v] have "1 \<le> n_events (fc_events (m_fdContexts m' ! i))"
    using i v by (auto simp: m' after_add_def valid_event_def)
  with io_code_owed(3) [of call i "m_fdContexts m ! i"] show ?thesis by (simp add: AddCall)
qed (use io_code_owed(3) [of call i "m_fdContexts m ! i"] in simp_all)

section \<open>The simulation\<close>

definition op_ok :: "bool \<Rightarrow> iomanager \<Rightarrow> nat \<times> bool \<times> io_stmt list \<Rightarrow> bool" where
  "op_ok cancels n = (\<lambda>(i, _, p). i < length (m_fdContexts n) \<and>
     ups p \<le> n_events (fc_events (m_fdContexts n ! i)) \<and> downs p \<le> 2 \<and> (cancels \<or> paid p))"

text \<open>The fine state \<open>x\<close> stands for the manager \<open>n\<close>.\<close>

definition stands_for :: "bool \<Rightarrow> fine \<Rightarrow> iomanager \<Rightarrow> bool" where
  "stands_for cancels x n \<longleftrightarrow> io_inv n \<and> completed x = Some (view_of n) \<and>
     distinct (map fst (f_ops x)) \<and> (\<forall>a \<in> set (f_ops x). op_ok cancels n a)"

lemma stands_forD:
  assumes "stands_for cancels x n"
  shows "io_inv n" and "completed x = Some (view_of n)" and "distinct (map fst (f_ops x))"
    and "a \<in> set (f_ops x) \<Longrightarrow> op_ok cancels n a"
    and "length (m_fdContexts n) = length (m_fdContexts (f_mgr x))"
    and "i \<notin> fst ` set (f_ops x) \<Longrightarrow> m_fdContexts n ! i = m_fdContexts (f_mgr x) ! i"
    and "usable fd n = usable fd (f_mgr x)"
  using assms finish_keeps [of "f_ops x" "view_of (f_mgr x)" "view_of n"]
  by (auto simp: stands_for_def completed_def usable_def)

text \<open>Locking a context is the whole operation.\<close>

lemma lock_stands:
  assumes st: "stands_for cancels x n" and ml: "may_lock cancels call i x"
  shows "\<exists>n'. io_atomic call i n = Inr n' \<and> io_op n n' \<and> stands_for cancels (locked_by call i x) n'"
proof -
  note D = stands_forD [OF st]
  let ?c = "m_fdContexts (f_mgr x) ! i" let ?p = "io_code call i ?c"
  have free: "i \<notin> fst ` set (f_ops x)" and u: "usable (int i) n" and "io_enabled call ?c"
    and can: "is_cancel call \<longrightarrow> cancels"
    using ml D(7) by (simp_all add: may_lock_def)
  have c: "m_fdContexts n ! i = ?c" by (rule D(6) [OF free])
  have en: "io_enabled call (m_fdContexts n ! i)" using \<open>io_enabled call ?c\<close> by (simp add: c)
  have i: "i < length (m_fdContexts n)" using u by (simp add: usable_def)
  from call_spec [OF D(1) u en] obtain n' where a: "io_atomic call i n = Inr n'" and op: "io_op n n'"
    and run: "run_code ?p i (False, n) = Inr (False, n')" by (auto simp: c)
  have "run_on v_act ?p i (view_of n) = Some (view_of n')"
    using run_view [OF i, of ?p False] io_code_own [of ?c i call] run inv_fd [OF D(1) i] by (simp add: c)
  then have comp: "completed (locked_by call i x) = Some (view_of n')"
    using D(2) by (simp add: completed_def locked_by_def finish_append finish_Nil)
  from run_on_keeps [OF \<open>run_on v_act ?p i (view_of n) = Some (view_of n')\<close>]
  have len: "length (m_fdContexts n') = length (m_fdContexts n)"
    and others: "\<And>j. j \<noteq> i \<Longrightarrow> m_fdContexts n' ! j = m_fdContexts n ! j" by simp_all
  have new: "op_ok cancels n' (i, False, ?p)"
    using io_code_owed(1,2) [of call] can add_registers [OF D(1) u en a] i by (auto simp: op_ok_def len c)
  have "op_ok cancels n' a" if "a \<in> set (f_ops x)" for a
  proof -
    obtain j b q where "a = (j, b, q)" by (cases a)
    with that free have "j \<noteq> i" by force
    with D(4) [OF that] others show ?thesis by (simp add: \<open>a = _\<close> op_ok_def len)
  qed
  with new comp free D(3) io_op_inv [OF op D(1)] have "stands_for cancels (locked_by call i x) n'"
    by (auto simp: stands_for_def locked_by_def)
  with a op show ?thesis by blast
qed

text \<open>A statement of a function under way can be executed, and is part of what has been accounted for.\<close>

lemma stmt_stands:
  assumes st: "stands_for cancels x n" and ops: "f_ops x = before @ (i, need, s # p) # after"
  shows "\<exists>need' m'. io_exec s i (need, f_mgr x) = Inr (need', m') \<and>
    stands_for cancels (x\<lparr>f_mgr := m', f_ops := before @ (i, need', p) # after\<rparr>) n"
proof -
  note D = stands_forD [OF st]
  have free: "i \<notin> fst ` set before" using D(3) by (auto simp: ops image_iff)
  have ok: "op_ok cancels n (i, need, s # p)" by (rule D(4)) (simp add: ops)
  then have i: "i < length (m_fdContexts (f_mgr x))" using D(5) by (simp add: op_ok_def)
  have "Option.bind (v_act s i (view_of (f_mgr x))) (finish v_act (before @ (i, need, p) # after)) =
      Some (view_of n)"
    using D(2) views.step_finish [OF free, of need s p after "view_of (f_mgr x)" need]
    by (simp add: completed_def ops)
  then obtain U where U: "v_act s i (view_of (f_mgr x)) = Some U" by (auto simp: bind_eq_Some_conv)
  from exec_view [OF i v_act_keeps(6) [OF U], of need] U
  obtain need' m' where ex: "io_exec s i (need, f_mgr x) = Inr (need', m')" and m': "U = view_of m'"
    by (auto split: sum.splits prod.splits)
  let ?y = "x\<lparr>f_mgr := m', f_ops := before @ (i, need', p) # after\<rparr>"
  have "completed ?y = completed x"
    using views.step_finish [OF free, of need s p after "view_of (f_mgr x)" need'] U m'
    by (simp add: completed_def ops)
  moreover have "op_ok cancels n a" if "a \<in> set (f_ops ?y)" for a
    using that D(4) [of a] ok by (auto simp: ops op_ok_def)
  ultimately have "stands_for cancels ?y n" using D by (simp add: stands_for_def ops)
  with ex show ?thesis by blast
qed

lemma unlock_stands:
  assumes st: "stands_for cancels x n" and ops: "f_ops x = before @ (i, need, []) # after"
  shows "stands_for cancels (x\<lparr>f_ops := before @ after\<rparr>) n"
proof -
  note D = stands_forD [OF st]
  have "completed (x\<lparr>f_ops := before @ after\<rparr>) = completed x"
    by (simp add: completed_def ops finish_append finish_Cons run_on_Nil)
  with D show ?thesis by (auto simp: stands_for_def ops)
qed

lemma other_stands:
  assumes st: "stands_for cancels x n"
    and m': "m_fdContexts m' = m_fdContexts (f_mgr x)" "ctl_log m' = ctl_log (f_mgr x)"
      "m_pendingEventCount m' = m_pendingEventCount (f_mgr x)" "m_tickleFds m' = m_tickleFds (f_mgr x)"
      "io_self m' = io_self (f_mgr x)"
  shows "\<exists>n'. io_op n n' \<and> stands_for cancels (x\<lparr>f_mgr := m'\<rparr>) n'"
proof -
  note D = stands_forD [OF st]
  have "tasks_apart (view_of (f_mgr x)) (view_of m')"
    using m' by (simp add: tasks_apart_iff) (simp add: view_of_def)
  with tasks_apart_finish [OF D(2)[unfolded completed_def]]
  obtain W where W: "finish v_act (f_ops x) (view_of m') = Some W" and "tasks_apart (view_of n) W" by blast
  then obtain n' where op: "io_op n n'" and n': "view_of n' = W" by (rule_tac tasks_apart_manager)
  with \<open>tasks_apart (view_of n) W\<close> have "m_fdContexts n' = m_fdContexts n"
    by (auto simp: tasks_apart_iff)
  then have "stands_for cancels (x\<lparr>f_mgr := m'\<rparr>) n'"
    using D(3,4) W n' io_op_inv [OF op D(1)] by (auto simp: stands_for_def completed_def op_ok_def)
  with op show ?thesis by blast
qed

lemma step_stands:
  assumes "fine_step cancels x y" and "stands_for cancels x n"
  shows "\<exists>n'. (n' = n \<or> io_op n n') \<and> stands_for cancels y n'"
  using assms
proof (cases rule: fine_step.cases)
  case (lock call i)
  with lock_stands [OF assms(2)] show ?thesis by blast
next
  case (stmt before i need s p after need' m')
  with stmt_stands [OF assms(2)] show ?thesis by fastforce
next
  case (unlock before i need after)
  with unlock_stands [OF assms(2)] show ?thesis by blast
next
  case (other m')
  with other_stands [OF assms(2)] show ?thesis by blast
qed

lemma reach_stands:
  assumes "fine_reach cancels m x" and "io_inv m"
  shows "\<exists>n. io_op\<^sup>*\<^sup>* m n \<and> stands_for cancels x n"
  using assms
proof (induction rule: fine_reach.induct)
  case start
  then have "stands_for cancels \<lparr>f_mgr = m, f_ops = []\<rparr> m" by (simp add: stands_for_def completed_def)
  then show ?case by blast
next
  case (step x y)
  then obtain n where n: "io_op\<^sup>*\<^sup>* m n" "stands_for cancels x n" by blast
  from step_stands [OF step(2) n(2)] n(1) show ?case by (auto intro: rtranclp.rtrancl_into_rtrancl)
qed

section \<open>The invariant on the view\<close>

definition of_descriptor :: "int \<Rightarrow> (ctl_op \<times> int \<times> 32 word) list \<Rightarrow> (ctl_op \<times> int \<times> 32 word) list" where
  "of_descriptor fd = filter (\<lambda>(_, d, _). d = fd)"

text \<open>The effect of one call, for the three operations alike.\<close>

definition ctl_entry :: "ctl_op \<Rightarrow> 32 word \<Rightarrow> 32 word option" where
  "ctl_entry op ev = (if op = CTL_DEL then None else Some ev)"

lemma log_Cons:
  "kernel_after ((op, d, ev) # cs) k = kernel_after cs (k(d := ctl_entry op ev))"
  "ctl_accepted ((op, d, ev) # cs) k \<longleftrightarrow>
     (op = CTL_ADD \<longleftrightarrow> k d = None) \<and> ctl_accepted cs (k(d := ctl_entry op ev))"
  by (cases op; simp add: fun_upd_def ctl_entry_def)+

lemma of_descriptor_Cons:
  "of_descriptor fd [] = []"
  "of_descriptor fd ((op, d, ev) # cs) = (if d = fd then (op, d, ev) # of_descriptor fd cs else of_descriptor fd cs)"
  by (simp_all add: of_descriptor_def)

lemma kernel_after_cong: "k fd = k' fd \<Longrightarrow> kernel_after cs k fd = kernel_after (of_descriptor fd cs) k' fd"
proof (induction cs arbitrary: k k')
  case (Cons c cs)
  obtain op d ev where c: "c = (op, d, ev)" by (cases c)
  let ?z = "ctl_entry op ev"
  from Cons.IH [of "k(d := ?z)" "k'(d := ?z)"] Cons.IH [of "k(d := ?z)" k'] Cons.prems show ?case
    by (cases "d = fd") (simp_all only: c of_descriptor_Cons log_Cons(1) fun_upd_same fun_upd_other if_True if_False simp_thms)
qed (simp add: of_descriptor_Cons)

lemma accepted_cong:
  "k fd = k' fd \<Longrightarrow> ctl_accepted (of_descriptor fd cs) k = ctl_accepted (of_descriptor fd cs) k'"
proof (induction cs arbitrary: k k')
  case (Cons c cs)
  obtain op d ev where c: "c = (op, d, ev)" by (cases c)
  let ?z = "ctl_entry op ev"
  from Cons.IH [of "k(d := ?z)" "k'(d := ?z)"] Cons.IH [of k k'] Cons.prems show ?case
    by (cases "d = fd") (simp_all only: c of_descriptor_Cons log_Cons(2) fun_upd_same if_True if_False simp_thms)
qed (simp add: of_descriptor_Cons)

lemma accepted_by_descriptor: "ctl_accepted cs k \<longleftrightarrow> (\<forall>fd. ctl_accepted (of_descriptor fd cs) k)"
proof (induction cs arbitrary: k)
  case (Cons c cs)
  obtain op d ev where c: "c = (op, d, ev)" by (cases c)
  let ?k' = "k(d := ctl_entry op ev)"
  have "ctl_accepted (of_descriptor fd cs) ?k' = ctl_accepted (of_descriptor fd cs) k" if "fd \<noteq> d" for fd
    by (rule accepted_cong) (use that in simp)
  then have split: "ctl_accepted (of_descriptor fd (c # cs)) k \<longleftrightarrow>
      (fd = d \<longrightarrow> (op = CTL_ADD \<longleftrightarrow> k d = None)) \<and> ctl_accepted (of_descriptor fd cs) ?k'" for fd
    by (cases "fd = d") (simp_all add: c of_descriptor_Cons log_Cons(2))
  have "ctl_accepted (c # cs) k \<longleftrightarrow>
      (op = CTL_ADD \<longleftrightarrow> k d = None) \<and> (\<forall>fd. ctl_accepted (of_descriptor fd cs) ?k')"
    unfolding c log_Cons(2) by (subst Cons.IH) (rule refl)
  also have "\<dots> \<longleftrightarrow> (\<forall>fd. ctl_accepted (of_descriptor fd (c # cs)) k)"
    unfolding split by iprover
  finally show ?case .
qed (simp add: of_descriptor_Cons)

lemma accepted_prefix: "ctl_accepted (cs @ ds) k \<Longrightarrow> ctl_accepted cs k"
proof (induction cs arbitrary: k)
  case (Cons c cs)
  obtain op d ev where c: "c = (op, d, ev)" by (cases c)
  from Cons.IH [of "k(d := ctl_entry op ev)"] Cons.prems show ?case
    by (simp only: c log_Cons(2) append_Cons simp_thms)
qed simp

lemma view_logs: "v_logs (view_of m) fd = of_descriptor fd (ctl_log m)"
  by (simp add: view_of_def of_descriptor_def)

lemma io_inv_view:
  assumes "io_inv n" and "view_of m = view_of n"
  shows "io_inv m"
proof -
  have eq: "m_fdContexts m = m_fdContexts n" "m_pendingEventCount m = m_pendingEventCount n"
    "m_tickleFds m = m_tickleFds n" using assms(2) by (metis view_fields)+
  have logs: "of_descriptor fd (ctl_log m) = of_descriptor fd (ctl_log n)" for fd
    using assms(2) by (metis view_logs)
  have "interest m fd = interest n fd" for fd
    unfolding interest_def by (metis kernel_after_cong logs)
  then have "interest m = interest n" by blast
  moreover have "ctl_accepted (ctl_log m) (\<lambda>_. None) = ctl_accepted (ctl_log n) (\<lambda>_. None)"
    using logs accepted_by_descriptor by metis
  ultimately show ?thesis using assms(1) eq by (simp add: io_inv_def registered_def)
qed

lemma logs_grow:
  "finish v_act ops V = Some V' \<Longrightarrow> \<exists>l. v_logs V' fd = v_logs V fd @ l"
proof (induction ops arbitrary: V)
  case (Cons a ops)
  obtain i b p where a: "a = (i, b, p)" by (cases a)
  have run: "\<exists>l. v_logs U' fd = v_logs U fd @ l" if "run_on v_act p i U = Some U'" for U U'
    using that
  proof (induction p arbitrary: U)
    case (Cons s p)
    then obtain X where X: "v_act s i U = Some X" and "run_on v_act p i X = Some U'" by (auto simp: bind_eq_Some_conv)
    from Cons.IH [OF this(2)] X show ?case by (auto simp: v_act_def split: option.splits if_splits)
  qed simp
  from Cons.prems obtain U where "run_on v_act p i V = Some U" "finish v_act ops U = Some V'"
    by (auto simp: a bind_eq_Some_conv)
  from run [OF this(1)] Cons.IH [OF this(2)] show ?case by auto
qed simp

lemma log_accepted:
  assumes "stands_for cancels x n"
  shows "ctl_accepted (ctl_log (f_mgr x)) (\<lambda>_. None)"
proof -
  have "ctl_accepted (of_descriptor fd (ctl_log (f_mgr x))) (\<lambda>_. None)" for fd
  proof -
    from logs_grow [OF stands_forD(2) [OF assms, unfolded completed_def], of fd]
    obtain l where "of_descriptor fd (ctl_log n) = of_descriptor fd (ctl_log (f_mgr x)) @ l"
      by (auto simp: view_logs)
    moreover have "ctl_accepted (of_descriptor fd (ctl_log n)) (\<lambda>_. None)"
      using inv_log [OF stands_forD(1) [OF assms]] accepted_by_descriptor by blast
    ultimately show ?thesis by (metis accepted_prefix)
  qed
  then show ?thesis using accepted_by_descriptor by blast
qed

section \<open>The properties\<close>

text \<open>
  Two functions at once: the event loop of \<open>idle\<close> has READ of descriptor 7 to deliver, while another
  thread registers WRITE on descriptor 8.
\<close>

definition fine0 :: fine where
  "fine0 = locked_by (AddCall False 0 1 WRITE_event (Some (UserFn 8)) init_world) 8
     (locked_by (ReadyCall EPOLLIN) 7 \<lparr>f_mgr = io1, f_ops = []\<rparr>)"

lemma fine0_reach: "fine_reach False io1 fine0"
  unfolding fine0_def
proof (rule fine_reach.step [OF fine_reach.step [OF fine_reach.start]]; rule fine_step.lock)
  show "may_lock False (ReadyCall EPOLLIN) 7 \<lparr>f_mgr = io1, f_ops = []\<rparr>"
    by (simp add: may_lock_def usable_def kernel_reports_def real_events_def is_cancel_def)
  show "may_lock False (AddCall False 0 1 WRITE_event (Some (UserFn 8)) init_world) 8
      (locked_by (ReadyCall EPOLLIN) 7 \<lparr>f_mgr = io1, f_ops = []\<rparr>)"
    by (simp add: may_lock_def locked_by_def usable_def is_cancel_def event_target_def valid_event_def
        io1_def after_add_def new_fd_context_def)
qed

lemma fine0_ops:
  "f_mgr fine0 = io1"
  "\<exists>s p q. f_ops fine0 = [(7, False, s # p), (8, False, q)]"
  by (simp_all add: fine0_def locked_by_def ready_code_def Let_def)

text \<open>
  C25. The operations of the manager are atomic as far as its contexts, the count of pending events,
  the kernel's interest list and the tasks are concerned. Take any interleaving of the statements of
  any number of \<open>addEvent\<close>, \<open>delEvent\<close>, \<open>cancelEvent\<close>, \<open>cancelAll\<close> and event loops of \<open>idle\<close>, each
  under the mutex of its context, started as in C26. Letting those under way run to their end gives the view of a manager
  \<open>n\<close> that the atomic operations reach; a function that locks its context makes that \<open>n\<close> the result of
  the whole operation at this moment; statements and unlocking do not change it.
\<close>

theorem interleaved_operations_are_atomic:
  assumes "io_reach m" and "fine_reach cancels m x"
  shows "\<exists>n. io_op\<^sup>*\<^sup>* m n \<and> completed x = Some (view_of n) \<and>
    (\<forall>call i. may_lock cancels call i x \<longrightarrow>
       (\<exists>n'. io_atomic call i n = Inr n' \<and> io_op n n' \<and> completed (locked_by call i x) = Some (view_of n'))) \<and>
    (\<forall>before i need s p after need' m'. f_ops x = before @ (i, need, s # p) # after \<longrightarrow>
       io_exec s i (need, f_mgr x) = Inr (need', m') \<longrightarrow>
       completed (x\<lparr>f_mgr := m', f_ops := before @ (i, need', p) # after\<rparr>) = Some (view_of n))"
proof -
  from reach_stands [OF assms(2) io_reach_inv [OF assms(1)]]
  obtain n where n: "io_op\<^sup>*\<^sup>* m n" and st: "stands_for cancels x n" by blast
  have "\<exists>n'. io_atomic call i n = Inr n' \<and> io_op n n' \<and> completed (locked_by call i x) = Some (view_of n')"
    if "may_lock cancels call i x" for call i
    using lock_stands [OF st that] by (auto dest: stands_forD(2))
  moreover have "completed (x\<lparr>f_mgr := m', f_ops := before @ (i, need', p) # after\<rparr>) = Some (view_of n)"
    if "f_ops x = before @ (i, need, s # p) # after" and "io_exec s i (need, f_mgr x) = Inr (need', m')"
    for before i need s p after need' m'
    using stmt_stands [OF st that(1)] that(2) by (auto dest: stands_forD(2))
  ultimately show ?thesis using n stands_forD(2) [OF st] by blast
qed

lemma interleaved_operations_are_atomic_witness:
  "\<exists>n. io_op\<^sup>*\<^sup>* io1 n \<and> completed fine0 = Some (view_of n)"
  using interleaved_operations_are_atomic [OF io1_reach fine0_reach] by blast

text \<open>
  C26. However the statements interleave, none of them fails, provided that removals are of registered
  events, that a report is current when its context is locked (it has only events still registered there),
  and that events are registered by threads with a scheduler on descriptors of the table: no assertion of
  \<open>addEvent\<close>, \<open>triggerEvent\<close> or \<open>cancelAll\<close> fails, no scheduler is null; and the kernel has no reason to
  refuse any of the calls of \<open>epoll_ctl\<close> made. Without the provisos statements do fail: C37, C39 and
  \<open>stale_report_aborts\<close>. Whenever no function is under way, the count of pending events is the
  number of registered ones and the interest list is what the contexts say.
\<close>

theorem interleaved_statements_safe:
  assumes "io_reach m" and "fine_reach cancels m x"
  shows "(\<forall>before i need s p after. f_ops x = before @ (i, need, s # p) # after \<longrightarrow>
            (\<exists>need' m'. io_exec s i (need, f_mgr x) = Inr (need', m'))) \<and>
         ctl_accepted (ctl_log (f_mgr x)) (\<lambda>_. None) \<and>
         (f_ops x = [] \<longrightarrow> unat (m_pendingEventCount (f_mgr x)) = registered (f_mgr x) \<and>
            (\<forall>fd. usable fd (f_mgr x) \<longrightarrow>
               interest (f_mgr x) fd = expected_interest (m_fdContexts (f_mgr x) ! nat fd)))"
proof -
  from reach_stands [OF assms(2) io_reach_inv [OF assms(1)]]
  obtain n where st: "stands_for cancels x n" by blast
  have "\<exists>need' m'. io_exec s i (need, f_mgr x) = Inr (need', m')"
    if "f_ops x = before @ (i, need, s # p) # after" for before i need s p after
    using stmt_stands [OF st that] by blast
  moreover have "unat (m_pendingEventCount (f_mgr x)) = registered (f_mgr x) \<and>
      (\<forall>fd. usable fd (f_mgr x) \<longrightarrow>
         interest (f_mgr x) fd = expected_interest (m_fdContexts (f_mgr x) ! nat fd))"
    if "f_ops x = []"
  proof -
    have inv: "io_inv (f_mgr x)"
      using io_inv_view [OF stands_forD(1) [OF st]] stands_forD(2) [OF st] that by (simp add: completed_def)
    have "registered (f_mgr x) < 2 ^ 64" using registered_bound [of "f_mgr x"] inv_len [OF inv] by simp
    then have "unat (m_pendingEventCount (f_mgr x)) = registered (f_mgr x)"
      using inv_pending [OF inv] by (simp add: unat_of_nat)
    moreover have "interest (f_mgr x) fd = expected_interest (m_fdContexts (f_mgr x) ! nat fd)"
      if "usable fd (f_mgr x)" for fd
      using inv_interest [OF inv, of "nat fd"] that by (simp add: usable_def nat_less_iff)
    ultimately show ?thesis by blast
  qed
  ultimately show ?thesis using log_accepted [OF st] by blast
qed

lemma interleaved_statements_safe_witness:
  "\<exists>i s p q. f_ops fine0 = (i, False, s # p) # q \<and> (\<exists>y. io_exec s i (False, io1) = Inr y)"
proof -
  obtain s p q where "f_ops fine0 = [] @ (7, False, s # p) # [(8, False, q)]" using fine0_ops(2) by auto
  with interleaved_statements_safe [OF io1_reach fine0_reach] show ?thesis
    unfolding fine0_ops(1) by (metis append_Nil)
qed

end
