(* ===== verification/IOManager_Cancel.thy ===== *)
theory IOManager_Cancel
  imports IOManager_Atomicity
begin

text \<open>
  What the count of pending events promises while functions are under way. A worker leaves only if
  the second of the three reads of \<open>stopping\<close> finds the count zero, so the count must not reach zero before
  the tasks of the events it counts are in the queue. The event loop of \<open>idle\<close> and \<open>cancelAll\<close> count down after they have queued the task;
  \<open>cancelEvent\<close> counts down before.
\<close>

section \<open>The count while functions are under way\<close>









section \<open>The properties\<close>


text \<open>
  \<open>stop\<close> has been called on a manager without events; a thread is about to register one.
\<close>

definition io0s :: iomanager where
  "io0s = io0\<lparr>m_stopping := True\<rparr>"

definition io1s :: iomanager where
  "io1s = io1\<lparr>m_stopping := True\<rparr>"

lemma io0_idle [simp]: "m_activeThreadCount io0 = 0"
  by (simp add: io0_def IOManager_construct_def start_def new_scheduler_def scheduler.extend_def
      contextResize_def Let_def)

lemma stopping_reach: "io_reach io0s" "io_reach io1s"
  by (simp_all add: io0s_def io1s_def io_reach.op [OF io0_reach io_op.other] io_reach.op [OF io1_reach io_op.other])


lemma alone_step:
  assumes "fine_reach cancels m \<lparr>f_mgr = m1, f_ops = [(i, need, s # p)]\<rparr>"
    and "io_exec s i (need, m1) = Inr (need', m2)"
  shows "fine_step cancels \<lparr>f_mgr = m1, f_ops = [(i, need, s # p)]\<rparr> \<lparr>f_mgr = m2, f_ops = [(i, need', p)]\<rparr>"
  using fine_step.stmt [of "\<lparr>f_mgr = m1, f_ops = [(i, need, s # p)]\<rparr>" "[]" i need s p "[]" need' m2] assms(2)
  by simp

text \<open>\<open>cancelEvent\<close> alone at work: it has counted down, and then it queues the task.\<close>

lemma cancel_counted:
  assumes "usable (int i) m" and "io_enabled (CancelCall v) (m_fdContexts m ! i)"
  obtains op ev where "fine_reach True m \<lparr>f_mgr = m\<lparr>ctl_log := ctl_log m @ [(op, int i, ev)],
      m_pendingEventCount := m_pendingEventCount m - 1\<rparr>, f_ops = [(i, False, trigger_code v)]\<rparr>"
proof -
  obtain op ev where code: "cancel_code (int i) v (m_fdContexts m ! i) =
      [S_ctl op (int i) ev, S_count_down] @ trigger_code v"
    by (auto simp: cancel_code_def Let_def)
  have "may_lock True (CancelCall v) i \<lparr>f_mgr = m, f_ops = []\<rparr>" using assms by (simp add: may_lock_def)
  from fine_reach.step [OF fine_reach.start fine_step.lock [OF this]]
  have r0: "fine_reach True m \<lparr>f_mgr = m, f_ops = [(i, False, [S_ctl op (int i) ev, S_count_down] @ trigger_code v)]\<rparr>"
    by (simp add: locked_by_def code)
  have r1: "fine_reach True m \<lparr>f_mgr = m\<lparr>ctl_log := ctl_log m @ [(op, int i, ev)]\<rparr>,
      f_ops = [(i, False, S_count_down # trigger_code v)]\<rparr>"
    by (rule fine_reach.step [OF r0]) (use r0 in \<open>auto intro: alone_step\<close>)
  show thesis
    by (rule that, rule fine_reach.step [OF r1 alone_step [OF r1]]) simp
qed

lemma trigger_queues:
  fixes m2 i v
  defines "x \<equiv> \<lparr>f_mgr = m2, f_ops = [(i, False, trigger_code v)]\<rparr>"
  assumes reach: "fine_reach cancels m x" and i: "i < length (m_fdContexts m2)" and v: "valid_event v"
    and on: "fc_events (m_fdContexts m2 ! i) AND v \<noteq> 0" and arm: "armed (the_context v (m_fdContexts m2 ! i))"
    and self: "ec_scheduler (the_context v (m_fdContexts m2 ! i)) = Some (io_self m2)"
  shows "\<exists>y. (fine_step cancels)\<^sup>*\<^sup>* x y \<and>
    m_tasks (f_mgr y) = m_tasks m2 @ [context_task (the_context v (m_fdContexts m2 ! i))]"
proof -
  let ?ec = "the_context v (m_fdContexts m2 ! i)"
  let ?m3 = "upd_ctx i (\<lambda>c. c\<lparr>fc_events := fc_events c AND NOT v\<rparr>) m2"
  let ?m4 = "?m3\<lparr>m_tasks := m_tasks m2 @ [context_task ?ec]\<rparr>"
  let ?at = "\<lambda>m' need p. \<lparr>f_mgr = m', f_ops = [(i, need, p)]\<rparr>"
  have s3: "fine_step cancels x (?at m2 False [S_clear_events v, S_push v, S_tickle, S_reset v])"
    using alone_step [OF reach[unfolded x_def trigger_code_def]] on by (simp add: x_def trigger_code_def)
  note r3 = fine_reach.step [OF reach s3]
  have s4: "fine_step cancels (?at m2 False [S_clear_events v, S_push v, S_tickle, S_reset v])
      (?at ?m3 False [S_push v, S_tickle, S_reset v])"
    by (rule alone_step [OF r3]) simp
  note r4 = fine_reach.step [OF r3 s4]
  have "the_context v (m_fdContexts ?m3 ! i) = ?ec"
    using i by (simp add: upd_ctx_def the_context_def)
  then have "io_exec (S_push v) i (False, ?m3) = Inr (m_tasks m2 = [], ?m4)"
    using self v armed_work [OF arm]
    by (simp add: context_lookup push_to_def context_task_def context_arg_def Let_def upd_ctx_def)
  from alone_step [OF r4 this] s3 s4
  have "(fine_step cancels)\<^sup>*\<^sup>* x (?at ?m4 (m_tasks m2 = []) [S_tickle, S_reset v])"
    by (meson converse_rtranclp_into_rtranclp rtranclp.rtrancl_refl)
  moreover have "m_tasks (f_mgr (?at ?m4 (m_tasks m2 = []) [S_tickle, S_reset v])) =
      m_tasks m2 @ [context_task ?ec]" by simp
  ultimately show ?thesis by blast
qed

text \<open>
  C38. \<open>cancelEvent\<close> is the exception: it counts the event down before it queues its task. Between the
  two, if the event was the last one pending and the scheduler is otherwise done, every worker whose
  three reads fall in between finds \<open>stopping()\<close> true, and the task then arrives in a queue nobody serves.
\<close>

theorem cancelEvent_counts_early:
  assumes "io_reach m" and u: "usable (int i) m" and en: "io_enabled (CancelCall v) (m_fdContexts m ! i)"
    and self: "ec_scheduler (the_context v (m_fdContexts m ! i)) = Some (io_self m)"
    and one: "registered m = 1" and timers: "fst (io_getNextTimer m) = no_timeout"
    and sched: "fst (Scheduler_stopping m)"
  shows "\<exists>x y. fine_reach True m x \<and> fst (IOManager_stopping (f_mgr x)) \<and>
    (fine_step True)\<^sup>*\<^sup>* x y \<and> m_tasks (f_mgr y) = [context_task (the_context v (m_fdContexts m ! i))]"
proof -
  have inv: "io_inv m" by (rule io_reach_inv [OF assms(1)])
  have i: "i < length (m_fdContexts m)" using u by (simp add: usable_def)
  have v: "valid_event v" and on: "fc_events (m_fdContexts m ! i) AND v \<noteq> 0" using en by simp_all
  have arm: "armed (the_context v (m_fdContexts m ! i))" by (rule context_armed [OF inv_ctx [OF inv i] v on])
  have none: "m_tasks m = []" using sched by (simp add: Scheduler_stopping_def)
  obtain op ev where r: "fine_reach True m \<lparr>f_mgr = m\<lparr>ctl_log := ctl_log m @ [(op, int i, ev)],
      m_pendingEventCount := m_pendingEventCount m - 1\<rparr>, f_ops = [(i, False, trigger_code v)]\<rparr>" (is "fine_reach _ _ ?x")
    by (rule cancel_counted [OF u en])
  have "m_pendingEventCount m = 1" using inv_pending [OF inv] one by simp
  then have "fst (IOManager_stopping (f_mgr ?x))"
    using timers sched by (auto simp: IOManager_stopping_def io_getNextTimer_def Scheduler_stopping_def
        split: prod.splits)
  moreover obtain y where "(fine_step True)\<^sup>*\<^sup>* ?x y"
    "m_tasks (f_mgr y) = [context_task (the_context v (m_fdContexts m ! i))]"
    using trigger_queues [OF r _ v] i on arm self none by auto
  ultimately show ?thesis using r by blast
qed

lemma cancelEvent_counts_early_witness:
  "\<exists>x y. fine_reach True io1s x \<and> fst (IOManager_stopping (f_mgr x)) \<and>
    (fine_step True)\<^sup>*\<^sup>* x y \<and> m_tasks (f_mgr y) \<noteq> []"
proof -
  have fields: "m_fdContexts io1s = m_fdContexts io1" "m_tickleFds io1s = (4, 5)" "io_self io1s = 1"
    "io_timers io1s = io_timers io1" "m_tasks io1s = []" "m_stopping io1s" "m_pendingEventCount io1s = 1"
    "m_activeThreadCount io1s = m_activeThreadCount io1"
    by (simp_all add: io1s_def)
  have "registered io1s < 2 ^ 64"
    using registered_bound [of io1s] io_reach_length [OF stopping_reach(2)] by simp
  then have "unat (m_pendingEventCount io1s) = registered io1s"
    using inv_pending [OF io_reach_inv [OF stopping_reach(2)]] by (simp add: unat_of_nat)
  then have "registered io1s = 1" unfolding fields(7) by simp
  moreover have "the_context READ_event (m_fdContexts io1 ! 7) =
      \<lparr>ec_scheduler = Some 1, ec_fiber = None, ec_cb = Some (UserFn 9)\<rparr>"
    by (simp add: io1_def after_add_def with_event_context valid_event_def)
  moreover have "fst (io_getNextTimer io1s) = no_timeout" "fst (Scheduler_stopping io1s)"
    using fields by (simp_all add: io_getNextTimer_def getNextTimer_def io1_def after_add_def new_manager_def
        Scheduler_stopping_def)
  ultimately show ?thesis
    using cancelEvent_counts_early [OF stopping_reach(2), of 7 READ_event] fields
    by (fastforce simp: usable_def valid_event_def)
qed

end
