(* ===== verification/Spec2Isabelle.thy ===== *)
theory Spec2Isabelle
  imports Timer_Spec Fiber_Spec Thread_Spec Scheduler_Theorems Scheduler_Control IOManager_Stopping Hook_Spec
    Echo_Server_Spec Coroutines Fiber_Misuse Epoll_Server Timer_Race IOManager_Pollers
    Timer_Test Fiber_Test Thread_Test Scheduler_Test
    IOManager_Test IOManager_Cancel
begin

text \<open>
  \<^bold>\<open>A model of coroutinelib and its correctness.\<close> The program (C++, under \<open>src/\<close>) is a library of
  stackful coroutines (\<open>Fiber\<close>) that a pool of threads (\<open>Thread\<close>) runs from one queue (\<open>Scheduler\<close>); an
  \<open>IOManager\<close> is a scheduler whose idle workers wait in \<open>epoll\<close> for descriptors and timers, and the hooks
  turn \<open>sleep\<close> into such a timer. \<open>src/main.cc\<close> is an HTTP server on top of it; \<open>20co/\<close> holds four small
  programs with C++20 coroutines.

  \<^bold>\<open>How the parts interact.\<close> A worker thread executes \<open>Scheduler::run\<close> on its main fiber: it takes a task
  from the queue under \<open>m_mutex\<close>, and resumes the fiber of the task, or a new one around its function,
  under the fiber's own mutex; with nothing to take it resumes its idle fiber. \<open>IOManager\<close> overrides
  what that fiber does: wait for the kernel, at most until the first deadline, then put the functions of
  the due timers and of the ready events into the queue. \<open>tickle\<close> writes a byte to a pipe to end such a
  wait. The model keeps this: the class of the scheduler is a record that the one of \<open>IOManager\<close> extends,
  and the operations of the scheduler take the virtual functions as arguments.

  \<^bold>\<open>Theories.\<close>
  \<^item> \<open>Prelude\<close>: faults and results, closures (\<open>std::function\<close>), machine integers, lists.
    \<open>Ordered_Set\<close>: the container \<open>std::set\<close> with a comparator, as a sorted list, under the contract
    (a locale) of a strict weak order.
  \<^item> \<open>Timer\<close> (\<open>src/timer\<close>): \<open>Timer\<close> objects in a store, \<open>TimerManager\<close> as a record, one definition per member
    function, the loop of \<open>listExpiredCb\<close> as a partial function. \<open>Timer_Props\<close>, \<open>Timer_Spec\<close>: the set stays
    ordered; the loop returns, fires the due timers in order and leaves the specified set, or does not
    return; the operations against the map from deadlines to timers. \<open>Timer_Race\<close>: the gap in \<open>Timer::reset\<close>.
  \<^item> \<open>Fiber\<close> (\<open>src/fiber\<close>): fibers in a store, the thread-local pointers, and the context switch as the
    stack each thread executes on. \<open>Fiber_Spec\<close>: the invariant of all reachable worlds, what a switch
    does, and the refinement of an abstract coroutine machine. \<open>Fiber_Caller\<close>: a thread that runs its
    tasks on its scheduler fiber does, statement by statement, what one does that runs them on its own
    stack. \<open>Fiber_Misuse\<close>: nested resumes, shared ids.
  \<^item> \<open>Thread\<close> (\<open>src/thread\<close>): the semaphore with its sleeping and woken threads, \<open>Thread\<close> objects,
    \<open>Thread::run\<close> statement by statement. \<open>Thread_Spec\<close>: the semaphore under every interleaving, and the
    handshake of the constructor with the new thread.
  \<^item> \<open>Scheduler\<close> (\<open>src/scheduler\<close>): the queue, construction, \<open>start\<close>, \<open>stop\<close>, and \<open>run\<close> as one function per
    statement, with a program counter per worker. \<open>Scheduler_Steps\<close>: the step relation in which workers,
    fibers and all other code interleave. \<open>Scheduler_Inv\<close>, \<open>Scheduler_Spec\<close>: its invariant, for all virtual
    functions that keep the contract \<open>virtual_ops\<close> (a locale). \<open>Scheduler_Props\<close>: what follows from the
    contract. \<open>Scheduler_Theorems\<close>: the same for the base class, with the runs that show it can happen.
    \<open>Scheduler_Control\<close>: \<open>start\<close>, the constructor, \<open>stop\<close>. \<open>Scheduler_Lifetime\<close>: the state when the last
    worker has left, and the destructor. \<open>Scheduler_Caller\<close>: the thread that constructed the scheduler as
    one of its workers, by a simulation of the pool with it by one without.
  \<^item> \<open>IOManager\<close> (\<open>src/iomanager\<close>): descriptors' contexts, the three removals, \<open>addEvent\<close>, and the idle function
    in its parts (waiting, timers, events). \<open>IOManager_Spec\<close>, \<open>IOManager_Props\<close>: what each operation does to
    a manager whose contexts, count and log of \<open>epoll_ctl\<close> calls agree, and that they go on agreeing.
    \<open>IOManager_Theorems\<close>: the properties of the event table. \<open>IOManager_Sched\<close>: \<open>IOManager\<close> keeps the contract
    \<open>virtual_ops\<close> (an interpretation). \<open>IOManager_Run\<close>: runs in which no call of \<open>stopping()\<close> is interrupted,
    how long the workers wait, a wakeup they miss, and the deletion of a manager. \<open>IOManager_Stopping\<close>: its
    workers with the three reads of \<open>stopping()\<close> as steps of their own (two more interpretations of
    \<open>virtual_ops\<close>), what a worker has seen when it leaves, and an event it overlooks. \<open>IOManager_Round\<close>: a whole round of the idle function.
    \<open>IOManager_Pollers\<close>: the reports of several idle workers, treated event by event in any interleaving.
    \<open>IOManager_Fine\<close>: what each operation does under the mutex of its context, as a list of statements,
    and the runs in which those of several threads interleave. \<open>IOManager_Interleaving\<close>: statements of
    different contexts commute (a locale, interpreted on the statements) on the view of a manager.
    \<open>IOManager_Atomicity\<close>: hence the operations are atomic, and no statement fails as long as
    removals are of registered events and reports are current. \<open>IOManager_Cancel\<close>: what
    the count of pending events promises meanwhile, and how \<open>cancelEvent\<close> breaks it.
  \<^item> \<open>Hook\<close>, \<open>Hook_Spec\<close> (\<open>src/hook\<close>): the switch, the sleep functions, and the other hooks, which have empty
    bodies; a sleeping fiber through the timers, the idle function and the queue until it is scheduled
    again.
  \<^item> \<open>Echo_Server\<close>, \<open>Echo_Server_Spec\<close> (\<open>src/main.cc\<close>): the callbacks of the server on the manager.
    \<open>Timer_Test\<close>, \<open>Fiber_Test\<close>, \<open>Thread_Test\<close>, \<open>Scheduler_Test\<close>, \<open>IOManager_Test\<close> (\<open>test_timer.cc\<close>, \<open>tests/\<close>):
    the test programs as clients of the components, with what they print, queue, and leave behind.
  \<^item> \<open>Coroutines\<close> (\<open>20co/\<close>): frames and suspension points. \<open>Epoll_Server\<close> (\<open>epoll/epoll.cc\<close>): the stand-alone
    server, each of whose calls is on a connection that is open.

  \<^bold>\<open>Conventions.\<close> A pointer is a \<open>nat\<close> into a store, a thread the \<open>nat\<close> of its id. Results of system and
  library calls (\<open>malloc\<close>, the \<open>ucontext\<close> and \<open>pthread\<close> calls, \<open>epoll\<close>, sockets, the clock, \<open>dlsym\<close>) are
  arguments, so a theorem holds for each of them; \<open>junk\<close> is the value of a member the source leaves
  uninitialised, \<open>stale\<close> that of comparing an invalidated iterator. Time points and milliseconds are 64-bit
  values with their wrap-around; exactness is proved for clocks below \<open>2^62\<close> ns and periods up to
  \<open>4 * 10^12\<close> ms. No fuel is used: a loop that may not end is a \<open>partial_function\<close>, the loops over
  received results take the list of results, and the counters of the scheduler assume fewer threads
  than \<open>size_t\<close> can count. The workers of the scheduler interleave statement by
  statement. An operation of \<open>IOManager\<close> that registers, removes or delivers events is one step there: the
  source holds the mutex of one context all along, and what it shares with others it changes by steps that
  commute with theirs, which is proved over the statements. This is not so for \<open>stopping()\<close>, whose three
  reads take three locks in turn: there each read is a step, and what is proved of a worker that leaves is
  what it has seen at the moments of the reads.

  \<^bold>\<open>Assumptions.\<close> The properties of the workers suppose a disciplined program: the fibers it schedules or
  resets are task fibers, and the function of a fiber resumes no other fiber. \<open>malloc\<close> of a stack succeeds (the
  constructor faults otherwise), and so do the context calls. The write in \<open>tickle\<close> returns 1, since the write
  end of the pipe blocks. What the operations and the idle functions do is a step of the pool's runs when it
  returns; that it does not abort is a matter of the properties of the event table, which suppose that
  removals are of registered events and reports current, and the theorems of kind \<open>error\<close> say what
  happens otherwise.

  \<^bold>\<open>Not modelled.\<close> Output and the \<open>debug\<close> flag. The critical section of \<open>scheduleLock\<close> is one step, and so
  is each member function of \<open>TimerManager\<close> (but for the gap in \<open>Timer::reset\<close>), since the source holds
  the component's lock for just that long. The processor's reordering of memory accesses:
  a write without a lock, as that of \<open>m_stopping\<close> in \<open>stop\<close>, is seen at once. \<open>do_io\<close> and \<open>timer_info\<close> of the hooks are used nowhere, \<open>src/hook/fd_manager\<close> has no code.
\<close>

end
